(* ===== verification/SN_Prelude.thy ===== *)
theory SN_Prelude
  imports Main "HOL-Library.Word"
begin

text \<open>
  Shared vocabulary of the development: the C types at their widths on the LP64 targets
  of the library, the outcome of running a C function (it returns, or execution stops in
  one of the ways C execution can stop), the state-passing combinators the models are
  written with, and the total-correctness judgement \<open>runs\<close> the proofs use.
\<close>

named_theorems run \<open>definitions to unfold when a model is run on a concrete state\<close>

section \<open>C types\<close>

type_synonym byte = "8 word"
type_synonym ptr = "64 word"
type_synonym size_t = "64 word"
type_synonym tid_t = "64 word"
type_synonym block_id_t = "16 word"
type_synonym err_t = "32 word"

abbreviation (input) NULL :: ptr where "NULL \<equiv> 0"

section \<open>Outcomes of running C code\<close>

text \<open>
  How execution can stop without returning: \<open>UB\<close> is undefined behaviour (access to
  memory that is not live, an invalid \<open>free\<close>), \<open>Aborted\<close> is \<open>abort()\<close>,
  \<open>Exited c\<close> is \<open>exit(c)\<close>, \<open>Blocked\<close> is waiting for a mutex another thread holds
  (or that this thread holds without the library knowing), \<open>Endless\<close> a list walk that
  has taken more steps than there are addresses, so it follows a cycle.
\<close>

datatype halt = UB | Aborted | Exited err_t | Blocked | Endless

datatype ('a, 's) outcome = Done 'a 's | Halt halt 's

type_synonym ('s, 'a) prog = "'s \<Rightarrow> ('a, 's) outcome"

definition ret :: "'a \<Rightarrow> ('s, 'a) prog" where
  "ret a s = Done a s"

definition halt :: "halt \<Rightarrow> ('s, 'a) prog" where
  "halt h s = Halt h s"

definition bnd :: "('s, 'a) prog \<Rightarrow> ('a \<Rightarrow> ('s, 'b) prog) \<Rightarrow> ('s, 'b) prog" where
  "bnd m f s = (case m s of Done a s' \<Rightarrow> f a s' | Halt h s' \<Rightarrow> Halt h s')"

text \<open>\<open>gets f\<close> reads the state, \<open>modify f\<close> replaces it, \<open>if_do\<close> is a one-armed \<open>if\<close>.\<close>

definition gets :: "('s \<Rightarrow> 'a) \<Rightarrow> ('s, 'a) prog" where
  "gets f s = Done (f s) s"

definition modify :: "('s \<Rightarrow> 's) \<Rightarrow> ('s, unit) prog" where
  "modify f s = Done () (f s)"

definition if_do :: "bool \<Rightarrow> ('s, unit) prog \<Rightarrow> ('s, unit) prog" where
  "if_do b m = (if b then m else ret ())"

text \<open>
  A counted C loop over the indices in the list whose body may \<open>return\<close> from the enclosing
  function: the body gives \<open>None\<close> to go on with the next index, \<open>Some r\<close> to return \<open>r\<close>.
\<close>

primrec for_idx :: "nat list \<Rightarrow> (nat \<Rightarrow> ('s, 'r option) prog) \<Rightarrow> ('s, 'r option) prog" where
  "for_idx [] body = ret None"
| "for_idx (i # js) body =
     bnd (body i) (\<lambda>r. case r of None \<Rightarrow> for_idx js body | Some v \<Rightarrow> ret (Some v))"

lemma bnd_Done [simp]: "m s = Done a s' \<Longrightarrow> bnd m f s = f a s'"
  by (simp add: bnd_def)

lemma bnd_Halt [simp]: "m s = Halt h s' \<Longrightarrow> bnd m f s = Halt h s'"
  by (simp add: bnd_def)

lemma bnd_ret [simp]: "bnd (ret a) f s = f a s"
  by (simp add: ret_def)

lemma bnd_gets [simp]: "bnd (gets g) f s = f (g s) s"
  by (simp add: gets_def)

lemma bnd_modify [simp]: "bnd (modify g) f s = f () (g s)"
  by (simp add: modify_def)

lemma bnd_halt [simp]: "bnd (halt h) f s = Halt h s"
  by (simp add: halt_def)

lemma if_do_True [simp]: "if_do True m = m"
  by (simp add: if_do_def)

lemma if_do_False [simp]: "if_do False m = ret ()"
  by (simp add: if_do_def)

text \<open>A continuation is not simplified before it is reached.\<close>

lemma bnd_cong [cong]: "m = m' \<Longrightarrow> bnd m f = bnd m' f"
  by simp

lemma bnd_assoc [simp]: "bnd (bnd m f) g s = bnd m (\<lambda>x. bnd (f x) g) s"
  by (simp add: bnd_def split: outcome.split)

lemmas run_prelude [run] =
  bnd_def ret_def halt_def gets_def modify_def if_do_def

text \<open>
  Two kinds of counted loop: a search, whose body changes nothing until it returns, and a
  sweep, whose state before iteration \<open>k\<close> is \<open>F k\<close>.
\<close>

lemma for_idx_search:
  assumes "\<And>i. i \<in> set js \<Longrightarrow> \<not> hit i \<Longrightarrow> body i s = Done None s"
    and "\<And>i. i \<in> set js \<Longrightarrow> hit i \<Longrightarrow> body i s = Done (Some (r i)) (f i)"
  shows "for_idx js body s = (case find hit js of None \<Rightarrow> Done None s | Some i \<Rightarrow> Done (Some (r i)) (f i))"
  using assms by (induction js) (simp_all add: ret_def)

lemma for_idx_steps:
  assumes "\<And>k. a \<le> k \<Longrightarrow> k < b \<Longrightarrow> body k (F k) = Done None (F (Suc k))" and "a \<le> b"
  shows "for_idx [a..<b] body (F a) = Done None (F b)"
  using assms(2,1)
proof (induction a rule: inc_induct)
  case base
  then show ?case by (simp add: ret_def)
next
  case (step n)
  have "[n..<b] = n # [Suc n..<b]" using step.hyps by (simp add: upt_rec)
  then show ?case using step by simp
qed

text \<open>Lists of a fixed length, for evaluation.\<close>

lemma list_update_numeral [run]: "(x # xs)[numeral v := y] = x # xs[pred_numeral v := y]"
  by (simp add: numeral_eq_Suc)

lemma replicate_numeral [run]: "replicate (numeral v) x = x # replicate (pred_numeral v) x"
  by (simp add: numeral_eq_Suc)

lemma upt_five [run]: "[0..<5] = [0, 1, 2, 3, 4 :: nat]"
  by (simp add: upt_rec)

section \<open>Total correctness\<close>

text \<open>
  \<open>runs m s Q\<close>: started in \<open>s\<close>, the program \<open>m\<close> returns, and its result and final
  state satisfy \<open>Q\<close>; so it has no undefined behaviour, does not block, exit or diverge.
\<close>

definition runs :: "('s, 'a) prog \<Rightarrow> 's \<Rightarrow> ('a \<Rightarrow> 's \<Rightarrow> bool) \<Rightarrow> bool" where
  "runs m s Q \<longleftrightarrow> (\<exists>a s'. m s = Done a s' \<and> Q a s')"

lemma runsI: "m s = Done a s' \<Longrightarrow> Q a s' \<Longrightarrow> runs m s Q"
  by (auto simp: runs_def)

lemma runsE: "runs m s Q \<Longrightarrow> (\<And>a s'. m s = Done a s' \<Longrightarrow> Q a s' \<Longrightarrow> P) \<Longrightarrow> P"
  by (auto simp: runs_def)

lemma runs_mono: "runs m s Q \<Longrightarrow> (\<And>a s'. Q a s' \<Longrightarrow> R a s') \<Longrightarrow> runs m s R"
  by (auto simp: runs_def)

lemma runs_bnd: "runs m s (\<lambda>a s'. runs (f a) s' Q) \<Longrightarrow> runs (bnd m f) s Q"
  by (auto simp: runs_def)

lemma runs_ret [simp]: "runs (ret a) s Q \<longleftrightarrow> Q a s"
  by (auto simp: runs_def ret_def)

lemma runs_conj: "runs m s P \<Longrightarrow> runs m s Q \<Longrightarrow> runs m s (\<lambda>a t. P a t \<and> Q a t)"
  by (auto simp: runs_def)

text \<open>\<open>ends m s Q H\<close>: as \<open>runs\<close>, but execution may also stop in one of the ways \<open>H\<close> allows.\<close>

definition ends :: "('s, 'a) prog \<Rightarrow> 's \<Rightarrow> ('a \<Rightarrow> 's \<Rightarrow> bool) \<Rightarrow> (halt \<Rightarrow> bool) \<Rightarrow> bool" where
  "ends m s Q H \<longleftrightarrow> (case m s of Done a t \<Rightarrow> Q a t | Halt h t \<Rightarrow> H h)"

lemma runs_ends: "runs m s Q \<Longrightarrow> ends m s Q H"
  by (auto simp: runs_def ends_def)

lemma ends_never: "ends m s Q (\<lambda>_. False) \<longleftrightarrow> runs m s Q"
  by (auto simp: runs_def ends_def split: outcome.splits)

lemma ends_mono:
  "\<lbrakk>ends m s Q H; \<And>a t. Q a t \<Longrightarrow> R a t; \<And>h. H h \<Longrightarrow> K h\<rbrakk> \<Longrightarrow> ends m s R K"
  by (auto simp: ends_def split: outcome.splits)

lemma ends_bnd:
  "\<lbrakk>ends m s P H; \<And>a t. P a t \<Longrightarrow> ends (f a) t Q H\<rbrakk> \<Longrightarrow> ends (bnd m f) s Q H"
  by (cases "m s") (simp_all add: ends_def bnd_def)

lemma runs_bndI:
  "\<lbrakk>runs m s P; \<And>a t. P a t \<Longrightarrow> runs (f a) t Q\<rbrakk> \<Longrightarrow> runs (bnd m f) s Q"
  by (auto simp: runs_def bnd_def)

lemma ends_bnd_runs:
  "\<lbrakk>runs m s P; \<And>a t. P a t \<Longrightarrow> ends (f a) t Q H\<rbrakk> \<Longrightarrow> ends (bnd m f) s Q H"
  using ends_bnd runs_ends by metis

lemma ends_ret [simp]: "ends (ret a) s Q H \<longleftrightarrow> Q a s"
  by (simp add: ends_def ret_def)

section \<open>Reading an outcome\<close>

primrec value_of :: "('a, 's) outcome \<Rightarrow> 'a option" where
  "value_of (Done a s) = Some a"
| "value_of (Halt h s) = None"

primrec halt_of :: "('a, 's) outcome \<Rightarrow> halt option" where
  "halt_of (Done a s) = None"
| "halt_of (Halt h s) = Some h"

primrec state_of :: "('a, 's) outcome \<Rightarrow> 's" where
  "state_of (Done a s) = s"
| "state_of (Halt h s) = s"

section \<open>Lists and words\<close>

definition hd_or :: "'a \<Rightarrow> 'a list \<Rightarrow> 'a" where
  "hd_or d xs = (case xs of [] \<Rightarrow> d | x # _ \<Rightarrow> x)"

definition last_or :: "'a \<Rightarrow> 'a list \<Rightarrow> 'a" where
  "last_or d xs = (if xs = [] then d else last xs)"

lemma hd_or_simps [simp]: "hd_or d [] = d" "hd_or d (x # xs) = x"
  by (simp_all add: hd_or_def)

lemma last_or_simps [simp]: "last_or d [] = d" "last_or d (x # xs) = last_or x xs"
  "last_or d (xs @ [x]) = x"
  by (simp_all add: last_or_def)

lemma hd_or_append: "hd_or d (xs @ ys) = hd_or (hd_or d ys) xs"
  by (cases xs) simp_all

lemma last_or_append: "last_or d (xs @ ys) = last_or (last_or d xs) ys"
  by (simp add: last_or_def)

lemma last_or_in: "last_or d xs \<in> set (d # xs)"
  by (simp add: last_or_def)

lemma hd_or_in: "hd_or d xs \<in> set (d # xs)"
  by (cases xs) simp_all

lemma last_Cons_last_or: "last (x # xs) = last_or x xs"
  by (simp add: last_or_def)

text \<open>\<open>remove_first\<close> deletes the first element satisfying a predicate.\<close>

primrec remove_first :: "('a \<Rightarrow> bool) \<Rightarrow> 'a list \<Rightarrow> 'a list" where
  "remove_first P [] = []"
| "remove_first P (x # xs) = (if P x then xs else x # remove_first P xs)"

lemma remove_first_none: "(\<And>x. x \<in> set xs \<Longrightarrow> \<not> P x) \<Longrightarrow> remove_first P xs = xs"
  by (induction xs) auto

lemma remove_first_split:
  "\<lbrakk>\<And>x. x \<in> set xs \<Longrightarrow> \<not> P x; P y\<rbrakk> \<Longrightarrow> remove_first P (xs @ y # ys) = xs @ ys"
  by (induction xs) auto

text \<open>\<open>put_first\<close> overwrites the first element satisfying a predicate.\<close>

primrec put_first :: "('a \<Rightarrow> bool) \<Rightarrow> 'a \<Rightarrow> 'a list \<Rightarrow> 'a list" where
  "put_first P c [] = []"
| "put_first P c (x # xs) = (if P x then c # xs else x # put_first P c xs)"

lemma put_first_length [simp]: "length (put_first P c xs) = length xs"
  by (induction xs) auto

lemma put_first_in: "y \<in> set (put_first P c xs) \<Longrightarrow> y = c \<or> y \<in> set xs"
  by (induction xs) (auto split: if_splits)

lemma find_map_Suc: "find Q (map Suc js) = map_option Suc (find (\<lambda>i. Q (Suc i)) js)"
  by (induction js) auto

lemma find_upt_Cons:
  "find Q [0..<Suc n] = (if Q 0 then Some 0 else map_option Suc (find (\<lambda>i. Q (Suc i)) [0..<n]))"
proof -
  have "[0..<Suc n] = 0 # map Suc [0..<n]" by (simp add: map_Suc_upt upt_conv_Cons del: upt_Suc)
  then show ?thesis by (simp add: find_map_Suc)
qed

lemma put_first_find:
  "put_first P c xs = (case find (\<lambda>i. P (xs ! i)) [0..<length xs] of None \<Rightarrow> xs | Some i \<Rightarrow> xs[i := c])"
proof (induction xs)
  case (Cons x xs)
  then show ?case by (simp add: find_upt_Cons del: upt_Suc split: option.split)
qed simp

lemma find_nth_find:
  "find P xs = map_option ((!) xs) (find (\<lambda>i. P (xs ! i)) [0..<length xs])"
  by (induction xs) (simp_all add: find_upt_Cons option.map_comp comp_def del: upt_Suc)

lemma length_distinct_ptrs: "distinct (ps :: ptr list) \<Longrightarrow> length ps \<le> 2 ^ 64"
proof -
  assume "distinct ps"
  then have "length ps = card (set ps)" by (simp add: distinct_card)
  also have "\<dots> \<le> card (UNIV :: ptr set)" by (rule card_mono) simp_all
  also have "\<dots> = 2 ^ 64" by (simp add: card_word)
  finally show ?thesis .
qed

lemma unat_Suc_word: "(i :: 64 word) \<noteq> - 1 \<Longrightarrow> unat (i + 1) = Suc (unat i)"
  by (metis add.commute add_eq_0_iff unatSuc)

lemma counter_not_max: "unat (i :: 64 word) + n < 2 ^ 64 \<Longrightarrow> 0 < n \<Longrightarrow> i \<noteq> - 1"
proof
  assume "unat i + n < 2 ^ 64" "0 < n" "i = - 1"
  moreover have "unat (- 1 :: 64 word) = 2 ^ 64 - 1" by (simp add: unsigned_minus_1_eq_mask mask_eq_exp_minus_1)
  ultimately show False by simp
qed

end
