(* ===== verification/SN_Machine.thy ===== *)
theory SN_Machine
  imports SN_Prelude
begin

text \<open>
  The data model: the structs of \<open>linked_list_c.h\<close>, \<open>alloc_manager_c.h\<close> and
  \<open>plat_threading.c\<close> as records, and the machine the library runs on. Memory is split
  by type: one partial map per struct from the address of a live object to its fields,
  and one from the address of a raw block to its bytes. A block is live in at most one of
  the maps; \<open>malloc\<close> makes raw bytes, the \<open>memset\<close> the constructors start with turns them
  into a zeroed struct, and \<open>free\<close> ends the life of a block of any type. What the
  environment decides (the answers of \<open>malloc\<close>, \<open>pthread_mutex_init\<close> and of file
  operations) is read from queues in the state, so a theorem about every state is a
  theorem about every behaviour of the environment.
\<close>

section \<open>The structs\<close>

record linked_list_entry_t =
  e_previous :: ptr
  e_data :: ptr
  e_size :: size_t
  e_tid :: tid_t
  e_cached :: bool
  e_block_id :: block_id_t
  e_isHead :: bool
  e_weight :: byte
  e_mutex :: ptr
  e_next :: ptr

record linked_list_t =
  l_head :: ptr
  l_len :: size_t
  l_firstEntry :: ptr
  l_lastEntry :: ptr
  l_lastAccess :: ptr
  l_mutex :: ptr

record cache_pair_t =
  cp_key :: ptr
  cp_value :: ptr

record alloc_manager_t =
  m_cache_list :: "cache_pair_t list"
  m_available_cache_slots :: byte
  m_cache_lock :: bool
  m_use_cache :: bool
  m_alloc_limit :: size_t
  m_global_memory_usage :: size_t
  m_mutex_ref :: ptr

text \<open>\<open>mx_owner\<close> is the state of the \<open>pthread_mutex_t\<close>: the thread that holds it, if any.\<close>

record plat_mutex_t =
  mx_owner :: "tid_t option"
  mx_locker_tid :: tid_t

text \<open>\<open>sizeof\<close> of the structs on LP64 (x86-64 Linux).\<close>

definition sizeof_linked_list_entry_t :: size_t where "sizeof_linked_list_entry_t = 56"
definition sizeof_linked_list_t :: size_t where "sizeof_linked_list_t = 48"
definition sizeof_alloc_manager_t :: size_t where "sizeof_alloc_manager_t = 112"
definition sizeof_sn_mem_metadata_t :: size_t where "sizeof_sn_mem_metadata_t = 32"

text \<open>Without \<open>SN_CONFIG_ENABLE_MUTEX\<close> the struct of a mutex is one byte of padding.\<close>

definition sizeof_plat_mutex_t :: "bool \<Rightarrow> size_t" where
  "sizeof_plat_mutex_t on = (if on then 48 else 1)"

definition MEMMAN_MAX_CACHE_SLOTS :: nat where "MEMMAN_MAX_CACHE_SLOTS = 5"

definition MEMMAN_CACHE_MISS :: ptr where "MEMMAN_CACHE_MISS = NULL"

definition MEMMAN_NO_ALLOC_LIMIT :: size_t where "MEMMAN_NO_ALLOC_LIMIT = 0"

definition LIST_FOR_EACH_LOOP_BRAKE :: ptr where "LIST_FOR_EACH_LOOP_BRAKE = - 44"

text \<open>The structs after \<open>memset(self, 0, sizeof *self)\<close>.\<close>

definition zero_entry :: linked_list_entry_t where
  "zero_entry = \<lparr>e_previous = NULL, e_data = NULL, e_size = 0, e_tid = 0, e_cached = False,
     e_block_id = 0, e_isHead = False, e_weight = 0, e_mutex = NULL, e_next = NULL\<rparr>"

definition zero_list :: linked_list_t where
  "zero_list = \<lparr>l_head = NULL, l_len = 0, l_firstEntry = NULL, l_lastEntry = NULL,
     l_lastAccess = NULL, l_mutex = NULL\<rparr>"

definition zero_pair :: cache_pair_t where
  "zero_pair = \<lparr>cp_key = NULL, cp_value = NULL\<rparr>"

definition zero_manager :: alloc_manager_t where
  "zero_manager = \<lparr>m_cache_list = replicate MEMMAN_MAX_CACHE_SLOTS zero_pair,
     m_available_cache_slots = 0, m_cache_lock = False, m_use_cache = False,
     m_alloc_limit = 0, m_global_memory_usage = 0, m_mutex_ref = NULL\<rparr>"

definition free_mutex :: plat_mutex_t where
  "free_mutex = \<lparr>mx_owner = None, mx_locker_tid = 0\<rparr>"

definition held_mutex :: "tid_t \<Rightarrow> plat_mutex_t" where
  "held_mutex t = \<lparr>mx_owner = Some t, mx_locker_tid = t\<rparr>"

section \<open>The machine\<close>

text \<open>
  \<open>current\<close> is the thread making the call. \<open>cfg_mutex\<close> and \<open>cfg_sanitize\<close> are the build
  options \<open>SN_CONFIG_ENABLE_MUTEX\<close> and \<open>SN_CONFIG_SANITIZE_MEMORY_ON_FREE\<close>. The last
  fields are the library's globals: \<open>mem_list\<close>, \<open>alloc_mutex\<close>, \<open>memory_manager\<close>,
  \<open>doFree\<close> (\<open>setup.c\<close>) and \<open>error_code\<close> (\<open>sn_error.c\<close>).
\<close>

record machine =
  nodes :: "ptr \<rightharpoonup> linked_list_entry_t"
  lists :: "ptr \<rightharpoonup> linked_list_t"
  managers :: "ptr \<rightharpoonup> alloc_manager_t"
  mutexes :: "ptr \<rightharpoonup> plat_mutex_t"
  blocks :: "ptr \<rightharpoonup> byte list"
  malloc_answers :: "(ptr \<times> byte list) list"
  mutex_init_answers :: "bool list"
  files :: "string \<rightharpoonup> byte list"
  io_answers :: "nat list"
  current :: tid_t
  cfg_mutex :: bool
  cfg_sanitize :: bool
  mem_list :: ptr
  alloc_mutex :: ptr
  memory_manager :: ptr
  doFree :: bool
  error_code :: err_t

type_synonym 'a lib = "(machine, 'a) prog"

section \<open>Access to live objects\<close>

text \<open>Reading or writing through a pointer to an object that is not live is \<open>UB\<close>.\<close>

definition load_node :: "ptr \<Rightarrow> linked_list_entry_t lib" where
  "load_node p s = (case nodes s p of Some e \<Rightarrow> Done e s | None \<Rightarrow> Halt UB s)"

definition upd_node :: "ptr \<Rightarrow> (linked_list_entry_t \<Rightarrow> linked_list_entry_t) \<Rightarrow> unit lib" where
  "upd_node p f s = (case nodes s p of
     Some e \<Rightarrow> Done () (s\<lparr>nodes := (nodes s)(p \<mapsto> f e)\<rparr>) | None \<Rightarrow> Halt UB s)"

definition load_list :: "ptr \<Rightarrow> linked_list_t lib" where
  "load_list l s = (case lists s l of Some L \<Rightarrow> Done L s | None \<Rightarrow> Halt UB s)"

definition upd_list :: "ptr \<Rightarrow> (linked_list_t \<Rightarrow> linked_list_t) \<Rightarrow> unit lib" where
  "upd_list l f s = (case lists s l of
     Some L \<Rightarrow> Done () (s\<lparr>lists := (lists s)(l \<mapsto> f L)\<rparr>) | None \<Rightarrow> Halt UB s)"

definition load_manager :: "ptr \<Rightarrow> alloc_manager_t lib" where
  "load_manager m s = (case managers s m of Some M \<Rightarrow> Done M s | None \<Rightarrow> Halt UB s)"

definition upd_manager :: "ptr \<Rightarrow> (alloc_manager_t \<Rightarrow> alloc_manager_t) \<Rightarrow> unit lib" where
  "upd_manager m f s = (case managers s m of
     Some M \<Rightarrow> Done () (s\<lparr>managers := (managers s)(m \<mapsto> f M)\<rparr>) | None \<Rightarrow> Halt UB s)"

lemma load_node_Some [simp]: "nodes s p = Some e \<Longrightarrow> load_node p s = Done e s"
  by (simp add: load_node_def)

lemma upd_node_Some [simp]:
  "nodes s p = Some e \<Longrightarrow> upd_node p f s = Done () (s\<lparr>nodes := (nodes s)(p \<mapsto> f e)\<rparr>)"
  by (simp add: upd_node_def)

lemma load_list_Some [simp]: "lists s l = Some L \<Longrightarrow> load_list l s = Done L s"
  by (simp add: load_list_def)

lemma upd_list_Some [simp]:
  "lists s l = Some L \<Longrightarrow> upd_list l f s = Done () (s\<lparr>lists := (lists s)(l \<mapsto> f L)\<rparr>)"
  by (simp add: upd_list_def)

lemma load_manager_Some [simp]: "managers s m = Some M \<Longrightarrow> load_manager m s = Done M s"
  by (simp add: load_manager_def)

lemma upd_manager_Some [simp]:
  "managers s m = Some M \<Longrightarrow>
   upd_manager m f s = Done () (s\<lparr>managers := (managers s)(m \<mapsto> f M)\<rparr>)"
  by (simp add: upd_manager_def)

section \<open>Raw memory\<close>

definition live :: "machine \<Rightarrow> ptr \<Rightarrow> bool" where
  "live s p \<longleftrightarrow> nodes s p \<noteq> None \<or> lists s p \<noteq> None \<or> managers s p \<noteq> None
     \<or> mutexes s p \<noteq> None \<or> blocks s p \<noteq> None"

text \<open>
  An address \<open>malloc\<close> may return for a block of \<open>n\<close> bytes: not null, not the address of a
  live block, and the block does not run past the end of the address space.
\<close>

definition can_place :: "machine \<Rightarrow> ptr \<Rightarrow> size_t \<Rightarrow> bool" where
  "can_place s p n \<longleftrightarrow> p \<noteq> NULL \<and> \<not> live s p \<and> uint p + uint n \<le> 2 ^ 64"

text \<open>\<open>memset(p, v, n)\<close> on a raw block; no effect when \<open>n\<close> is 0.\<close>

definition c_memset :: "ptr \<Rightarrow> byte \<Rightarrow> size_t \<Rightarrow> unit lib" where
  "c_memset p v n s =
     (if n = 0 then Done () s
      else case blocks s p of
        Some bs \<Rightarrow>
          (if unat n \<le> length bs
           then Done () (s\<lparr>blocks := (blocks s)(p \<mapsto> replicate (unat n) v @ drop (unat n) bs)\<rparr>)
           else Halt UB s)
      | None \<Rightarrow> Halt UB s)"

text \<open>
  \<open>memset(p, 0, sizeof *p)\<close> on the raw block just allocated for a struct: from here on the
  block holds that struct.
\<close>

definition drop_block :: "ptr \<Rightarrow> machine \<Rightarrow> machine" where
  "drop_block p s = s\<lparr>blocks := (blocks s)(p := None)\<rparr>"

definition zero_node_at :: "ptr \<Rightarrow> unit lib" where
  "zero_node_at p s = (case blocks s p of
     Some bs \<Rightarrow> (if length bs = unat sizeof_linked_list_entry_t
       then Done () ((drop_block p s)\<lparr>nodes := (nodes s)(p \<mapsto> zero_entry)\<rparr>) else Halt UB s)
   | None \<Rightarrow> Halt UB s)"

definition zero_list_at :: "ptr \<Rightarrow> unit lib" where
  "zero_list_at p s = (case blocks s p of
     Some bs \<Rightarrow> (if length bs = unat sizeof_linked_list_t
       then Done () ((drop_block p s)\<lparr>lists := (lists s)(p \<mapsto> zero_list)\<rparr>) else Halt UB s)
   | None \<Rightarrow> Halt UB s)"

definition zero_manager_at :: "ptr \<Rightarrow> unit lib" where
  "zero_manager_at p s = (case blocks s p of
     Some bs \<Rightarrow> (if length bs = unat sizeof_alloc_manager_t
       then Done () ((drop_block p s)\<lparr>managers := (managers s)(p \<mapsto> zero_manager)\<rparr>) else Halt UB s)
   | None \<Rightarrow> Halt UB s)"

definition zero_mutex_at :: "ptr \<Rightarrow> unit lib" where
  "zero_mutex_at p s = (case blocks s p of
     Some bs \<Rightarrow> (if length bs = unat (sizeof_plat_mutex_t (cfg_mutex s))
       then Done () ((drop_block p s)\<lparr>mutexes := (mutexes s)(p \<mapsto> free_mutex)\<rparr>) else Halt UB s)
   | None \<Rightarrow> Halt UB s)"

lemmas run_machine [run] =
  load_node_def upd_node_def load_list_def upd_list_def load_manager_def upd_manager_def
  live_def can_place_def c_memset_def drop_block_def zero_node_at_def zero_list_at_def
  zero_manager_at_def zero_mutex_at_def zero_entry_def zero_list_def zero_manager_def
  zero_pair_def free_mutex_def held_mutex_def sizeof_linked_list_entry_t_def
  sizeof_linked_list_t_def sizeof_alloc_manager_t_def sizeof_plat_mutex_t_def
  sizeof_sn_mem_metadata_t_def MEMMAN_MAX_CACHE_SLOTS_def MEMMAN_CACHE_MISS_def
  MEMMAN_NO_ALLOC_LIMIT_def LIST_FOR_EACH_LOOP_BRAKE_def

section \<open>One object per address\<close>

text \<open>\<open>split_ok\<close>: no address is live in two of the typed maps.\<close>

definition split_ok :: "machine \<Rightarrow> bool" where
  "split_ok s \<longleftrightarrow>
     dom (nodes s) \<inter> (dom (lists s) \<union> dom (managers s) \<union> dom (mutexes s) \<union> dom (blocks s)) = {} \<and>
     dom (lists s) \<inter> (dom (managers s) \<union> dom (mutexes s) \<union> dom (blocks s)) = {} \<and>
     dom (managers s) \<inter> (dom (mutexes s) \<union> dom (blocks s)) = {} \<and>
     dom (mutexes s) \<inter> dom (blocks s) = {}"

text \<open>Writing fields of live objects, and anything outside the memory, keeps it.\<close>

lemma split_ok_cong:
  "\<lbrakk>split_ok s; dom (nodes s') \<subseteq> dom (nodes s); dom (lists s') \<subseteq> dom (lists s);
    dom (managers s') \<subseteq> dom (managers s); dom (mutexes s') \<subseteq> dom (mutexes s);
    dom (blocks s') \<subseteq> dom (blocks s)\<rbrakk> \<Longrightarrow> split_ok s'"
  unfolding split_ok_def by (elim conjE, intro conjI; blast)

lemma split_ok_node:
  "\<lbrakk>split_ok s; nodes s p = Some e\<rbrakk>
   \<Longrightarrow> lists s p = None \<and> managers s p = None \<and> mutexes s p = None \<and> blocks s p = None"
  unfolding split_ok_def by blast

lemma split_ok_block:
  "\<lbrakk>split_ok s; blocks s p = Some b\<rbrakk>
   \<Longrightarrow> nodes s p = None \<and> lists s p = None \<and> managers s p = None \<and> mutexes s p = None"
  unfolding split_ok_def by blast

lemma split_ok_list:
  "\<lbrakk>split_ok s; lists s p = Some b\<rbrakk>
   \<Longrightarrow> nodes s p = None \<and> managers s p = None \<and> mutexes s p = None \<and> blocks s p = None"
  unfolding split_ok_def by blast

lemma split_ok_manager:
  "\<lbrakk>split_ok s; managers s p = Some b\<rbrakk>
   \<Longrightarrow> nodes s p = None \<and> lists s p = None \<and> mutexes s p = None \<and> blocks s p = None"
  unfolding split_ok_def by blast

lemma split_ok_mutex:
  "\<lbrakk>split_ok s; mutexes s p = Some b\<rbrakk>
   \<Longrightarrow> nodes s p = None \<and> lists s p = None \<and> managers s p = None \<and> blocks s p = None"
  unfolding split_ok_def by blast

text \<open>No block can start at the loop-break sentinel of \<open>linked_list_forEach\<close>: a list entry
  placed there would run past the end of the address space.\<close>

lemma can_place_entry_not_brake:
  "can_place s p sizeof_linked_list_entry_t \<Longrightarrow> p \<noteq> LIST_FOR_EACH_LOOP_BRAKE"
  by (auto simp: can_place_def sizeof_linked_list_entry_t_def LIST_FOR_EACH_LOOP_BRAKE_def)

end
