(* ===== verification/Plat_Allocators.thy ===== *)
theory Plat_Allocators
  imports SN_Machine
begin

text \<open>
  \<open>platform_independent/plat_allocators.c\<close>: the four calls into the C allocator. Each
  reads the environment's next answer; an answer \<open>malloc\<close> could not give (null, the
  address of a live block, a block that would wrap) and an empty queue both stand for
  failure, so every queue is a possible run of a real allocator and every run of a real
  allocator is some queue. The contents of new memory are the bytes the answer carries.
\<close>

section \<open>malloc, calloc, realloc, free\<close>

definition fresh_bytes :: "size_t \<Rightarrow> byte list \<Rightarrow> byte list" where
  "fresh_bytes n junk = take (unat n) (junk @ replicate (unat n) 0)"

definition plat_malloc :: "size_t \<Rightarrow> ptr lib" where
  "plat_malloc n s = (case malloc_answers s of
     [] \<Rightarrow> Done NULL s
   | (p, junk) # rest \<Rightarrow>
       (if can_place s p n
        then Done p (s\<lparr>malloc_answers := rest, blocks := (blocks s)(p \<mapsto> fresh_bytes n junk)\<rparr>)
        else Done NULL (s\<lparr>malloc_answers := rest\<rparr>)))"

text \<open>\<open>calloc\<close> fails when the product overflows, and zeroes the block.\<close>

definition plat_calloc :: "size_t \<Rightarrow> size_t \<Rightarrow> ptr lib" where
  "plat_calloc num n s = (case malloc_answers s of
     [] \<Rightarrow> Done NULL s
   | (p, junk) # rest \<Rightarrow>
       (if uint num * uint n < 2 ^ 64 \<and> can_place s p (num * n)
        then Done p (s\<lparr>malloc_answers := rest,
                      blocks := (blocks s)(p \<mapsto> replicate (unat num * unat n) 0)\<rparr>)
        else Done NULL (s\<lparr>malloc_answers := rest\<rparr>)))"

text \<open>
  \<open>realloc(ptr, n)\<close> for a non-null \<open>ptr\<close> and \<open>n > 0\<close>: the argument must be a live raw
  block; the answer is the same address (grown or shrunk in place), a fresh one (the old
  block is freed), or failure (the old block is kept).
\<close>

definition plat_realloc :: "ptr \<Rightarrow> size_t \<Rightarrow> ptr lib" where
  "plat_realloc p n s = (case blocks s p of
     None \<Rightarrow> Halt UB s
   | Some bs \<Rightarrow> (case malloc_answers s of
       [] \<Rightarrow> Done NULL s
     | (q, junk) # rest \<Rightarrow>
         (if q = p \<and> uint p + uint n \<le> 2 ^ 64 \<or> can_place s q n
          then Done q (s\<lparr>malloc_answers := rest,
                        blocks := (blocks s)(p := None, q \<mapsto> fresh_bytes n (bs @ junk))\<rparr>)
          else Done NULL (s\<lparr>malloc_answers := rest\<rparr>))))"

text \<open>\<open>free\<close>: nothing for null, \<open>UB\<close> for an address that is not a live block.\<close>

definition plat_free :: "ptr \<Rightarrow> unit lib" where
  "plat_free p s =
     (if p = NULL then Done () s
      else if live s p
        then Done () (s\<lparr>nodes := (nodes s)(p := None), lists := (lists s)(p := None),
               managers := (managers s)(p := None), mutexes := (mutexes s)(p := None),
               blocks := (blocks s)(p := None)\<rparr>)
        else Halt UB s)"

section \<open>Lemmas\<close>

lemma length_fresh_bytes [simp]: "length (fresh_bytes n junk) = unat n"
  by (simp add: fresh_bytes_def)

text \<open>The three outcomes of an allocation, for case analysis on a call.\<close>

lemma plat_malloc_cases:
  obtains (fail) rest where
    "plat_malloc n s = Done NULL (s\<lparr>malloc_answers := rest\<rparr>)"
  | (ok) p junk rest where "malloc_answers s = (p, junk) # rest" "can_place s p n"
    "plat_malloc n s = Done p (s\<lparr>malloc_answers := rest,
        blocks := (blocks s)(p \<mapsto> fresh_bytes n junk)\<rparr>)"
proof (cases "malloc_answers s")
  case Nil
  then have "plat_malloc n s = Done NULL (s\<lparr>malloc_answers := []\<rparr>)"
    by (simp add: plat_malloc_def)
  then show ?thesis by (rule fail)
next
  case (Cons a rest)
  obtain p junk where a: "a = (p, junk)" by (cases a)
  show ?thesis
  proof (cases "can_place s p n")
    case True
    with Cons a show ?thesis
      by (intro ok [of p junk rest]) (simp_all add: plat_malloc_def)
  next
    case False
    with Cons a show ?thesis by (intro fail [of rest]) (simp add: plat_malloc_def)
  qed
qed

lemmas run_allocators [run] =
  fresh_bytes_def plat_malloc_def plat_calloc_def plat_realloc_def plat_free_def

text \<open>Freeing a list entry or a raw block, when every address holds one object.\<close>

lemma plat_free_node:
  "\<lbrakk>split_ok s; nodes s p = Some e; p \<noteq> NULL\<rbrakk>
   \<Longrightarrow> plat_free p s = Done () (s\<lparr>nodes := (nodes s)(p := None)\<rparr>)"
  using split_ok_node [of s p e] by (simp add: plat_free_def live_def fun_upd_idem)

lemma plat_free_block:
  "\<lbrakk>split_ok s; blocks s p = Some b; p \<noteq> NULL\<rbrakk>
   \<Longrightarrow> plat_free p s = Done () (s\<lparr>blocks := (blocks s)(p := None)\<rparr>)"
  using split_ok_block [of s p b] by (simp add: plat_free_def live_def fun_upd_idem)

lemma plat_free_list:
  "\<lbrakk>split_ok s; lists s p = Some L; p \<noteq> NULL\<rbrakk>
   \<Longrightarrow> plat_free p s = Done () (s\<lparr>lists := (lists s)(p := None)\<rparr>)"
  using split_ok_list [of s p L] by (simp add: plat_free_def live_def fun_upd_idem)

lemma plat_free_mutex:
  "\<lbrakk>split_ok s; mutexes s p = Some x; p \<noteq> NULL\<rbrakk>
   \<Longrightarrow> plat_free p s = Done () (s\<lparr>mutexes := (mutexes s)(p := None)\<rparr>)"
  using split_ok_mutex [of s p x] by (simp add: plat_free_def live_def fun_upd_idem)

lemma plat_free_manager:
  "\<lbrakk>split_ok s; managers s p = Some x; p \<noteq> NULL\<rbrakk>
   \<Longrightarrow> plat_free p s = Done () (s\<lparr>managers := (managers s)(p := None)\<rparr>)"
  using split_ok_manager [of s p x] by (simp add: plat_free_def live_def fun_upd_idem)

end
