(* ===== verification/Plat_Threading.thy ===== *)
theory Plat_Threading
  imports Plat_Allocators
begin

text \<open>
  \<open>platform_independent/plat_threading.c\<close>, the Unix branch: a \<open>plat_mutex_t\<close> is a
  non-recursive pthread mutex and the id of the thread that locked it last. A thread that
  finds its own id there skips the lock; the unlock is unconditional. So nested critical
  sections are accepted but not counted: the first unlock releases the mutex.
  \<open>pthread_mutex_lock\<close> on a held mutex is \<open>Blocked\<close>; \<open>pthread_mutex_unlock\<close> on a
  mutex nobody holds leaves it free, and \<open>pthread_mutex_destroy\<close> on a held one does nothing
  (POSIX leaves both open; this is what glibc does for the default kind).
\<close>

section \<open>The operations\<close>

definition plat_getTid :: "tid_t lib" where
  "plat_getTid = gets (\<lambda>s. if cfg_mutex s then current s else 0)"

text \<open>\<open>pthread_mutex_init\<close> takes the environment's next answer; it succeeds by default.\<close>

definition pthread_mutex_init :: "bool lib" where
  "pthread_mutex_init s = (case mutex_init_answers s of
     [] \<Rightarrow> Done True s
   | b # rest \<Rightarrow> Done b (s\<lparr>mutex_init_answers := rest\<rparr>))"

definition plat_mutex_new :: "ptr lib" where
  "plat_mutex_new =
     bnd (gets cfg_mutex) (\<lambda>on.
     bnd (plat_malloc (sizeof_plat_mutex_t on)) (\<lambda>self.
     if self = NULL then ret NULL
     else bnd (zero_mutex_at self) (\<lambda>_.
          if \<not> on then ret self
          else bnd pthread_mutex_init (\<lambda>ok.
               if ok then ret self
               else bnd (plat_free self) (\<lambda>_. ret NULL)))))"

definition plat_mutex_lock :: "ptr \<Rightarrow> unit lib" where
  "plat_mutex_lock self s =
     (if self = NULL then Done () s
      else if \<not> cfg_mutex s then Done () s
      else case mutexes s self of
        None \<Rightarrow> Halt UB s
      | Some mx \<Rightarrow>
          (if current s = mx_locker_tid mx then Done () s
           else if mx_owner mx \<noteq> None then Halt Blocked s
           else Done () (s\<lparr>mutexes := (mutexes s)(self \<mapsto>
                  \<lparr>mx_owner = Some (current s), mx_locker_tid = current s\<rparr>)\<rparr>)))"

definition plat_mutex_unlock :: "ptr \<Rightarrow> unit lib" where
  "plat_mutex_unlock self s =
     (if self = NULL then Done () s
      else if \<not> cfg_mutex s then Done () s
      else case mutexes s self of
        None \<Rightarrow> Halt UB s
      | Some mx \<Rightarrow>
          Done () (s\<lparr>mutexes := (mutexes s)(self \<mapsto> mx\<lparr>mx_owner := None, mx_locker_tid := 0\<rparr>)\<rparr>))"

definition plat_mutex_destroy :: "ptr \<Rightarrow> unit lib" where
  "plat_mutex_destroy self s =
     (if self = NULL then Done () s
      else case mutexes s self of None \<Rightarrow> Halt UB s | Some mx \<Rightarrow> plat_free self s)"

section \<open>Canonical lock states\<close>

text \<open>
  A mutex is \<open>ready\<close> for the current thread when locking it does not block: there is no
  mutex, or mutexes are configured out, or it is free, or the current thread holds it.
  On ready mutexes \<open>lock\<close> and \<open>unlock\<close> are the total state changes \<open>locked\<close> and
  \<open>unlocked\<close>, which absorb each other and commute with every other state change.
\<close>

definition ready :: "ptr \<Rightarrow> machine \<Rightarrow> bool" where
  "ready m s \<longleftrightarrow> m = NULL \<or> \<not> cfg_mutex s \<or>
     (current s \<noteq> 0 \<and> (mutexes s m = Some free_mutex \<or> mutexes s m = Some (held_mutex (current s))))"

definition with_mutex :: "ptr \<Rightarrow> (tid_t \<Rightarrow> plat_mutex_t) \<Rightarrow> machine \<Rightarrow> machine" where
  "with_mutex m f s = (if m = NULL \<or> \<not> cfg_mutex s then s
     else s\<lparr>mutexes := (mutexes s)(m \<mapsto> f (current s))\<rparr>)"

definition locked :: "ptr \<Rightarrow> machine \<Rightarrow> machine" where
  "locked m = with_mutex m held_mutex"

definition unlocked :: "ptr \<Rightarrow> machine \<Rightarrow> machine" where
  "unlocked m = with_mutex m (\<lambda>_. free_mutex)"

lemma plat_mutex_lock_ready: "ready m s \<Longrightarrow> plat_mutex_lock m s = Done () (locked m s)"
  by (auto simp: ready_def plat_mutex_lock_def locked_def with_mutex_def free_mutex_def
      held_mutex_def fun_upd_idem)

lemma plat_mutex_unlock_ready: "ready m s \<Longrightarrow> plat_mutex_unlock m s = Done () (unlocked m s)"
  by (auto simp: ready_def plat_mutex_unlock_def unlocked_def with_mutex_def free_mutex_def
      held_mutex_def)

lemma with_mutex_fields [simp]:
  "nodes (with_mutex m f s) = nodes s" "lists (with_mutex m f s) = lists s"
  "managers (with_mutex m f s) = managers s" "blocks (with_mutex m f s) = blocks s"
  "malloc_answers (with_mutex m f s) = malloc_answers s"
  "mutex_init_answers (with_mutex m f s) = mutex_init_answers s"
  "files (with_mutex m f s) = files s" "io_answers (with_mutex m f s) = io_answers s"
  "current (with_mutex m f s) = current s" "cfg_mutex (with_mutex m f s) = cfg_mutex s"
  "cfg_sanitize (with_mutex m f s) = cfg_sanitize s" "mem_list (with_mutex m f s) = mem_list s"
  "alloc_mutex (with_mutex m f s) = alloc_mutex s"
  "memory_manager (with_mutex m f s) = memory_manager s"
  "doFree (with_mutex m f s) = doFree s" "error_code (with_mutex m f s) = error_code s"
  by (simp_all add: with_mutex_def)

lemma with_mutex_updates [simp]:
  "(with_mutex m f s)\<lparr>nodes := a\<rparr> = with_mutex m f (s\<lparr>nodes := a\<rparr>)"
  "(with_mutex m f s)\<lparr>lists := b\<rparr> = with_mutex m f (s\<lparr>lists := b\<rparr>)"
  "(with_mutex m f s)\<lparr>managers := c\<rparr> = with_mutex m f (s\<lparr>managers := c\<rparr>)"
  "(with_mutex m f s)\<lparr>blocks := d\<rparr> = with_mutex m f (s\<lparr>blocks := d\<rparr>)"
  "(with_mutex m f s)\<lparr>malloc_answers := a1\<rparr> = with_mutex m f (s\<lparr>malloc_answers := a1\<rparr>)"
  "(with_mutex m f s)\<lparr>error_code := a2\<rparr> = with_mutex m f (s\<lparr>error_code := a2\<rparr>)"
  "(with_mutex m f s)\<lparr>doFree := a3\<rparr> = with_mutex m f (s\<lparr>doFree := a3\<rparr>)"
  "(with_mutex m f s)\<lparr>files := a4\<rparr> = with_mutex m f (s\<lparr>files := a4\<rparr>)"
  "(with_mutex m f s)\<lparr>io_answers := a5\<rparr> = with_mutex m f (s\<lparr>io_answers := a5\<rparr>)"
  by (simp_all add: with_mutex_def)

lemma with_mutex_absorb [simp]: "with_mutex m f (with_mutex m g s) = with_mutex m f s"
  by (simp add: with_mutex_def)

lemma with_mutex_commute:
  "m \<noteq> m' \<Longrightarrow> with_mutex m f (with_mutex m' g s) = with_mutex m' g (with_mutex m f s)"
  by (simp add: with_mutex_def fun_upd_twist)

lemma lock_absorb [simp]:
  "locked m (locked m s) = locked m s" "locked m (unlocked m s) = locked m s"
  "unlocked m (locked m s) = unlocked m s" "unlocked m (unlocked m s) = unlocked m s"
  by (simp_all add: locked_def unlocked_def)

lemma lock_fields [simp]:
  "nodes (locked m s) = nodes s" "lists (locked m s) = lists s"
  "managers (locked m s) = managers s" "blocks (locked m s) = blocks s"
  "malloc_answers (locked m s) = malloc_answers s" "files (locked m s) = files s"
  "io_answers (locked m s) = io_answers s" "current (locked m s) = current s"
  "cfg_mutex (locked m s) = cfg_mutex s" "cfg_sanitize (locked m s) = cfg_sanitize s"
  "mem_list (locked m s) = mem_list s" "alloc_mutex (locked m s) = alloc_mutex s"
  "memory_manager (locked m s) = memory_manager s" "doFree (locked m s) = doFree s"
  "error_code (locked m s) = error_code s"
  by (simp_all add: locked_def)

lemma unlock_fields [simp]:
  "nodes (unlocked m s) = nodes s" "lists (unlocked m s) = lists s"
  "managers (unlocked m s) = managers s" "blocks (unlocked m s) = blocks s"
  "malloc_answers (unlocked m s) = malloc_answers s" "files (unlocked m s) = files s"
  "io_answers (unlocked m s) = io_answers s" "current (unlocked m s) = current s"
  "cfg_mutex (unlocked m s) = cfg_mutex s" "cfg_sanitize (unlocked m s) = cfg_sanitize s"
  "mem_list (unlocked m s) = mem_list s" "alloc_mutex (unlocked m s) = alloc_mutex s"
  "memory_manager (unlocked m s) = memory_manager s" "doFree (unlocked m s) = doFree s"
  "error_code (unlocked m s) = error_code s"
  by (simp_all add: unlocked_def)

lemma lock_updates [simp]:
  "(locked m s)\<lparr>nodes := a\<rparr> = locked m (s\<lparr>nodes := a\<rparr>)"
  "(locked m s)\<lparr>lists := b\<rparr> = locked m (s\<lparr>lists := b\<rparr>)"
  "(locked m s)\<lparr>managers := c\<rparr> = locked m (s\<lparr>managers := c\<rparr>)"
  "(locked m s)\<lparr>blocks := d\<rparr> = locked m (s\<lparr>blocks := d\<rparr>)"
  "(locked m s)\<lparr>malloc_answers := a1\<rparr> = locked m (s\<lparr>malloc_answers := a1\<rparr>)"
  "(locked m s)\<lparr>error_code := a2\<rparr> = locked m (s\<lparr>error_code := a2\<rparr>)"
  "(unlocked m s)\<lparr>nodes := a\<rparr> = unlocked m (s\<lparr>nodes := a\<rparr>)"
  "(unlocked m s)\<lparr>lists := b\<rparr> = unlocked m (s\<lparr>lists := b\<rparr>)"
  "(unlocked m s)\<lparr>managers := c\<rparr> = unlocked m (s\<lparr>managers := c\<rparr>)"
  "(unlocked m s)\<lparr>blocks := d\<rparr> = unlocked m (s\<lparr>blocks := d\<rparr>)"
  "(unlocked m s)\<lparr>malloc_answers := a1\<rparr> = unlocked m (s\<lparr>malloc_answers := a1\<rparr>)"
  "(unlocked m s)\<lparr>error_code := a2\<rparr> = unlocked m (s\<lparr>error_code := a2\<rparr>)"
  by (simp_all add: locked_def unlocked_def)

lemma ready_with_mutex:
  "ready m s \<Longrightarrow> ready m (locked m' s)" "ready m s \<Longrightarrow> ready m (unlocked m' s)"
  by (auto simp: ready_def locked_def unlocked_def with_mutex_def)

text \<open>Readiness looks at the mutexes, the thread and the build option only.\<close>

lemma ready_cong:
  "\<lbrakk>ready m s; mutexes s' = mutexes s; current s' = current s; cfg_mutex s' = cfg_mutex s\<rbrakk>
   \<Longrightarrow> ready m s'"
  by (simp add: ready_def)

lemma ready_updates [simp]:
  "ready m (s\<lparr>nodes := a\<rparr>) = ready m s" "ready m (s\<lparr>lists := b\<rparr>) = ready m s"
  "ready m (s\<lparr>managers := c\<rparr>) = ready m s" "ready m (s\<lparr>blocks := d\<rparr>) = ready m s"
  "ready m (s\<lparr>malloc_answers := a1\<rparr>) = ready m s" "ready m (s\<lparr>error_code := a2\<rparr>) = ready m s"
  "ready m (s\<lparr>files := a3\<rparr>) = ready m s" "ready m (s\<lparr>io_answers := a4\<rparr>) = ready m s"
  "ready m (s\<lparr>doFree := a5\<rparr>) = ready m s"
  by (simp_all add: ready_def)

lemma can_place_locks [simp]:
  "ready m s \<Longrightarrow> can_place (locked m s) p n = can_place s p n"
  "ready m s \<Longrightarrow> can_place (unlocked m s) p n = can_place s p n"
  by (auto simp: can_place_def live_def ready_def locked_def unlocked_def with_mutex_def)

lemma split_ok_locks:
  "ready m s \<Longrightarrow> split_ok s \<Longrightarrow> split_ok (locked m s)"
  "ready m s \<Longrightarrow> split_ok s \<Longrightarrow> split_ok (unlocked m s)"
  by (elim split_ok_cong; auto simp: ready_def locked_def unlocked_def with_mutex_def)+

lemma dom_mutexes_locks [simp]:
  "ready m s \<Longrightarrow> dom (mutexes (locked m s)) = dom (mutexes s)"
  "ready m s \<Longrightarrow> dom (mutexes (unlocked m s)) = dom (mutexes s)"
  by (auto simp: ready_def locked_def unlocked_def with_mutex_def)

text \<open>Freeing a list entry in a state reached from a split one by updates in place.\<close>

lemma plat_free_node_of:
  "\<lbrakk>split_ok s; dom (nodes S) \<subseteq> dom (nodes s); dom (lists S) \<subseteq> dom (lists s); managers S = managers s;
    dom (mutexes S) \<subseteq> dom (mutexes s); blocks S = blocks s; nodes S p = Some e; p \<noteq> NULL\<rbrakk>
   \<Longrightarrow> plat_free p S = Done () (S\<lparr>nodes := (nodes S)(p := None)\<rparr>)"
  by (rule plat_free_node) (auto elim!: split_ok_cong)

lemmas run_threading [run] =
  plat_getTid_def pthread_mutex_init_def plat_mutex_new_def plat_mutex_lock_def
  plat_mutex_unlock_def plat_mutex_destroy_def

section \<open>States that differ in their locks only\<close>

text \<open>
  \<open>lockeq s t\<close>: \<open>t\<close> is \<open>s\<close> with other lock states, and whatever was ready is ready.
  \<open>released m s\<close>: no thread has to wait
  for \<open>m\<close>: nobody holds it, or it is not a mutex. \<open>settled A s X t\<close> is how the results of
  the library's calls are stated: the final state \<open>t\<close> of a call made in \<open>s\<close> is \<open>X\<close> up to
  locks, and every mutex outside \<open>A\<close> that was released before the call is released again.
\<close>

definition lockeq :: "machine \<Rightarrow> machine \<Rightarrow> bool" where
  "lockeq s t \<longleftrightarrow> t = s\<lparr>mutexes := mutexes t\<rparr> \<and> dom (mutexes t) = dom (mutexes s) \<and>
     (\<forall>m. ready m s \<longrightarrow> ready m t)"

definition released :: "ptr \<Rightarrow> machine \<Rightarrow> bool" where
  "released m s \<longleftrightarrow> m = NULL \<or> \<not> cfg_mutex s \<or> mutexes s m = None \<or> mutexes s m = Some free_mutex"

definition settled :: "ptr set \<Rightarrow> machine \<Rightarrow> machine \<Rightarrow> machine \<Rightarrow> bool" where
  "settled A s X t \<longleftrightarrow> lockeq X t \<and> (\<forall>m. m \<notin> A \<longrightarrow> released m s \<longrightarrow> released m t)"

lemma lockeqE:
  assumes "lockeq s t"
  obtains mx where "t = s\<lparr>mutexes := mx\<rparr>" "dom mx = dom (mutexes s)"
  using assms unfolding lockeq_def by metis

lemma lockeq_fields:
  assumes "lockeq s t"
  shows "nodes t = nodes s" "lists t = lists s" "managers t = managers s" "blocks t = blocks s"
    "malloc_answers t = malloc_answers s" "files t = files s" "io_answers t = io_answers s"
    "current t = current s" "cfg_mutex t = cfg_mutex s" "cfg_sanitize t = cfg_sanitize s"
    "mem_list t = mem_list s" "alloc_mutex t = alloc_mutex s" "memory_manager t = memory_manager s"
    "doFree t = doFree s" "error_code t = error_code s" "mutex_init_answers t = mutex_init_answers s"
    "dom (mutexes t) = dom (mutexes s)"
  using assms by (elim lockeqE, simp)+

lemma lockeq_ready: "lockeq s t \<Longrightarrow> ready m s \<Longrightarrow> ready m t"
  by (simp add: lockeq_def)

lemma lockeq_refl [simp]: "lockeq s s"
  by (simp add: lockeq_def)

lemma lockeq_trans: "lockeq s t \<Longrightarrow> lockeq t u \<Longrightarrow> lockeq s u"
  by (cases s; cases t; cases u) (simp add: lockeq_def)

lemma lockeq_locks [intro]:
  "lockeq s t \<Longrightarrow> ready m t \<Longrightarrow> lockeq s (locked m t)"
  "lockeq s t \<Longrightarrow> ready m t \<Longrightarrow> lockeq s (unlocked m t)"
proof -
  have "with_mutex m f t = t\<lparr>mutexes := mutexes (with_mutex m f t)\<rparr> \<and>
      dom (mutexes (with_mutex m f t)) = dom (mutexes t)" if "ready m t" for f
  proof (cases "m = NULL \<or> \<not> cfg_mutex t")
    case True
    then show ?thesis by (simp add: with_mutex_def)
  next
    case False
    then have "dom ((mutexes t)(m \<mapsto> f (current t))) = dom (mutexes t)"
      using that by (auto simp: ready_def)
    then show ?thesis using False by (simp add: with_mutex_def)
  qed
  then have "ready m t \<Longrightarrow> lockeq t (locked m t)" "ready m t \<Longrightarrow> lockeq t (unlocked m t)"
    unfolding lockeq_def by (simp_all add: locked_def unlocked_def)
      (simp_all add: ready_with_mutex flip: locked_def unlocked_def)
  then show "lockeq s t \<Longrightarrow> ready m t \<Longrightarrow> lockeq s (locked m t)"
    "lockeq s t \<Longrightarrow> ready m t \<Longrightarrow> lockeq s (unlocked m t)" using lockeq_trans by blast+
qed

lemma lockeq_can_place:
  assumes "lockeq s t"
  shows "can_place t p n = can_place s p n"
proof -
  have "(mutexes t p = None) = (mutexes s p = None)"
    using lockeq_fields(17) [OF assms] by (metis domIff)
  then show ?thesis using assms by (auto simp: can_place_def live_def lockeq_fields)
qed

lemma lockeq_split_ok: "lockeq s t \<Longrightarrow> split_ok s \<Longrightarrow> split_ok t"
  by (erule split_ok_cong) (simp_all add: lockeq_fields)

lemma released_locks [simp]:
  "released m (unlocked m s)"
  "released m s \<Longrightarrow> released m (unlocked m' s)"
  "m \<noteq> m' \<Longrightarrow> released m (locked m' s) = released m s"
  by (auto simp: released_def unlocked_def locked_def with_mutex_def)

lemma released_cong:
  "mutexes t = mutexes s \<Longrightarrow> cfg_mutex t = cfg_mutex s \<Longrightarrow> released m t = released m s"
  by (simp add: released_def)

lemma settled_same:
  "\<lbrakk>mutexes X = mutexes s; cfg_mutex X = cfg_mutex s\<rbrakk> \<Longrightarrow> settled A s X X"
  by (simp add: settled_def released_cong [of X s])

lemma settled_unlocked: "settled (insert m A) s X t \<Longrightarrow> ready m t \<Longrightarrow> settled A s X (unlocked m t)"
  by (auto simp: settled_def) (metis insert_iff released_locks(1,2))

lemma settled_locked: "settled A s X t \<Longrightarrow> ready m t \<Longrightarrow> m \<in> A \<Longrightarrow> settled A s X (locked m t)"
  unfolding settled_def by (metis lockeq_locks(1) released_locks(3))

lemma settled_mono: "settled A s X t \<Longrightarrow> A \<subseteq> B \<Longrightarrow> settled B s X t"
  by (auto simp: settled_def)

lemma settled_trans:
  "\<lbrakk>settled A s X t; settled B t Y u; lockeq Z Y\<rbrakk> \<Longrightarrow> settled (A \<union> B) s Z u"
  by (auto simp: settled_def intro: lockeq_trans)

lemma settled_lockeq: "settled A s X t \<Longrightarrow> lockeq X t"
  by (simp add: settled_def)

text \<open>The same change of anything but the locks, on both sides.\<close>

lemma lockeq_updates:
  assumes "lockeq s t"
  shows "lockeq (s\<lparr>nodes := a\<rparr>) (t\<lparr>nodes := a\<rparr>)" "lockeq (s\<lparr>lists := b\<rparr>) (t\<lparr>lists := b\<rparr>)"
    "lockeq (s\<lparr>managers := c\<rparr>) (t\<lparr>managers := c\<rparr>)" "lockeq (s\<lparr>blocks := d\<rparr>) (t\<lparr>blocks := d\<rparr>)"
    "lockeq (s\<lparr>malloc_answers := e\<rparr>) (t\<lparr>malloc_answers := e\<rparr>)"
    "lockeq (s\<lparr>error_code := f\<rparr>) (t\<lparr>error_code := f\<rparr>)"
  using assms by (cases s; cases t; simp add: lockeq_def ready_def)+

end
