(* ===== verification/List_Entry.thy ===== *)
theory List_Entry
  imports Plat_Threading
begin

text \<open>
  The first half of \<open>linked_list_c.c\<close>: constructor, getters, setters and unlinking of a
  list entry, and the segment predicate that says which addresses form a correctly linked
  stretch of the doubly linked list.
\<close>

section \<open>linked_list_entry_c\<close>

definition linked_list_entry_new :: "ptr \<Rightarrow> ptr \<Rightarrow> size_t \<Rightarrow> tid_t \<Rightarrow> ptr lib" where
  "linked_list_entry_new previous data sz tid =
     bnd (plat_malloc sizeof_linked_list_entry_t) (\<lambda>self.
     if self = NULL then ret NULL
     else
       bnd (zero_node_at self) (\<lambda>_.
       bnd (if previous \<noteq> NULL
            then bnd (upd_node previous (\<lambda>e. e\<lparr>e_next := self\<rparr>)) (\<lambda>_.
                 upd_node self (\<lambda>e. e\<lparr>e_previous := previous\<rparr>))
            else upd_node self (\<lambda>e. e\<lparr>e_previous := NULL\<rparr>)) (\<lambda>_.
       bnd (upd_node self (\<lambda>e. e\<lparr>e_next := NULL\<rparr>)) (\<lambda>_.
       bnd (upd_node self (\<lambda>e. e\<lparr>e_data := data\<rparr>)) (\<lambda>_.
       bnd (upd_node self (\<lambda>e. e\<lparr>e_size := sz\<rparr>)) (\<lambda>_.
       bnd (upd_node self (\<lambda>e. e\<lparr>e_tid := tid\<rparr>)) (\<lambda>_.
       bnd (upd_node self (\<lambda>e. e\<lparr>e_mutex := NULL\<rparr>)) (\<lambda>_.
       ret self))))))))"

text \<open>A getter: the default for a null entry, the field otherwise.\<close>

definition entry_get :: "'a \<Rightarrow> (linked_list_entry_t \<Rightarrow> 'a) \<Rightarrow> ptr \<Rightarrow> 'a lib" where
  "entry_get dflt field self =
     (if self = NULL then ret dflt else bnd (load_node self) (\<lambda>e. ret (field e)))"

text \<open>A setter: nothing for a null entry; the field is written under the entry's mutex.\<close>

definition entry_set ::
    "(linked_list_entry_t \<Rightarrow> linked_list_entry_t) \<Rightarrow> ptr \<Rightarrow> unit lib" where
  "entry_set upd self =
     (if self = NULL then ret ()
      else bnd (load_node self) (\<lambda>e.
           bnd (plat_mutex_lock (e_mutex e)) (\<lambda>_.
           bnd (upd_node self upd) (\<lambda>_.
           bnd (load_node self) (\<lambda>e'.
           plat_mutex_unlock (e_mutex e'))))))"

definition linked_list_entry_getPreviousEntry :: "ptr \<Rightarrow> ptr lib" where
  "linked_list_entry_getPreviousEntry = entry_get NULL e_previous"

definition linked_list_entry_setPreviousEntry :: "ptr \<Rightarrow> ptr \<Rightarrow> unit lib" where
  "linked_list_entry_setPreviousEntry self q = entry_set (\<lambda>e. e\<lparr>e_previous := q\<rparr>) self"

definition linked_list_entry_getData :: "ptr \<Rightarrow> ptr lib" where
  "linked_list_entry_getData = entry_get NULL e_data"

definition linked_list_entry_setData :: "ptr \<Rightarrow> ptr \<Rightarrow> unit lib" where
  "linked_list_entry_setData self d = entry_set (\<lambda>e. e\<lparr>e_data := d\<rparr>) self"

definition linked_list_entry_getSize :: "ptr \<Rightarrow> size_t lib" where
  "linked_list_entry_getSize = entry_get 0 e_size"

definition linked_list_entry_setSize :: "ptr \<Rightarrow> size_t \<Rightarrow> unit lib" where
  "linked_list_entry_setSize self n = entry_set (\<lambda>e. e\<lparr>e_size := n\<rparr>) self"

definition linked_list_entry_getTid :: "ptr \<Rightarrow> tid_t lib" where
  "linked_list_entry_getTid = entry_get 0 e_tid"

definition linked_list_entry_setTid :: "ptr \<Rightarrow> tid_t \<Rightarrow> unit lib" where
  "linked_list_entry_setTid self t = entry_set (\<lambda>e. e\<lparr>e_tid := t\<rparr>) self"

definition linked_list_entry_getBlockId :: "ptr \<Rightarrow> block_id_t lib" where
  "linked_list_entry_getBlockId = entry_get 0 e_block_id"

definition linked_list_entry_setBlockId :: "ptr \<Rightarrow> block_id_t \<Rightarrow> unit lib" where
  "linked_list_entry_setBlockId self i = entry_set (\<lambda>e. e\<lparr>e_block_id := i\<rparr>) self"

definition linked_list_entry_getNextEntry :: "ptr \<Rightarrow> ptr lib" where
  "linked_list_entry_getNextEntry = entry_get NULL e_next"

definition linked_list_entry_setNextEntry :: "ptr \<Rightarrow> ptr \<Rightarrow> unit lib" where
  "linked_list_entry_setNextEntry self q = entry_set (\<lambda>e. e\<lparr>e_next := q\<rparr>) self"

text \<open>The weight getter has no null check.\<close>

definition linked_list_entry_pri_getWeight :: "ptr \<Rightarrow> byte lib" where
  "linked_list_entry_pri_getWeight self = bnd (load_node self) (\<lambda>e. ret (e_weight e))"

definition linked_list_entry_pri_setWeight :: "ptr \<Rightarrow> byte \<Rightarrow> unit lib" where
  "linked_list_entry_pri_setWeight self w = entry_set (\<lambda>e. e\<lparr>e_weight := w\<rparr>) self"

definition linked_list_entry_destroy :: "ptr \<Rightarrow> unit lib" where
  "linked_list_entry_destroy self = (if self = NULL then ret () else plat_free self)"

definition linked_list_entry_pri_isHead :: "ptr \<Rightarrow> bool lib" where
  "linked_list_entry_pri_isHead self = bnd (load_node self) (\<lambda>e. ret (e_isHead e))"

definition linked_list_entry_pri_reweave :: "ptr \<Rightarrow> unit lib" where
  "linked_list_entry_pri_reweave entry =
     (if entry = NULL then ret ()
      else
        bnd (load_node entry) (\<lambda>e.
        bnd (if_do (e_next e \<noteq> NULL)
               (upd_node (e_next e) (\<lambda>x. x\<lparr>e_previous := e_previous e\<rparr>))) (\<lambda>_.
        bnd (load_node entry) (\<lambda>e.
        bnd (if_do (e_previous e \<noteq> NULL)
               (upd_node (e_previous e) (\<lambda>x. x\<lparr>e_next := e_next e\<rparr>))) (\<lambda>_.
        bnd (upd_node entry (\<lambda>x. x\<lparr>e_next := NULL\<rparr>)) (\<lambda>_.
        upd_node entry (\<lambda>x. x\<lparr>e_previous := NULL\<rparr>)))))))"

text \<open>The guard \<open>*cwei <= UINT8_MAX\<close> holds for every byte, so the increment can wrap.\<close>

definition linked_list_entry_pri_weight_increase :: "ptr \<Rightarrow> unit lib" where
  "linked_list_entry_pri_weight_increase self =
     bnd (load_node self) (\<lambda>e.
     bnd (plat_mutex_lock (e_mutex e)) (\<lambda>_.
     bnd (load_node self) (\<lambda>e.
     bnd (if_do (e_weight e \<le> 255) (upd_node self (\<lambda>x. x\<lparr>e_weight := e_weight x + 1\<rparr>))) (\<lambda>_.
     bnd (load_node self) (\<lambda>e.
     plat_mutex_unlock (e_mutex e))))))"

section \<open>Linked segments\<close>

text \<open>
  \<open>seg h prv ps nxt\<close>: the addresses \<open>ps\<close> hold entries of the heap \<open>h\<close>, each linked back
  to the one before (the first to \<open>prv\<close>) and forward to the one after (the last to \<open>nxt\<close>).
\<close>

primrec seg :: "(ptr \<rightharpoonup> linked_list_entry_t) \<Rightarrow> ptr \<Rightarrow> ptr list \<Rightarrow> ptr \<Rightarrow> bool" where
  "seg h prv [] nxt \<longleftrightarrow> True"
| "seg h prv (p # ps) nxt \<longleftrightarrow>
     (\<exists>e. h p = Some e \<and> e_previous e = prv \<and> e_next e = hd_or nxt ps) \<and> seg h p ps nxt"

lemma seg_append:
  "seg h prv (ps @ qs) nxt \<longleftrightarrow> seg h prv ps (hd_or nxt qs) \<and> seg h (last_or prv ps) qs nxt"
  by (induction ps arbitrary: prv) (auto simp: hd_or_append)

lemma seg_notin [simp]: "p \<notin> set ps \<Longrightarrow> seg (h(p := v)) prv ps nxt = seg h prv ps nxt"
  by (induction ps arbitrary: prv) auto

lemma seg_same_links:
  "\<lbrakk>h p = Some e; e_previous e' = e_previous e; e_next e' = e_next e\<rbrakk>
   \<Longrightarrow> seg (h(p \<mapsto> e')) prv ps nxt = seg h prv ps nxt"
  by (induction ps arbitrary: prv) auto

lemma seg_dom: "seg h prv ps nxt \<Longrightarrow> set ps \<subseteq> dom h"
  by (induction ps arbitrary: prv) auto

lemma seg_agree:
  "\<lbrakk>\<And>p. p \<in> set ps \<Longrightarrow> h p = h' p; seg h prv ps nxt\<rbrakk> \<Longrightarrow> seg h' prv ps nxt"
  by (induction ps arbitrary: prv) auto

text \<open>Links up to the fields that are not links: the same \<open>previous\<close> and \<open>next\<close> everywhere.\<close>

lemma seg_cong_links:
  "\<lbrakk>\<And>p. p \<in> set ps \<Longrightarrow> map_option (\<lambda>e. (e_previous e, e_next e)) (h' p)
        = map_option (\<lambda>e. (e_previous e, e_next e)) (h p);
    seg h prv ps nxt\<rbrakk> \<Longrightarrow> seg h' prv ps nxt"
proof (induction ps arbitrary: prv)
  case (Cons p ps)
  from Cons.prems(2) obtain e where e: "h p = Some e" "e_previous e = prv" "e_next e = hd_or nxt ps"
    and rest: "seg h p ps nxt" by auto
  from Cons.prems(1)[of p] e(1) obtain e' where
    "h' p = Some e'" "e_previous e' = e_previous e" "e_next e' = e_next e" by auto
  moreover have "seg h' p ps nxt" using Cons.IH Cons.prems(1) rest by simp
  ultimately show ?case using e by simp
qed simp

text \<open>Changing the link of the last entry of a segment, or of the entry before it.\<close>

lemma seg_relink_next:
  "\<lbrakk>seg h prv (ps @ [p]) nxt; p \<notin> set ps; h p = Some e\<rbrakk>
   \<Longrightarrow> seg (h(p \<mapsto> e\<lparr>e_next := q\<rparr>)) prv (ps @ [p]) q"
  by (simp add: seg_append)

lemma seg_relink_previous:
  "\<lbrakk>seg h prv (p # ps) nxt; p \<notin> set ps; h p = Some e\<rbrakk>
   \<Longrightarrow> seg (h(p \<mapsto> e\<lparr>e_previous := q\<rparr>)) q (p # ps) nxt"
  by simp

section \<open>What the entry operations do\<close>

lemma entry_get_Some [simp]: "nodes s p = Some e \<Longrightarrow> p \<noteq> NULL \<Longrightarrow> entry_get d f p s = Done (f e) s"
  by (simp add: entry_get_def ret_def)

lemma entry_set_Some:
  assumes "nodes s p = Some e" "p \<noteq> NULL" "ready (e_mutex e) s" "e_mutex (f e) = e_mutex e"
  shows "entry_set f p s = Done () (unlocked (e_mutex e) (s\<lparr>nodes := (nodes s)(p \<mapsto> f e)\<rparr>))"
  using assms
  by (simp add: entry_set_def plat_mutex_lock_ready plat_mutex_unlock_ready ready_with_mutex)

text \<open>The bytes of a struct just allocated are private: the new entry is linked behind
  \<open>previous\<close>, which must be live if it is not null.\<close>

definition new_entry :: "ptr \<Rightarrow> ptr \<Rightarrow> size_t \<Rightarrow> tid_t \<Rightarrow> linked_list_entry_t" where
  "new_entry previous data sz tid =
     zero_entry\<lparr>e_previous := previous, e_data := data, e_size := sz, e_tid := tid\<rparr>"

lemma can_place_node: "can_place s p n \<Longrightarrow> nodes s p = None \<and> blocks s p = None"
  by (simp add: can_place_def live_def)

lemma linked_list_entry_new_ok:
  assumes answer: "malloc_answers s = (p, junk) # rest"
    and place: "can_place s p sizeof_linked_list_entry_t"
    and prev: "previous \<noteq> NULL \<Longrightarrow> nodes s previous = Some e"
  shows "linked_list_entry_new previous data sz tid s =
    Done p (s\<lparr>malloc_answers := rest,
              nodes := (if previous = NULL then nodes s else (nodes s)(previous \<mapsto> e\<lparr>e_next := p\<rparr>))
                         (p \<mapsto> new_entry previous data sz tid)\<rparr>)"
proof -
  have p: "p \<noteq> NULL" "nodes s p = None" "blocks s p = None"
    using place by (simp_all add: can_place_def live_def)
  then have "previous \<noteq> NULL \<Longrightarrow> p \<noteq> previous" using prev by auto
  with p answer place prev show ?thesis
    by (auto simp: linked_list_entry_new_def plat_malloc_def zero_node_at_def drop_block_def
        new_entry_def ret_def zero_entry_def fun_upd_idem fun_upd_twist)
qed

lemmas run_entry [run] =
  linked_list_entry_new_def entry_get_def entry_set_def linked_list_entry_getPreviousEntry_def
  linked_list_entry_setPreviousEntry_def linked_list_entry_getData_def linked_list_entry_setData_def
  linked_list_entry_getSize_def linked_list_entry_setSize_def linked_list_entry_getTid_def
  linked_list_entry_setTid_def linked_list_entry_getBlockId_def linked_list_entry_setBlockId_def
  linked_list_entry_getNextEntry_def linked_list_entry_setNextEntry_def
  linked_list_entry_pri_getWeight_def linked_list_entry_pri_setWeight_def
  linked_list_entry_destroy_def linked_list_entry_pri_isHead_def

end
