(* ===== verification/List_Walk.thy ===== *)
theory List_Walk
  imports List_Entry
begin

text \<open>
  \<open>linked_list_forEach\<close>: the traversal every search and every sweep of the library is an
  instance of. The callback's \<open>generic_arg\<close> points to an object of the caller; the model
  passes that object by value and result. The loop counts its iterations in the \<open>size_t\<close>
  it also passes to the callback; since a list cannot have as many entries as that counter
  has values, a walk that exhausts the counter goes round a cycle and is \<open>Endless\<close>.
\<close>

type_synonym 'g worker = "ptr \<Rightarrow> ptr \<Rightarrow> size_t \<Rightarrow> 'g \<Rightarrow> (ptr \<times> 'g) lib"

section \<open>The loop\<close>

text \<open>One iteration: the successor is read before the callback runs, and the list's mutex
  is taken again after it.\<close>

definition walk_step :: "'g worker \<Rightarrow> ptr \<Rightarrow> ptr \<Rightarrow> size_t \<Rightarrow> 'g \<Rightarrow> (ptr \<times> ptr \<times> 'g) lib" where
  "walk_step worker self entry i g =
     bnd (load_node entry) (\<lambda>e.
     bnd (worker self entry i g) (\<lambda>(temp, g').
     bnd (load_list self) (\<lambda>L.
     bnd (plat_mutex_lock (l_mutex L)) (\<lambda>_.
     ret (e_next e, temp, g')))))"

definition list_unlock :: "ptr \<Rightarrow> unit lib" where
  "list_unlock self = bnd (load_list self) (\<lambda>L. plat_mutex_unlock (l_mutex L))"

definition list_lock :: "ptr \<Rightarrow> unit lib" where
  "list_lock self = bnd (load_list self) (\<lambda>L. plat_mutex_lock (l_mutex L))"

function walk :: "'g worker \<Rightarrow> ptr \<Rightarrow> ptr \<Rightarrow> size_t \<Rightarrow> 'g \<Rightarrow> (ptr \<times> 'g) lib" where
  "walk worker self entry i g s =
     (if entry = NULL then bnd (list_unlock self) (\<lambda>_. ret (NULL, g)) s
      else if i = - 1 then Halt Endless s
      else case walk_step worker self entry i g s of
        Halt h s' \<Rightarrow> Halt h s'
      | Done (nxt, temp, g') s' \<Rightarrow>
          (if temp \<noteq> NULL
           then bnd (list_unlock self) (\<lambda>_.
                ret (if temp = LIST_FOR_EACH_LOOP_BRAKE then NULL else temp, g')) s'
           else walk worker self nxt (i + 1) g' s'))"
  by pat_completeness auto
termination
proof (relation "measure (\<lambda>(_, _, _, i, _, _). 2 ^ 64 - unat i)")
  show "wf (measure (\<lambda>(_, _, _, i :: size_t, _, _). 2 ^ 64 - unat i))" by simp
next
  fix worker :: "'g worker" and self entry :: ptr and i :: size_t and g s x1 a b ba s'
  assume "i \<noteq> - 1"
  then have "unat (i + 1) = Suc (unat i)" by (rule unat_Suc_word)
  moreover have "unat i < 2 ^ 64" using unsigned_less [of i] by simp
  ultimately show "((worker, self, a, i + 1, ba, s'), (worker, self, entry, i, g, s))
      \<in> measure (\<lambda>(_, _, _, i, _, _). 2 ^ 64 - unat i)" by simp
qed

declare walk.simps [simp del]

definition linked_list_forEach :: "ptr \<Rightarrow> 'g worker \<Rightarrow> 'g \<Rightarrow> (ptr \<times> 'g) lib" where
  "linked_list_forEach self worker g =
     (if self = NULL then ret (NULL, g)
      else
        bnd (load_list self) (\<lambda>L.
        if l_len L = 0 then ret (NULL, g)
        else
          bnd (list_lock self) (\<lambda>_.
          bnd (linked_list_entry_pri_isHead (l_firstEntry L)) (\<lambda>head.
          if head then ret (NULL, g)
          else walk worker self (l_firstEntry L) 0 g))))"

lemma walk_NULL: "walk worker self NULL i g s = bnd (list_unlock self) (\<lambda>_. ret (NULL, g)) s"
  by (simp add: walk.simps)

section \<open>Well-formed lists\<close>

text \<open>
  \<open>list_ok s l L ns\<close>: at \<open>l\<close> lives the list object \<open>L\<close>, and its entries in order are at
  the addresses \<open>ns\<close>: the dummy head followed by \<open>ns\<close> is a linked segment from null to
  null, \<open>firstEntry\<close> and \<open>lastEntry\<close> point at its ends (at the head when there are no
  entries), only the head is marked as head, every entry carries the list's mutex, no entry
  sits at the sentinel address, and \<open>len\<close> is at least the number of entries (removal
  from the middle does not decrease it).
\<close>

definition list_ok :: "machine \<Rightarrow> ptr \<Rightarrow> linked_list_t \<Rightarrow> ptr list \<Rightarrow> bool" where
  "list_ok s l L ns \<longleftrightarrow>
     l \<noteq> NULL \<and> lists s l = Some L \<and>
     seg (nodes s) NULL (l_head L # ns) NULL \<and> distinct (NULL # l_head L # ns) \<and>
     (\<forall>e. nodes s (l_head L) = Some e \<longrightarrow> e_isHead e) \<and>
     (\<forall>p \<in> set ns. \<forall>e. nodes s p = Some e \<longrightarrow> \<not> e_isHead e \<and> e_mutex e = l_mutex L) \<and>
     LIST_FOR_EACH_LOOP_BRAKE \<notin> set ns \<and>
     l_firstEntry L = hd_or (l_head L) ns \<and> l_lastEntry L = last_or (l_head L) ns \<and>
     length ns \<le> unat (l_len L)"

lemma list_okD:
  assumes "list_ok s l L ns"
  shows "l \<noteq> NULL" "lists s l = Some L" "seg (nodes s) NULL (l_head L # ns) NULL"
    "distinct ns" "NULL \<notin> set ns" "l_head L \<notin> set ns" "l_head L \<noteq> NULL"
    "LIST_FOR_EACH_LOOP_BRAKE \<notin> set ns"
    "l_firstEntry L = hd_or (l_head L) ns" "l_lastEntry L = last_or (l_head L) ns"
    "length ns \<le> unat (l_len L)"
  using assms by (auto simp: list_ok_def)

lemma list_ok_node:
  assumes "list_ok s l L ns" "p \<in> set ns"
  shows "\<exists>e. nodes s p = Some e \<and> \<not> e_isHead e \<and> e_mutex e = l_mutex L"
proof -
  have "p \<in> dom (nodes s)"
    using seg_dom [OF list_okD(3) [OF assms(1)]] assms(2) by auto
  then show ?thesis using assms by (auto simp: list_ok_def)
qed

lemma list_ok_head:
  assumes "list_ok s l L ns"
  shows "\<exists>e. nodes s (l_head L) = Some e \<and> e_isHead e"
proof -
  have "l_head L \<in> dom (nodes s)"
    using seg_dom [OF list_okD(3) [OF assms]] by auto
  then show ?thesis using assms by (auto simp: list_ok_def)
qed

lemma list_ok_cong:
  "\<lbrakk>list_ok s l L ns; lists s' = lists s; nodes s' = nodes s\<rbrakk> \<Longrightarrow> list_ok s' l L ns"
  by (simp add: list_ok_def)

lemma list_ok_locks [simp]:
  "list_ok (locked m s) l L ns = list_ok s l L ns"
  "list_ok (unlocked m s) l L ns = list_ok s l L ns"
  by (simp_all add: list_ok_def)

lemma list_ok_length: "list_ok s l L ns \<Longrightarrow> length ns + 2 \<le> 2 ^ 64"
  using length_distinct_ptrs [of "NULL # l_head L # ns"] by (simp add: list_ok_def)

lemma list_ok_len_pos: "list_ok s l L (p # ps) \<Longrightarrow> l_len L \<noteq> 0"
  by (auto simp: list_ok_def)

text \<open>
  Changing an entry without touching its links, its head mark or its mutex keeps the list.
\<close>

lemma list_ok_upd_node:
  assumes "list_ok s l L ns" "nodes s p = Some e"
    and "e_previous e' = e_previous e" "e_next e' = e_next e"
    and "e_isHead e' = e_isHead e" "e_mutex e' = e_mutex e"
  shows "list_ok (s\<lparr>nodes := (nodes s)(p \<mapsto> e')\<rparr>) l L ns"
  using assms by (auto simp: list_ok_def seg_same_links simp del: seg.simps)

text \<open>Bookkeeping fields of the list object the links do not depend on.\<close>

lemma list_ok_lastAccess:
  "list_ok s l L ns \<Longrightarrow>
   list_ok (s\<lparr>lists := (lists s)(l \<mapsto> L\<lparr>l_lastAccess := a\<rparr>)\<rparr>) l (L\<lparr>l_lastAccess := a\<rparr>) ns"
  by (simp add: list_ok_def)

lemma list_unlock_ok:
  "lists s l = Some L \<Longrightarrow> ready (l_mutex L) s \<Longrightarrow> list_unlock l s = Done () (unlocked (l_mutex L) s)"
  by (simp add: list_unlock_def plat_mutex_unlock_ready)

lemma list_lock_ok:
  "lists s l = Some L \<Longrightarrow> ready (l_mutex L) s \<Longrightarrow> list_lock l s = Done () (locked (l_mutex L) s)"
  by (simp add: list_lock_def plat_mutex_lock_ready)

section \<open>The traversal contract\<close>

text \<open>
  What \<open>linked_list_forEach\<close> expects of a callback that visits every entry: an invariant
  \<open>I rest i g s\<close>, over the entries still to come, the counter, the caller's object and
  the machine, that gives the next entry and its successor and is kept by one call. The
  callback may change or free the entry it is given, and change what lies behind the
  walk, but must leave the rest of the chain and the list object alone.
\<close>

locale visitor =
  fixes worker :: "'g worker" and l m :: ptr
    and I :: "ptr list \<Rightarrow> size_t \<Rightarrow> 'g \<Rightarrow> machine \<Rightarrow> bool"
  assumes at_node: "I (p # rest) i g s \<Longrightarrow>
      p \<noteq> NULL \<and> (\<exists>e. nodes s p = Some e \<and> e_next e = hd_or NULL rest)"
    and visit: "I (p # rest) i g s \<Longrightarrow> runs (worker l p i g) s
      (\<lambda>(t, g') s'. t = NULL \<and> ready m s' \<and> (\<exists>L. lists s' l = Some L \<and> l_mutex L = m) \<and>
         I rest (i + 1) g' (locked m s'))"
    and at_end: "I [] i g s \<Longrightarrow> ready m s \<and> (\<exists>L. lists s l = Some L \<and> l_mutex L = m)"
begin

lemma walk_visits:
  "\<lbrakk>I rest i g s; unat i + length rest < 2 ^ 64\<rbrakk> \<Longrightarrow>
   runs (walk worker l (hd_or NULL rest) i g) s
     (\<lambda>(r, g') s'. r = NULL \<and> (\<exists>t. s' = unlocked m t \<and> I [] (i + of_nat (length rest)) g' t))"
proof (induction rest arbitrary: i g s)
  case Nil
  then obtain L where "ready m s" "lists s l = Some L" "l_mutex L = m" using at_end by blast
  then have "walk worker l NULL i g s = Done (NULL, g) (unlocked m s)"
    by (simp add: walk_NULL list_unlock_ok ret_def)
  with Nil.prems(1) show ?case by (auto simp: runs_def)
next
  case (Cons p rest)
  from Cons.prems(1) obtain e where p: "p \<noteq> NULL" "nodes s p = Some e" "e_next e = hd_or NULL rest"
    using at_node by blast
  from visit [OF Cons.prems(1)] obtain g' s' L where w: "worker l p i g s = Done (NULL, g') s'"
    and r: "ready m s'" "lists s' l = Some L" "l_mutex L = m" and I': "I rest (i + 1) g' (locked m s')"
    by (auto simp: runs_def)
  have i: "i \<noteq> - 1" using counter_not_max [of i "Suc (length rest)"] Cons.prems(2) by simp
  have "walk_step worker l p i g s = Done (hd_or NULL rest, NULL, g') (locked m s')"
    using p w r by (simp add: walk_step_def plat_mutex_lock_ready ret_def)
  then have "walk worker l p i g s = walk worker l (hd_or NULL rest) (i + 1) g' (locked m s')"
    using p(1) i by (simp add: walk.simps [of worker l p])
  moreover have "unat (i + 1) + length rest < 2 ^ 64"
    using Cons.prems(2) unat_Suc_word [OF i] by simp
  ultimately show ?case using Cons.IH [OF I'] by (simp add: runs_def algebra_simps)
qed

end

text \<open>A whole \<open>forEach\<close> over a non-empty list, when the invariant holds once it is locked.\<close>

context visitor
begin

lemma forEach_visits:
  assumes "list_ok s l L ns" "ns \<noteq> []" "l_mutex L = m" "ready m s" "I ns 0 g (locked m s)"
  shows "runs (linked_list_forEach l worker g) s
     (\<lambda>(r, g') s'. r = NULL \<and> (\<exists>t. s' = unlocked m t \<and> I [] (of_nat (length ns)) g' t))"
proof -
  from assms(2) obtain p ps where ns: "ns = p # ps" by (cases ns) auto
  from list_ok_node [OF assms(1), of p] ns obtain e where e: "nodes s p = Some e" "\<not> e_isHead e" by auto
  have "linked_list_forEach l worker g s = walk worker l (hd_or NULL ns) 0 g (locked m s)"
    using assms(1,3,4) ns e list_ok_len_pos [of s l L p ps]
    by (simp add: linked_list_forEach_def list_okD list_lock_ok linked_list_entry_pri_isHead_def
        list_okD(9) [OF assms(1)])
  moreover have "unat (0 :: size_t) + length ns < 2 ^ 64" using list_ok_length [OF assms(1)] by simp
  ultimately show ?thesis using walk_visits [OF assms(5)] by (simp add: runs_def)
qed

end

text \<open>The state of the list's mutex after a traversal of a list with the entries \<open>ns\<close>.\<close>

definition after_walk :: "linked_list_t \<Rightarrow> ptr list \<Rightarrow> machine \<Rightarrow> machine" where
  "after_walk L ns s = (if ns \<noteq> [] then unlocked (l_mutex L) s
     else if l_len L = 0 then s else locked (l_mutex L) s)"

text \<open>The two ways \<open>forEach\<close> sees an empty list: with \<open>len\<close> 0 it does nothing; with a
  \<open>len\<close> that is out of date it takes the mutex and returns without releasing it.\<close>

lemma forEach_empty:
  assumes "list_ok s l L []" "ready (l_mutex L) s"
  shows "linked_list_forEach l worker g s =
    Done (NULL, g) (after_walk L [] s)"
proof -
  from list_ok_head [OF assms(1)] obtain e where "nodes s (l_head L) = Some e" "e_isHead e" by blast
  with assms show ?thesis
    by (simp add: linked_list_forEach_def list_okD list_lock_ok linked_list_entry_pri_isHead_def ret_def
        after_walk_def)
qed

text \<open>The mutexes a traversal leaves taken.\<close>

definition leaks :: "linked_list_t \<Rightarrow> ptr list \<Rightarrow> ptr set" where
  "leaks L ns = (if ns = [] \<and> l_len L \<noteq> 0 then {l_mutex L} else {})"

lemma settled_after_walk:
  assumes "settled A s X t" "ready (l_mutex L) t"
  shows "settled (A \<union> leaks L ns) s X (after_walk L ns t)"
proof -
  have "settled (insert (l_mutex L) A) s X t" using assms(1) by (rule settled_mono) blast
  then have "settled A s X (unlocked (l_mutex L) t)" "settled (insert (l_mutex L) A) s X (locked (l_mutex L) t)"
    using assms(2) by (auto intro: settled_unlocked settled_locked)
  then show ?thesis using assms(1) by (auto simp: after_walk_def leaks_def)
qed

section \<open>The search contract\<close>

text \<open>
  A search callback returns the entry it is given when it matches and null otherwise, and
  changes nothing. \<open>find_from\<close> is what the traversal then computes: the first match.
\<close>

primrec find_from :: "(size_t \<Rightarrow> linked_list_entry_t \<Rightarrow> bool) \<Rightarrow> (ptr \<rightharpoonup> linked_list_entry_t)
    \<Rightarrow> size_t \<Rightarrow> ptr list \<Rightarrow> ptr" where
  "find_from hit h i [] = NULL"
| "find_from hit h i (p # ps) = (if hit i (the (h p)) then p else find_from hit h (i + 1) ps)"

lemma find_from_in: "find_from hit h i ps \<noteq> NULL \<Longrightarrow> find_from hit h i ps \<in> set ps"
  by (induction ps arbitrary: i) auto

locale searcher =
  fixes worker :: "'g worker" and hit :: "'g \<Rightarrow> size_t \<Rightarrow> linked_list_entry_t \<Rightarrow> bool"
  assumes worker_eq: "\<lbrakk>nodes s p = Some e; p \<noteq> NULL\<rbrakk> \<Longrightarrow>
      worker l p i g s = Done (if hit g i e then p else NULL, g) s"
begin

lemma walk_searches:
  assumes "lists s l = Some L" "ready (l_mutex L) s"
  shows "\<lbrakk>seg (nodes s) prv rest NULL; NULL \<notin> set rest; LIST_FOR_EACH_LOOP_BRAKE \<notin> set rest;
      unat i + length rest < 2 ^ 64; s = locked (l_mutex L) s\<rbrakk> \<Longrightarrow>
    walk worker l (hd_or NULL rest) i g s =
      Done (find_from (hit g) (nodes s) i rest, g) (unlocked (l_mutex L) s)"
proof (induction rest arbitrary: i prv)
  case Nil
  with assms show ?case by (simp add: walk_NULL list_unlock_ok ret_def)
next
  case (Cons p rest)
  from Cons.prems obtain e where p: "p \<noteq> NULL" "nodes s p = Some e" "e_next e = hd_or NULL rest"
    and seg: "seg (nodes s) p rest NULL" by auto
  have i: "i \<noteq> - 1" using counter_not_max [of i "Suc (length rest)"] Cons.prems(4) by simp
  have step: "walk_step worker l p i g s =
      Done (hd_or NULL rest, if hit g i e then p else NULL, g) s"
    using p assms Cons.prems(5) worker_eq [OF p(2,1)]
    by (simp add: walk_step_def plat_mutex_lock_ready ret_def)
  show ?case
  proof (cases "hit g i e")
    case True
    then show ?thesis using p i step assms Cons.prems(3)
      by (auto simp: walk.simps [of worker l p] list_unlock_ok ret_def)
  next
    case False
    have "unat (i + 1) + length rest < 2 ^ 64"
      using Cons.prems(4) unat_Suc_word [OF i] by simp
    then show ?thesis using False p i step Cons.IH [OF seg] Cons.prems
      by (simp add: walk.simps [of worker l p])
  qed
qed

lemma forEach_finds:
  assumes "list_ok s l L ns" "ready (l_mutex L) s"
  shows "linked_list_forEach l worker g s =
    Done (find_from (hit g) (nodes s) 0 ns, g)
      (after_walk L ns s)"
proof (cases ns)
  case Nil
  with assms show ?thesis by (simp add: forEach_empty after_walk_def)
next
  case (Cons p ps)
  note ok = list_okD [OF assms(1)]
  from list_ok_node [OF assms(1), of p] Cons obtain e where e: "nodes s p = Some e" "\<not> e_isHead e" by auto
  have "linked_list_forEach l worker g s = walk worker l (hd_or NULL ns) 0 g (locked (l_mutex L) s)"
    using assms Cons e ok list_ok_len_pos [of s l L p ps]
    by (simp add: linked_list_forEach_def list_lock_ok linked_list_entry_pri_isHead_def)
  also have "\<dots> = Done (find_from (hit g) (nodes s) 0 ns, g) (unlocked (l_mutex L) s)"
    using walk_searches [of "locked (l_mutex L) s" l L "l_head L" ns 0 g] ok assms(2)
      list_ok_length [OF assms(1)] ready_with_mutex [OF assms(2)]
    by (simp del: seg.simps) (simp)
  finally show ?thesis using Cons by (simp add: after_walk_def)
qed

end

lemmas run_walk [run] =
  walk.simps walk_step_def list_unlock_def list_lock_def linked_list_forEach_def

end
