(* ===== verification/SN_Error.thy ===== *)
theory SN_Error
  imports List_Walk
begin

text \<open>
  \<open>sn_error.c\<close>: the error codes of \<open>libsafetynet.h\<close>, the two tables that name and explain
  them, and the last-error cell every failing call writes.
\<close>

section \<open>Error codes\<close>

datatype sn_error_codes_e =
  SN_ERR_OK
  | SN_ERR_NULL_PTR
  | SN_ERR_NO_SIZE
  | SN_ERR_BAD_SIZE
  | SN_ERR_BAD_ALLOC
  | SN_ERR_NO_ADDER_FOUND
  | SN_ERR_NO_TID_FOUND
  | SN_ERR_BAD_BLOCK_ID
  | SN_ERR_FILE_PRE_EXIST
  | SN_ERR_FILE_IO
  | SN_ERR_FILE_NOT_EXIST
  | SN_ERR_ALLOC_LIMIT_HIT
  | SN_WARN_DUB_FREE
  | SN_ERR_SYS_FAIL
  | SN_ERR_CATASTROPHIC
  | SN_ERR_DEBUG
  | SN_INFO_PLACEHOLDER

primrec err_code :: "sn_error_codes_e \<Rightarrow> err_t" where
  "err_code SN_ERR_OK = 0"
| "err_code SN_ERR_NULL_PTR = 5"
| "err_code SN_ERR_NO_SIZE = 10"
| "err_code SN_ERR_BAD_SIZE = 15"
| "err_code SN_ERR_BAD_ALLOC = 20"
| "err_code SN_ERR_NO_ADDER_FOUND = 30"
| "err_code SN_ERR_NO_TID_FOUND = 40"
| "err_code SN_ERR_BAD_BLOCK_ID = 50"
| "err_code SN_ERR_FILE_PRE_EXIST = 60"
| "err_code SN_ERR_FILE_IO = 70"
| "err_code SN_ERR_FILE_NOT_EXIST = 110"
| "err_code SN_ERR_ALLOC_LIMIT_HIT = 120"
| "err_code SN_WARN_DUB_FREE = 180"
| "err_code SN_ERR_SYS_FAIL = 185"
| "err_code SN_ERR_CATASTROPHIC = 187"
| "err_code SN_ERR_DEBUG = 180"
| "err_code SN_INFO_PLACEHOLDER = 190"

text \<open>
  The tables are arrays of 191 strings given by designated initialisers: an index without
  an initialiser is null, and of two initialisers for one index the later one counts.
\<close>

type_synonym initialisers = "(sn_error_codes_e \<times> string) list"

definition table_size :: nat where "table_size = 191"

definition table_get :: "initialisers \<Rightarrow> err_t \<Rightarrow> string option" where
  "table_get inits i = map_of (rev (map (\<lambda>(e, str). (err_code e, str)) inits)) i"

definition human_readable_messages :: initialisers where
  "human_readable_messages = [
     (SN_ERR_OK, ''everything is AOK''),
     (SN_ERR_NULL_PTR, ''Null-Pointer provided to function''),
     (SN_ERR_NO_SIZE, ''no size Metadata Provided or available''),
     (SN_ERR_BAD_SIZE, ''Invalid size provided''),
     (SN_ERR_BAD_ALLOC, ''libc malloc Returned null''),
     (SN_ERR_NO_ADDER_FOUND, ''no adder provided or available''),
     (SN_ERR_NO_TID_FOUND, ''No tid found in system''),
     (SN_ERR_BAD_BLOCK_ID, ''block id is not above 20''),
     (SN_ERR_FILE_PRE_EXIST, ''file path provided already exists''),
     (SN_ERR_FILE_IO, ''Libc Generic file IO error''),
     (SN_ERR_FILE_NOT_EXIST, ''file Does not exist''),
     (SN_ERR_ALLOC_LIMIT_HIT, ''User defined alloc limit has been hit''),
     (SN_WARN_DUB_FREE, ''Possible double free, but not found in registry''),
     (SN_ERR_SYS_FAIL, ''generic system failure''),
     (SN_ERR_CATASTROPHIC, ''Catastrophic system error''),
     (SN_ERR_DEBUG, ''A debug error used in debug crashes''),
     (SN_INFO_PLACEHOLDER, ''Undefined error Error code implementation coming soon'')]"

definition err_name_tap :: initialisers where
  "err_name_tap = [
     (SN_ERR_OK, ''SN_ERR_OK''),
     (SN_ERR_NULL_PTR, ''SN_ERR_NULL_PTR''),
     (SN_ERR_NO_SIZE, ''SN_ERR_NO_SIZE''),
     (SN_ERR_BAD_SIZE, ''SN_ERR_BAD_SIZE''),
     (SN_ERR_BAD_ALLOC, ''SN_ERR_BAD_ALLOC''),
     (SN_ERR_NO_ADDER_FOUND, ''SN_ERR_NO_ADDER_FOUND''),
     (SN_ERR_NO_TID_FOUND, ''SN_ERR_NO_TID_FOUND''),
     (SN_ERR_BAD_BLOCK_ID, ''SN_ERR_BAD_BLOCK_ID''),
     (SN_ERR_FILE_PRE_EXIST, ''SN_ERR_FILE_PRE_EXIST''),
     (SN_ERR_FILE_IO, ''SN_ERR_FILE_IO''),
     (SN_ERR_FILE_NOT_EXIST, ''SN_ERR_FILE_NOT_EXIST''),
     (SN_ERR_ALLOC_LIMIT_HIT, ''SN_ERR_ALLOC_LIMIT_HIT''),
     (SN_WARN_DUB_FREE, ''SN_WARN_DUB_FREE''),
     (SN_ERR_SYS_FAIL, ''SN_ERR_SYS_FAIL''),
     (SN_ERR_CATASTROPHIC, ''SN_ERR_CATASTROPHIC''),
     (SN_ERR_DEBUG, ''SN_ERR_DEBUG''),
     (SN_INFO_PLACEHOLDER, ''SN_INFO_PLACEHOLDER'')]"

definition sn_get_error_msg :: "err_t \<Rightarrow> string" where
  "sn_get_error_msg err =
     (if err < err_code SN_ERR_OK \<or> unat err \<ge> table_size then ''Unknown error''
      else case table_get human_readable_messages err of
        None \<Rightarrow> ''Unknown error''
      | Some str \<Rightarrow> str)"

definition sn_get_error_name :: "err_t \<Rightarrow> string" where
  "sn_get_error_name err =
     (if err < err_code SN_ERR_OK \<or> unat err \<ge> table_size then ''SN_SOFT_FAKE_ERR_UNKNOWN''
      else case table_get err_name_tap err of
        None \<Rightarrow> ''SN_SOFT_FAKE_ERR_UNKNOWN''
      | Some str \<Rightarrow> str)"

section \<open>The last error\<close>

definition sn_get_last_error :: "err_t lib" where
  "sn_get_last_error = gets error_code"

definition sn_reset_last_error :: "unit lib" where
  "sn_reset_last_error = modify (\<lambda>s. s\<lparr>error_code := err_code SN_ERR_OK\<rparr>)"

definition sn_set_last_error :: "err_t \<Rightarrow> unit lib" where
  "sn_set_last_error err =
     bnd (gets alloc_mutex) (\<lambda>m.
     bnd (plat_mutex_lock m) (\<lambda>_.
     bnd (modify (\<lambda>s. s\<lparr>error_code := err\<rparr>)) (\<lambda>_.
     bnd (gets alloc_mutex) (\<lambda>m.
     plat_mutex_unlock m))))"

text \<open>
  The macro \<open>sn_error(code, value)\<close> where it stands in braces: set the error, return the
  value. It expands to two statements, so where it is the unbraced body of an \<open>if\<close> only
  the first is conditional and the \<open>return\<close> always happens; those places are modelled
  where they occur, with \<open>sn_error_unbraced\<close>.
\<close>

definition sn_error :: "sn_error_codes_e \<Rightarrow> 'a \<Rightarrow> 'a lib" where
  "sn_error e v = bnd (sn_set_last_error (err_code e)) (\<lambda>_. ret v)"

definition sn_error_unbraced :: "bool \<Rightarrow> sn_error_codes_e \<Rightarrow> 'a \<Rightarrow> 'a lib" where
  "sn_error_unbraced c e v = bnd (if_do c (sn_set_last_error (err_code e))) (\<lambda>_. ret v)"

section \<open>Lemmas\<close>

lemma sn_set_last_error_ready:
  "ready (alloc_mutex s) s \<Longrightarrow>
   sn_set_last_error err s = Done () (unlocked (alloc_mutex s) (s\<lparr>error_code := err\<rparr>))"
  by (simp add: sn_set_last_error_def plat_mutex_lock_ready plat_mutex_unlock_ready ready_with_mutex)

lemma sn_error_ready:
  "ready (alloc_mutex s) s \<Longrightarrow>
   sn_error e v s = Done v (unlocked (alloc_mutex s) (s\<lparr>error_code := err_code e\<rparr>))"
  by (simp add: sn_error_def sn_set_last_error_ready ret_def)

lemmas run_error [run] =
  sn_get_last_error_def sn_reset_last_error_def sn_set_last_error_def sn_error_def sn_error_unbraced_def

end
