(* ===== verification/SN_Crash.thy ===== *)
theory SN_Crash
  imports SN_Error
begin

text \<open>
  \<open>sn_crash.c\<close>: the crash handler, by what it reads and how it ends. The reads are modelled
  because they can themselves be invalid; the lines it writes to \<open>stderr\<close> are in \<open>Crash_Report\<close>,
  with the proof that they make no difference to the end. The build option that dumps the list
  is taken as on, its default.
\<close>

definition print_node :: "ptr \<Rightarrow> unit lib" where
  "print_node node = (if node = NULL then ret () else bnd (load_node node) (\<lambda>_. ret ()))"

definition list_nodeas :: "unit worker" where
  "list_nodeas self ctx index arg =
     (if ctx = NULL then ret (LIST_FOR_EACH_LOOP_BRAKE, arg)
      else bnd (print_node ctx) (\<lambda>_. ret (NULL, arg)))"

definition sn_crash :: "sn_error_codes_e \<Rightarrow> 'a lib" where
  "sn_crash err =
     bnd plat_getTid (\<lambda>_.
     if err_code err = err_code SN_ERR_CATASTROPHIC then halt Aborted
     else if err_code err = err_code SN_ERR_SYS_FAIL then halt (Exited (err_code err))
     else
       bnd (gets mem_list) (\<lambda>l.
       bnd (load_list l) (\<lambda>L.
       bnd (print_node (l_lastAccess L)) (\<lambda>_.
       bnd (linked_list_forEach l list_nodeas ()) (\<lambda>_.
       halt (Exited (err_code err)))))))"

text \<open>\<open>sn_debug.c\<close>.\<close>

definition sn_debug_crash :: "unit lib" where
  "sn_debug_crash = sn_crash SN_ERR_DEBUG"

lemma sn_crash_catastrophic [simp]: "sn_crash SN_ERR_CATASTROPHIC s = Halt Aborted s"
  by (simp add: sn_crash_def plat_getTid_def halt_def)

lemma sn_crash_sys_fail [simp]: "sn_crash SN_ERR_SYS_FAIL s = Halt (Exited 185) s"
  by (simp add: sn_crash_def plat_getTid_def halt_def)

lemmas run_crash [run] =
  print_node_def list_nodeas_def sn_crash_def sn_debug_crash_def

end
