(* ===== verification/Linked_List.thy ===== *)
theory Linked_List
  imports SN_Crash
begin

text \<open>
  The second half of \<open>linked_list_c.c\<close>: the list of tracked blocks. Definitions first, in
  the order of the file, then what each operation does to a well-formed list.
\<close>

section \<open>linked_list_c\<close>

definition linked_list_new :: "ptr lib" where
  "linked_list_new =
     bnd (plat_malloc sizeof_linked_list_t) (\<lambda>self.
     if self = NULL then sn_crash SN_ERR_CATASTROPHIC
     else
       bnd (zero_list_at self) (\<lambda>_.
       bnd plat_getTid (\<lambda>tid.
       bnd (linked_list_entry_new NULL NULL 0 tid) (\<lambda>h.
       bnd (upd_list self (\<lambda>L. L\<lparr>l_head := h\<rparr>)) (\<lambda>_.
       if h = NULL then sn_crash SN_ERR_CATASTROPHIC
       else
         bnd (upd_node h (\<lambda>e. e\<lparr>e_isHead := True\<rparr>)) (\<lambda>_.
         bnd (upd_list self (\<lambda>L. L\<lparr>l_lastEntry := h\<rparr>)) (\<lambda>_.
         bnd (upd_list self (\<lambda>L. L\<lparr>l_firstEntry := h\<rparr>)) (\<lambda>_.
         bnd plat_mutex_new (\<lambda>m.
         bnd (upd_list self (\<lambda>L. L\<lparr>l_mutex := m\<rparr>)) (\<lambda>_.
         ret self))))))))))"

definition pri_listDestroyer :: "unit worker" where
  "pri_listDestroyer self ctx index arg =
     bnd (linked_list_entry_destroy ctx) (\<lambda>_. ret (NULL, arg))"

definition linked_list_destroy :: "ptr \<Rightarrow> unit lib" where
  "linked_list_destroy self =
     (if self = NULL then ret ()
      else
        bnd (linked_list_forEach self pri_listDestroyer ()) (\<lambda>_.
        bnd (load_list self) (\<lambda>L.
        bnd (linked_list_entry_destroy (l_head L)) (\<lambda>_.
        bnd (plat_mutex_destroy (l_mutex L)) (\<lambda>_.
        plat_free self)))))"

definition linked_list_push :: "ptr \<Rightarrow> ptr \<Rightarrow> size_t \<Rightarrow> tid_t \<Rightarrow> unit lib" where
  "linked_list_push self data sz tid =
     (if self = NULL then ret ()
      else
        bnd (load_list self) (\<lambda>L.
        if l_firstEntry L = NULL then sn_crash SN_ERR_CATASTROPHIC
        else
          bnd (list_lock self) (\<lambda>_.
          bnd (load_list self) (\<lambda>L.
          bnd (linked_list_entry_new (l_lastEntry L) data sz tid) (\<lambda>new_entry.
          if new_entry = NULL then sn_crash SN_ERR_CATASTROPHIC
          else
            bnd (upd_node new_entry (\<lambda>e. e\<lparr>e_mutex := l_mutex L\<rparr>)) (\<lambda>_.
            bnd (linked_list_entry_pri_isHead (l_firstEntry L)) (\<lambda>head.
            bnd (if_do head (upd_list self (\<lambda>L. L\<lparr>l_firstEntry := new_entry\<rparr>))) (\<lambda>_.
            bnd (upd_list self (\<lambda>L. L\<lparr>l_lastEntry := new_entry\<rparr>)) (\<lambda>_.
            bnd (upd_list self (\<lambda>L. L\<lparr>l_len := l_len L + 1\<rparr>)) (\<lambda>_.
            list_unlock self))))))))))"

definition linked_list_peek :: "ptr \<Rightarrow> ptr lib" where
  "linked_list_peek self = bnd (load_list self) (\<lambda>L. ret (l_lastEntry L))"

text \<open>Popping an empty list returns with the mutex taken.\<close>

definition linked_list_pop :: "ptr \<Rightarrow> unit lib" where
  "linked_list_pop self =
     bnd (list_lock self) (\<lambda>_.
     bnd (load_list self) (\<lambda>L.
     bnd (linked_list_entry_pri_isHead (l_lastEntry L)) (\<lambda>head.
     if head then ret ()
     else
       bnd (load_node (l_lastEntry L)) (\<lambda>temp.
       bnd (upd_list self (\<lambda>L. L\<lparr>l_lastEntry := e_previous temp\<rparr>)) (\<lambda>_.
       bnd (upd_node (e_previous temp) (\<lambda>e. e\<lparr>e_next := NULL\<rparr>)) (\<lambda>_.
       bnd (linked_list_entry_destroy (l_lastEntry L)) (\<lambda>_.
       bnd (load_list self) (\<lambda>L.
       bnd (linked_list_entry_pri_isHead (l_lastEntry L)) (\<lambda>head.
       bnd (if_do head (upd_list self (\<lambda>L. L\<lparr>l_firstEntry := l_lastEntry L\<rparr>))) (\<lambda>_.
       bnd (upd_list self (\<lambda>L. L\<lparr>l_len := l_len L - 1\<rparr>)) (\<lambda>_.
       list_unlock self)))))))))))"

definition linked_list_getSize :: "ptr \<Rightarrow> size_t lib" where
  "linked_list_getSize self = bnd (load_list self) (\<lambda>L. ret (l_len L))"

definition linked_list_searchForPointer :: "ptr worker" where
  "linked_list_searchForPointer self ctx index key =
     bnd (linked_list_entry_getData ctx) (\<lambda>d. ret (if d = key then ctx else NULL, key))"

definition linked_list_hasPtr :: "ptr \<Rightarrow> ptr \<Rightarrow> bool lib" where
  "linked_list_hasPtr self key =
     (if self = NULL \<or> key = NULL then ret False
      else
        bnd (list_lock self) (\<lambda>_.
        bnd (linked_list_forEach self linked_list_searchForPointer key) (\<lambda>(temp, _).
        if temp \<noteq> NULL then
          bnd (upd_list self (\<lambda>L. L\<lparr>l_lastAccess := temp\<rparr>)) (\<lambda>_.
          bnd (list_unlock self) (\<lambda>_. ret True))
        else bnd (list_unlock self) (\<lambda>_. ret False))))"

text \<open>The common tail of the three lookups: note the access and count it.\<close>

definition note_access :: "ptr \<Rightarrow> ptr \<Rightarrow> unit lib" where
  "note_access self temp =
     bnd (upd_list self (\<lambda>L. L\<lparr>l_lastAccess := temp\<rparr>)) (\<lambda>_.
     bnd (list_lock self) (\<lambda>_.
     bnd (upd_node temp (\<lambda>e. e\<lparr>e_weight := e_weight e + 1\<rparr>)) (\<lambda>_.
     list_unlock self)))"

definition linked_list_getByPtr :: "ptr \<Rightarrow> ptr \<Rightarrow> ptr lib" where
  "linked_list_getByPtr self key =
     (if self = NULL \<or> key = NULL then ret NULL
      else
        bnd (linked_list_forEach self linked_list_searchForPointer key) (\<lambda>(temp, _).
        bnd (if_do (temp \<noteq> NULL) (note_access self temp)) (\<lambda>_. ret temp)))"

text \<open>The searches by index and by id get the address of a local: \<open>None\<close> is a null argument.\<close>

definition linked_list_searchForIndex :: "size_t option worker" where
  "linked_list_searchForIndex self ctx index arg =
     (case arg of None \<Rightarrow> ret (NULL, arg)
      | Some i \<Rightarrow> ret (if index = i then ctx else NULL, arg))"

definition linked_list_getByIndex :: "ptr \<Rightarrow> size_t \<Rightarrow> ptr lib" where
  "linked_list_getByIndex self index =
     (if self = NULL then ret NULL
      else
        bnd (linked_list_getSize self) (\<lambda>n.
        if n < index then ret NULL
        else
          bnd (linked_list_forEach self linked_list_searchForIndex (Some index)) (\<lambda>(temp, _).
          bnd (if_do (temp \<noteq> NULL) (note_access self temp)) (\<lambda>_. ret temp))))"

definition linked_list_searchForId :: "block_id_t option worker" where
  "linked_list_searchForId self ctx index arg =
     (case arg of None \<Rightarrow> ret (NULL, arg)
      | Some i \<Rightarrow> bnd (linked_list_entry_getBlockId ctx) (\<lambda>b. ret (if b = i then ctx else NULL, arg)))"

definition linked_list_getById :: "ptr \<Rightarrow> block_id_t \<Rightarrow> ptr lib" where
  "linked_list_getById self bid =
     (if self = NULL then ret NULL
      else
        bnd (list_lock self) (\<lambda>_.
        bnd (linked_list_forEach self linked_list_searchForId (Some bid)) (\<lambda>(temp, _).
        bnd (if_do (temp \<noteq> NULL) (note_access self temp)) (\<lambda>_. ret temp))))"

definition linked_list_hasId :: "ptr \<Rightarrow> block_id_t \<Rightarrow> bool lib" where
  "linked_list_hasId self bid =
     (if self = NULL then ret False
      else bnd (linked_list_getById self bid) (\<lambda>temp. if temp = NULL then ret False else ret True))"

text \<open>Removing an entry that is not the last does not decrement \<open>len\<close>.\<close>

definition linked_list_removeEntry :: "ptr \<Rightarrow> ptr \<Rightarrow> bool lib" where
  "linked_list_removeEntry self entry_ref =
     (if self = NULL then ret False
      else if entry_ref = NULL then ret False
      else
        bnd (list_lock self) (\<lambda>_.
        bnd (load_list self) (\<lambda>L.
        if l_lastEntry L = entry_ref then
          bnd (list_unlock self) (\<lambda>_.
          bnd (linked_list_pop self) (\<lambda>_. ret True))
        else
          bnd (load_node entry_ref) (\<lambda>e.
          bnd (if_do (e_previous e \<noteq> NULL)
                 (upd_node (e_previous e) (\<lambda>x. x\<lparr>e_next := e_next e\<rparr>))) (\<lambda>_.
          bnd (if_do (e_next e \<noteq> NULL)
                 (upd_node (e_next e) (\<lambda>x. x\<lparr>e_previous := e_previous e\<rparr>))) (\<lambda>_.
          bnd (linked_list_entry_destroy entry_ref) (\<lambda>_.
          bnd (load_list self) (\<lambda>L.
          bnd (if_do (l_firstEntry L = entry_ref)
                 (upd_list self (\<lambda>L. L\<lparr>l_firstEntry := e_next e\<rparr>))) (\<lambda>_.
          bnd (list_unlock self) (\<lambda>_.
          ret True))))))))))"

definition linked_list_removeEntryByPtr :: "ptr \<Rightarrow> ptr \<Rightarrow> unit lib" where
  "linked_list_removeEntryByPtr self key =
     (if self = NULL \<or> key = NULL then ret ()
      else
        bnd (list_lock self) (\<lambda>_.
        bnd (linked_list_forEach self linked_list_searchForPointer key) (\<lambda>(entry, _).
        bnd (linked_list_removeEntry self entry) (\<lambda>_.
        list_unlock self))))"

lemmas run_list [run] =
  linked_list_new_def pri_listDestroyer_def linked_list_destroy_def linked_list_push_def
  linked_list_peek_def linked_list_pop_def linked_list_getSize_def linked_list_searchForPointer_def
  linked_list_hasPtr_def note_access_def linked_list_getByPtr_def linked_list_searchForIndex_def
  linked_list_getByIndex_def linked_list_searchForId_def linked_list_getById_def
  linked_list_hasId_def linked_list_removeEntry_def linked_list_removeEntryByPtr_def

section \<open>Everything but the links\<close>

text \<open>
  \<open>info e\<close> is what an entry records apart from its place in the list. The list
  operations are specified by what they do to the list of addresses and to \<open>info\<close>.
\<close>

definition info :: "linked_list_entry_t \<Rightarrow> linked_list_entry_t" where
  "info e = e\<lparr>e_previous := NULL, e_next := NULL\<rparr>"

lemma info_fields [simp]:
  "e_data (info e) = e_data e" "e_size (info e) = e_size e" "e_tid (info e) = e_tid e"
  "e_cached (info e) = e_cached e" "e_block_id (info e) = e_block_id e"
  "e_isHead (info e) = e_isHead e" "e_weight (info e) = e_weight e" "e_mutex (info e) = e_mutex e"
  by (simp_all add: info_def)

lemma info_links [simp]:
  "info (e\<lparr>e_previous := p\<rparr>) = info e" "info (e\<lparr>e_next := p\<rparr>) = info e"
  by (simp_all add: info_def)

definition same_info :: "(ptr \<rightharpoonup> linked_list_entry_t) \<Rightarrow> (ptr \<rightharpoonup> linked_list_entry_t) \<Rightarrow> ptr \<Rightarrow> bool" where
  "same_info h h' q \<longleftrightarrow> map_option info (h' q) = map_option info (h q)"

lemma same_info_refl [simp]: "same_info h h q"
  by (simp add: same_info_def)

lemma same_info_SomeD:
  "\<lbrakk>same_info h h' q; h q = Some e\<rbrakk> \<Longrightarrow> \<exists>e'. h' q = Some e' \<and> info e' = info e"
  by (auto simp: same_info_def)

lemma same_info_SomeD':
  "\<lbrakk>same_info h h' q; h' q = Some x\<rbrakk> \<Longrightarrow> \<exists>y. h q = Some y \<and> info x = info y"
  by (cases "h q") (auto simp: same_info_def)

lemma same_info_NoneD: "\<lbrakk>same_info h h' q; h q = None\<rbrakk> \<Longrightarrow> h' q = None"
  by (simp add: same_info_def)

section \<open>Appending\<close>

lemma list_ok_last:
  assumes "list_ok s l L ns"
  shows "\<exists>us. l_head L # ns = us @ [l_lastEntry L]" "l_lastEntry L \<noteq> NULL"
    "\<exists>e. nodes s (l_lastEntry L) = Some e \<and> e_isHead e = (ns = [])"
proof -
  show "\<exists>us. l_head L # ns = us @ [l_lastEntry L]"
    using list_okD(10) [OF assms] by (metis append_butlast_last_id last_Cons_last_or list.discI)
  show "l_lastEntry L \<noteq> NULL" using list_okD(5,7,10) [OF assms] last_or_in [of "l_head L" ns] by auto
  show "\<exists>e. nodes s (l_lastEntry L) = Some e \<and> e_isHead e = (ns = [])"
    using list_ok_head [OF assms] list_ok_node [OF assms, of "l_lastEntry L"] list_okD(10) [OF assms]
    by (cases "ns = []") (auto simp: last_or_def)
qed

lemma list_ok_first:
  assumes "list_ok s l L ns"
  shows "l_firstEntry L \<noteq> NULL" "\<exists>e. nodes s (l_firstEntry L) = Some e \<and> e_isHead e = (ns = [])"
proof -
  show "l_firstEntry L \<noteq> NULL" using list_okD(5,7,9) [OF assms] hd_or_in [of "l_head L" ns] by auto
  show "\<exists>e. nodes s (l_firstEntry L) = Some e \<and> e_isHead e = (ns = [])"
    using list_ok_head [OF assms] list_ok_node [OF assms, of "hd ns"] list_okD(9) [OF assms]
    by (cases ns) auto
qed

definition pushed_list :: "ptr \<Rightarrow> ptr list \<Rightarrow> linked_list_t \<Rightarrow> linked_list_t" where
  "pushed_list p ns L = L\<lparr>l_firstEntry := (if ns = [] then p else l_firstEntry L),
     l_lastEntry := p, l_len := l_len L + 1\<rparr>"

definition pushed_nodes ::
    "ptr \<Rightarrow> linked_list_t \<Rightarrow> ptr \<Rightarrow> size_t \<Rightarrow> tid_t \<Rightarrow> (ptr \<rightharpoonup> linked_list_entry_t) \<Rightarrow> (ptr \<rightharpoonup> linked_list_entry_t)" where
  "pushed_nodes p L d n t h =
     h(l_lastEntry L \<mapsto> (the (h (l_lastEntry L)))\<lparr>e_next := p\<rparr>,
       p \<mapsto> (new_entry (l_lastEntry L) d n t)\<lparr>e_mutex := l_mutex L\<rparr>)"

lemma push_eq:
  assumes ok: "list_ok s l L ns" and rdy: "ready (l_mutex L) s"
    and ans: "malloc_answers s = (p, junk) # rest" and place: "can_place s p sizeof_linked_list_entry_t"
  shows "linked_list_push l d n t s = Done () (unlocked (l_mutex L)
    (s\<lparr>malloc_answers := rest, nodes := pushed_nodes p L d n t (nodes s),
       lists := (lists s)(l \<mapsto> pushed_list p ns L)\<rparr>))"
proof -
  note D = list_okD [OF ok]
  obtain e where e: "nodes s (l_lastEntry L) = Some e" using list_ok_last(3) [OF ok] by blast
  obtain f where f: "nodes s (l_firstEntry L) = Some f" "e_isHead f = (ns = [])"
    using list_ok_first(2) [OF ok] by blast
  have p: "p \<noteq> NULL" "nodes s p = None" using place by (auto simp: can_place_def live_def)
  have new: "linked_list_entry_new (l_lastEntry L) d n t (locked (l_mutex L) s) =
      Done p (locked (l_mutex L) (s\<lparr>malloc_answers := rest,
        nodes := (nodes s)(l_lastEntry L \<mapsto> e\<lparr>e_next := p\<rparr>, p \<mapsto> new_entry (l_lastEntry L) d n t)\<rparr>))"
    using linked_list_entry_new_ok [of "locked (l_mutex L) s" p junk rest "l_lastEntry L" e d n t]
      ans place rdy e list_ok_last(2) [OF ok] by simp
  have ne: "p \<noteq> l_firstEntry L" "p \<noteq> l_lastEntry L" using p f e by auto
  let ?N = "(nodes s)(l_lastEntry L \<mapsto> e\<lparr>e_next := p\<rparr>,
      p \<mapsto> (new_entry (l_lastEntry L) d n t)\<lparr>e_mutex := l_mutex L\<rparr>)"
  have "\<exists>x. ?N (l_firstEntry L) = Some x \<and> e_isHead x = (ns = [])"
    using ne f e by (cases "l_firstEntry L = l_lastEntry L") auto
  then have isHead: "linked_list_entry_pri_isHead (l_firstEntry L) S = Done (ns = []) S"
    if "nodes S = ?N" for S
    using that by (auto simp: linked_list_entry_pri_isHead_def ret_def simp del: fun_upd_apply)
  show ?thesis
    using p(1) D(1,2) rdy list_ok_first(1) [OF ok] e
    by (cases "ns = []")
       (simp_all add: linked_list_push_def list_lock_ok list_unlock_ok new ready_with_mutex isHead
         pushed_list_def pushed_nodes_def)
qed

lemma push_list_ok:
  assumes ok: "list_ok s l L ns" and place: "can_place s p sizeof_linked_list_entry_t"
    and len: "l_len L \<noteq> - 1"
    and s': "lists s' = (lists s)(l \<mapsto> pushed_list p ns L)"
      "nodes s' = pushed_nodes p L d n t (nodes s)"
  shows "list_ok s' l (pushed_list p ns L) (ns @ [p])"
    "\<forall>q. q \<noteq> p \<longrightarrow> same_info (nodes s) (nodes s') q"
    "nodes s' p = Some ((new_entry (l_lastEntry L) d n t)\<lparr>e_mutex := l_mutex L\<rparr>)"
proof -
  note D = list_okD [OF ok]
  obtain us where us: "l_head L # ns = us @ [l_lastEntry L]" using list_ok_last(1) [OF ok] by blast
  obtain e where e: "nodes s (l_lastEntry L) = Some e" "e_isHead e = (ns = [])"
    using list_ok_last(3) [OF ok] by blast
  have p: "p \<noteq> NULL" "nodes s p = None" "p \<noteq> LIST_FOR_EACH_LOOP_BRAKE"
    using place can_place_entry_not_brake [OF place] by (auto simp: can_place_def live_def)
  have p_out: "p \<notin> set (l_head L # ns)"
    using p(2) seg_dom [OF D(3)] by (auto simp del: seg.simps)
  have dist: "distinct (us @ [l_lastEntry L])"
    using D(4,6) by (simp flip: us)
  have seg1: "seg (nodes s) NULL (us @ [l_lastEntry L]) NULL"
    using D(3) by (simp only: us)
  have p_us: "p \<notin> set us" "p \<noteq> l_lastEntry L" using p_out by (auto simp only: us set_append) auto
  let ?h = "(nodes s)(l_lastEntry L \<mapsto> e\<lparr>e_next := p\<rparr>)"
  have n': "nodes s' = ?h(p \<mapsto> (new_entry (l_lastEntry L) d n t)\<lparr>e_mutex := l_mutex L\<rparr>)"
    using s'(2) e(1) by (simp add: pushed_nodes_def)
  have "seg ?h NULL (us @ [l_lastEntry L]) p"
    using seg_relink_next [OF seg1 _ e(1)] dist by simp
  then have "seg (nodes s') NULL ((us @ [l_lastEntry L]) @ [p]) NULL"
    using p_us n' by (subst seg_append) (simp add: new_entry_def zero_entry_def)
  then have seg': "seg (nodes s') NULL (l_head L # ns @ [p]) NULL"
    using us by (metis append_Cons)
  have len': "Suc (length ns) \<le> unat (l_len L + 1)"
    using D(11) unat_Suc_word [OF len] by simp
  have nodes': "\<And>q e'. q \<noteq> p \<Longrightarrow> nodes s' q = Some e' \<Longrightarrow>
      \<exists>e''. nodes s q = Some e'' \<and> info e' = info e''"
    using n' e(1) by (auto split: if_splits)
  have same: "same_info (nodes s) (nodes s') q" if "q \<noteq> p" for q
    using that n' e(1) by (auto simp: same_info_def)
  then show "\<forall>q. q \<noteq> p \<longrightarrow> same_info (nodes s) (nodes s') q" by simp
  show np: "nodes s' p = Some ((new_entry (l_lastEntry L) d n t)\<lparr>e_mutex := l_mutex L\<rparr>)"
    using n' by simp
  have heads: "\<And>e'. nodes s' (l_head L) = Some e' \<Longrightarrow> e_isHead e'"
    using nodes' [of "l_head L"] p_out list_ok_head [OF ok]
    by (metis info_fields(6) list.set_intros(1) option.inject)
  have rest: "\<And>q e'. q \<in> set ns \<Longrightarrow> nodes s' q = Some e' \<Longrightarrow> \<not> e_isHead e' \<and> e_mutex e' = l_mutex L"
    using nodes' p_out list_ok_node [OF ok]
    by (metis info_fields(6,8) list.set_intros(2) option.inject)
  show "list_ok s' l (pushed_list p ns L) (ns @ [p])"
    unfolding list_ok_def
    using D(1,4-10) p p_out seg' len' heads rest np s'(1)
    by (cases ns) (auto simp: pushed_list_def new_entry_def zero_entry_def simp del: seg.simps)
qed

section \<open>Removing an entry\<close>

text \<open>Unlinking the entry at \<open>p\<close> from its two neighbours, and freeing it.\<close>

definition unlinked_nodes ::
    "ptr \<Rightarrow> linked_list_entry_t \<Rightarrow> (ptr \<rightharpoonup> linked_list_entry_t) \<Rightarrow> (ptr \<rightharpoonup> linked_list_entry_t)" where
  "unlinked_nodes p e h =
     (let h1 = h(e_previous e \<mapsto> (the (h (e_previous e)))\<lparr>e_next := e_next e\<rparr>);
          h2 = (if e_next e = NULL then h1
                else h1(e_next e \<mapsto> (the (h1 (e_next e)))\<lparr>e_previous := e_previous e\<rparr>))
      in h2(p := None))"

definition removed_list :: "ptr list \<Rightarrow> ptr list \<Rightarrow> linked_list_t \<Rightarrow> linked_list_t" where
  "removed_list xs ys L = L\<lparr>l_firstEntry := hd_or (l_head L) (xs @ ys),
     l_lastEntry := last_or (l_head L) (xs @ ys),
     l_len := (if ys = [] then l_len L - 1 else l_len L)\<rparr>"

lemma removed_list_fields [simp]:
  "l_head (removed_list xs ys L) = l_head L" "l_mutex (removed_list xs ys L) = l_mutex L"
  "l_lastAccess (removed_list xs ys L) = l_lastAccess L"
  by (simp_all add: removed_list_def)

text \<open>The four shapes of the change: the only entry, the last, the first, one in between.\<close>

lemma removed_list_cases:
  assumes "list_ok s l L (xs @ p # ys)"
  shows "xs = [] \<Longrightarrow> ys = [] \<Longrightarrow> removed_list xs ys L =
      L\<lparr>l_lastEntry := l_head L, l_firstEntry := l_head L, l_len := l_len L - 1\<rparr>"
    "xs \<noteq> [] \<Longrightarrow> ys = [] \<Longrightarrow> removed_list xs ys L =
      L\<lparr>l_lastEntry := last_or (l_head L) xs, l_len := l_len L - 1\<rparr>"
    "xs = [] \<Longrightarrow> ys \<noteq> [] \<Longrightarrow> removed_list xs ys L = L\<lparr>l_firstEntry := hd ys\<rparr>"
    "xs \<noteq> [] \<Longrightarrow> ys \<noteq> [] \<Longrightarrow> removed_list xs ys L = L"
proof -
  have f: "l_firstEntry L = hd_or (l_head L) (xs @ p # ys)" and
    t: "l_lastEntry L = last_or (l_head L) (xs @ p # ys)"
    using list_okD(9,10) [OF assms] by auto
  show "xs = [] \<Longrightarrow> ys = [] \<Longrightarrow> removed_list xs ys L =
      L\<lparr>l_lastEntry := l_head L, l_firstEntry := l_head L, l_len := l_len L - 1\<rparr>"
    by (simp add: removed_list_def)
  show "xs \<noteq> [] \<Longrightarrow> ys = [] \<Longrightarrow> removed_list xs ys L =
      L\<lparr>l_lastEntry := last_or (l_head L) xs, l_len := l_len L - 1\<rparr>"
    using f by (cases xs; cases L) (simp_all add: removed_list_def)
  show "xs = [] \<Longrightarrow> ys \<noteq> [] \<Longrightarrow> removed_list xs ys L = L\<lparr>l_firstEntry := hd ys\<rparr>"
    using t by (cases ys; cases L) (simp_all add: removed_list_def)
  show "xs \<noteq> [] \<Longrightarrow> ys \<noteq> [] \<Longrightarrow> removed_list xs ys L = L"
    using f t by (cases xs; cases ys; cases L) (simp_all add: removed_list_def last_or_append)
qed

text \<open>The neighbours of an entry of a well-formed list.\<close>

lemma list_ok_split:
  assumes ok: "list_ok s l L (xs @ p # ys)"
  shows "\<exists>e. nodes s p = Some e \<and> e_previous e = last_or (l_head L) xs \<and> e_next e = hd_or NULL ys"
    "\<exists>us. l_head L # xs = us @ [last_or (l_head L) xs]"
    "\<exists>f. nodes s (last_or (l_head L) xs) = Some f \<and> e_isHead f = (xs = [])"
    "seg (nodes s) NULL (l_head L # xs) p" "seg (nodes s) p ys NULL"
proof -
  note D = list_okD [OF ok]
  from D(3) have "seg (nodes s) NULL ((l_head L # xs) @ p # ys) NULL" by simp
  then have S: "seg (nodes s) NULL (l_head L # xs) p" "seg (nodes s) (last_or (l_head L) xs) (p # ys) NULL"
    unfolding seg_append by (simp_all del: seg.simps)
  then show "seg (nodes s) NULL (l_head L # xs) p" "seg (nodes s) p ys NULL"
    "\<exists>e. nodes s p = Some e \<and> e_previous e = last_or (l_head L) xs \<and> e_next e = hd_or NULL ys"
    by simp_all
  show "\<exists>us. l_head L # xs = us @ [last_or (l_head L) xs]"
    by (metis append_butlast_last_id last_Cons_last_or list.discI)
  show "\<exists>f. nodes s (last_or (l_head L) xs) = Some f \<and> e_isHead f = (xs = [])"
    using list_ok_head [OF ok] list_ok_node [OF ok, of "last_or (l_head L) xs"]
    by (cases "xs = []") (auto simp: last_or_def)
qed

text \<open>The addresses around the removed entry are pairwise different.\<close>

lemma list_ok_around:
  assumes ok: "list_ok s l L (xs @ p # ys)"
  shows "p \<noteq> NULL" "p \<notin> set (l_head L # xs)" "p \<notin> set ys" "last_or (l_head L) xs \<notin> set ys"
    "last_or (l_head L) xs \<noteq> NULL" "NULL \<notin> set ys" "distinct ys"
    "set (l_head L # xs) \<inter> set ys = {}" "distinct (l_head L # xs)"
  using list_okD [OF ok] last_or_in [of "l_head L" xs] by auto

lemma seg_unlinked:
  assumes ok: "list_ok s l L (xs @ p # ys)" and e: "nodes s p = Some e"
  shows "seg (unlinked_nodes p e (nodes s)) NULL (l_head L # xs @ ys) NULL"
proof -
  let ?h = "nodes s" and ?prv = "last_or (l_head L) xs"
  note A = list_ok_around [OF ok]
  from list_ok_split(1) [OF ok] e have el: "e_previous e = ?prv" "e_next e = hd_or NULL ys" by auto
  obtain us where us: "l_head L # xs = us @ [?prv]" using list_ok_split(2) [OF ok] by blast
  obtain f where f: "?h ?prv = Some f" using list_ok_split(3) [OF ok] by blast
  have s1: "seg ?h NULL (us @ [?prv]) p" using list_ok_split(4) [OF ok] by (simp only: us)
  have "?prv \<notin> set us" using A(9) by (simp add: us del: distinct.simps)
  then have s2: "seg (?h(?prv \<mapsto> f\<lparr>e_next := e_next e\<rparr>)) NULL (us @ [?prv]) (e_next e)"
    using seg_relink_next [OF s1 _ f] by blast
  show ?thesis
  proof (cases ys)
    case Nil
    then show ?thesis using s2 el f A(2) us by (simp add: unlinked_nodes_def Let_def del: seg.simps)
  next
    case (Cons y zs)
    have s3: "seg ?h p (y # zs) NULL" using list_ok_split(5) [OF ok] Cons by simp
    then obtain g where g: "?h y = Some g" by auto
    have out: "y \<noteq> ?prv" "y \<notin> set (us @ [?prv])" "y \<noteq> NULL" "p \<notin> set (us @ [?prv])"
      using A(2,4,6,8) Cons us by auto
    have s4: "seg (?h(y \<mapsto> g\<lparr>e_previous := ?prv\<rparr>)) ?prv (y # zs) NULL"
      using seg_relink_previous [OF s3 _ g] A(7) Cons by simp
    let ?h' = "?h(?prv \<mapsto> f\<lparr>e_next := y\<rparr>, y \<mapsto> g\<lparr>e_previous := ?prv\<rparr>, p := None)"
    have eq: "unlinked_nodes p e ?h = ?h'"
      using el Cons f g out by (simp add: unlinked_nodes_def Let_def)
    have "seg ?h' NULL (us @ [?prv]) y"
      using s2 el Cons out by (simp del: seg.simps)
    moreover have "?h' = ?h(y \<mapsto> g\<lparr>e_previous := ?prv\<rparr>, ?prv \<mapsto> f\<lparr>e_next := y\<rparr>, p := None)"
      using out(1) by (simp add: fun_upd_twist)
    then have "seg ?h' ?prv (y # zs) NULL"
      using s4 A(3,4) Cons by (simp del: seg.simps)
    ultimately have "seg ?h' NULL ((us @ [?prv]) @ y # zs) NULL"
      unfolding seg_append by simp
    then show ?thesis using eq us Cons by (metis append_Cons)
  qed
qed

lemma unlinked_same_info:
  assumes ok: "list_ok s l L (xs @ p # ys)" and e: "nodes s p = Some e" and q: "q \<noteq> p"
  shows "same_info (nodes s) (unlinked_nodes p e (nodes s)) q"
proof -
  from list_ok_split(1) [OF ok] e
  have el: "e_previous e = last_or (l_head L) xs" "e_next e = hd_or NULL ys" by auto
  obtain f where f: "nodes s (last_or (l_head L) xs) = Some f" using list_ok_split(3) [OF ok] by blast
  have "ys \<noteq> [] \<Longrightarrow> \<exists>g. nodes s (hd_or NULL ys) = Some g"
    using list_ok_split(5) [OF ok] by (cases ys) auto
  moreover have "ys \<noteq> [] \<longleftrightarrow> hd_or NULL ys \<noteq> NULL" using list_ok_around(6) [OF ok] by (cases ys) auto
  ultimately show ?thesis using q el f
    by (auto simp: same_info_def unlinked_nodes_def Let_def)
qed

lemma unlinked_at [simp]: "unlinked_nodes p e h p = None"
  by (simp add: unlinked_nodes_def Let_def)

lemma remove_list_ok:
  assumes ok: "list_ok s l L (xs @ p # ys)" and e: "nodes s p = Some e"
    and s': "lists s' = (lists s)(l \<mapsto> removed_list xs ys L)"
      "nodes s' = unlinked_nodes p e (nodes s)"
  shows "list_ok s' l (removed_list xs ys L) (xs @ ys)"
proof -
  note D = list_okD [OF ok] and A = list_ok_around [OF ok]
  have sm: "\<And>q x. q \<noteq> p \<Longrightarrow> nodes s' q = Some x \<Longrightarrow> \<exists>y. nodes s q = Some y \<and> info x = info y"
    using unlinked_same_info [OF ok e] s'(2) by (metis same_info_SomeD')
  have heads: "\<And>x. nodes s' (l_head L) = Some x \<Longrightarrow> e_isHead x"
    using sm [of "l_head L"] A(2) list_ok_head [OF ok]
    by (metis info_fields(6) list.set_intros(1) option.inject)
  have rest: "\<not> e_isHead x \<and> e_mutex x = l_mutex L" if "q \<in> set (xs @ ys)" "nodes s' q = Some x" for q x
  proof -
    have "q \<noteq> p" "q \<in> set (xs @ p # ys)" using that A(2,3) by auto
    then show ?thesis using sm [of q x] that(2) list_ok_node [OF ok, of q]
      by (metis info_fields(6,8) option.inject)
  qed
  have len: "length (xs @ ys) \<le> unat (l_len (removed_list xs ys L))"
  proof (cases "ys = []")
    case True
    have "l_len L \<noteq> 0" using D(11) by auto
    then have "unat (l_len L - 1) = unat (l_len L) - 1" by (rule unat_minus_one)
    then show ?thesis using D(11) True by (simp add: removed_list_def)
  next
    case False
    then show ?thesis using D(11) by (simp add: removed_list_def)
  qed
  show ?thesis
    unfolding list_ok_def
    using D(1,4-8) seg_unlinked [OF ok e] s' heads rest len
    by (auto simp: removed_list_def simp del: seg.simps)
qed

text \<open>\<open>pop\<close> is removal of the last entry.\<close>

lemma pop_eq:
  assumes ok: "list_ok s l L (xs @ [p])" and rdy: "ready (l_mutex L) s" and sp: "split_ok s"
    and e: "nodes s p = Some e"
  shows "linked_list_pop l s = Done () (unlocked (l_mutex L)
    (s\<lparr>nodes := unlinked_nodes p e (nodes s), lists := (lists s)(l \<mapsto> removed_list xs [] L)\<rparr>))"
proof -
  note D = list_okD [OF ok] and A = list_ok_around [OF ok]
  let ?prv = "last_or (l_head L) xs"
  from list_ok_split(1) [OF ok] e have el: "e_previous e = ?prv" "e_next e = NULL" by auto
  obtain f where f: "nodes s ?prv = Some f" "e_isHead f = (xs = [])"
    using list_ok_split(3) [OF ok] by blast
  have "\<not> e_isHead e" using list_ok_node [OF ok, of p] e by auto
  moreover have last: "l_lastEntry L = p" using D(10) by simp
  moreover have first: "l_firstEntry L = hd_or p xs" using D(9) by (cases xs) auto
  moreover have "p \<noteq> ?prv" using A(2) last_or_in [of "l_head L" xs] by auto
  ultimately have main: "linked_list_pop l s = Done () (unlocked (l_mutex L)
      (s\<lparr>nodes := unlinked_nodes p e (nodes s), lists := (lists s)(l \<mapsto>
         (if xs = [] then L\<lparr>l_lastEntry := l_head L, l_firstEntry := l_head L, l_len := l_len L - 1\<rparr>
          else L\<lparr>l_lastEntry := last_or (l_head L) xs, l_len := l_len L - 1\<rparr>))\<rparr>))"
    using D(1,2) A(1) rdy e el f
    by (cases "xs = []")
       (simp_all add: linked_list_pop_def list_lock_ok list_unlock_ok linked_list_entry_pri_isHead_def
         ret_def linked_list_entry_destroy_def plat_free_node_of [OF sp] ready_with_mutex
         unlinked_nodes_def Let_def domIff)
  have R: "removed_list xs [] L =
      (if xs = [] then L\<lparr>l_lastEntry := l_head L, l_firstEntry := l_head L, l_len := l_len L - 1\<rparr>
       else L\<lparr>l_lastEntry := last_or (l_head L) xs, l_len := l_len L - 1\<rparr>)"
    using removed_list_cases(1,2) [OF ok] by simp
  show ?thesis unfolding R by (rule main)
qed

lemma removeEntry_eq:
  assumes ok: "list_ok s l L (xs @ p # ys)" and rdy: "ready (l_mutex L) s" and sp: "split_ok s"
    and e: "nodes s p = Some e"
  shows "linked_list_removeEntry l p s = Done True (unlocked (l_mutex L)
    (s\<lparr>nodes := unlinked_nodes p e (nodes s), lists := (lists s)(l \<mapsto> removed_list xs ys L)\<rparr>))"
proof (cases ys)
  case Nil
  have "linked_list_pop l (unlocked (l_mutex L) s) = Done () (unlocked (l_mutex L)
    (s\<lparr>nodes := unlinked_nodes p e (nodes s), lists := (lists s)(l \<mapsto> removed_list xs [] L)\<rparr>))"
    using pop_eq [of "unlocked (l_mutex L) s" l L xs p e] ok Nil rdy sp e
    by (simp add: ready_with_mutex split_ok_locks)
  then show ?thesis using Nil list_okD [OF ok] list_ok_around(1) [OF ok] rdy
    by (simp add: linked_list_removeEntry_def list_lock_ok list_unlock_ok ready_with_mutex ret_def)
next
  case (Cons y zs)
  note D = list_okD [OF ok] and A = list_ok_around [OF ok]
  let ?prv = "last_or (l_head L) xs"
  from list_ok_split(1) [OF ok] e Cons have el: "e_previous e = ?prv" "e_next e = y" by auto
  obtain f where f: "nodes s ?prv = Some f" using list_ok_split(3) [OF ok] by blast
  obtain g where g: "nodes s y = Some g" using list_ok_split(5) [OF ok] Cons by auto
  have ne: "p \<noteq> ?prv" "p \<noteq> y" "y \<noteq> ?prv" "y \<noteq> NULL" "l_lastEntry L \<noteq> p"
    using A Cons last_or_in [of "l_head L" xs] D(10) last_or_in [of y zs]
    by (auto simp: last_or_append)
  have first: "(l_firstEntry L = p) = (xs = [])" using D(9) A(2) by (cases xs) auto
  have main: "linked_list_removeEntry l p s = Done True (unlocked (l_mutex L)
      (s\<lparr>nodes := unlinked_nodes p e (nodes s),
         lists := (if xs = [] then (lists s)(l \<mapsto> L\<lparr>l_firstEntry := y\<rparr>) else lists s)\<rparr>))"
    using D(1,2,10) A(1,5) rdy e el f g ne first Cons
    by (cases "xs = []")
       (simp_all add: linked_list_removeEntry_def list_lock_ok list_unlock_ok ret_def domIff
         linked_list_entry_destroy_def plat_free_node_of [OF sp] ready_with_mutex
         unlinked_nodes_def Let_def)
  have "(if xs = [] then (lists s)(l \<mapsto> L\<lparr>l_firstEntry := y\<rparr>) else lists s)
      = (lists s)(l \<mapsto> removed_list xs ys L)"
    using removed_list_cases(3,4) [OF ok] Cons D(2) by (cases "xs = []") (simp_all add: fun_upd_idem)
  then show ?thesis by (simp only: main)
qed

section \<open>Looking an entry up\<close>

text \<open>The three search callbacks meet the search contract.\<close>

interpretation ptr_search: searcher linked_list_searchForPointer "\<lambda>key i e. e_data e = key"
  by unfold_locales (simp add: linked_list_searchForPointer_def linked_list_entry_getData_def ret_def)

interpretation index_search: searcher linked_list_searchForIndex "\<lambda>arg i e. arg = Some i"
  by unfold_locales (auto simp: linked_list_searchForIndex_def ret_def split: option.split)

interpretation id_search: searcher linked_list_searchForId "\<lambda>arg i e. arg = Some (e_block_id e)"
  by unfold_locales
    (auto simp: linked_list_searchForId_def linked_list_entry_getBlockId_def ret_def split: option.split)

text \<open>\<open>lookup P h ns\<close>: the address of the first entry satisfying \<open>P\<close>, null if none does.\<close>

definition lookup :: "(linked_list_entry_t \<Rightarrow> bool) \<Rightarrow> (ptr \<rightharpoonup> linked_list_entry_t) \<Rightarrow> ptr list \<Rightarrow> ptr" where
  "lookup P h ns = find_from (\<lambda>_. P) h 0 ns"

lemma find_from_const: "find_from (\<lambda>_. P) h i ns = find_from (\<lambda>_. P) h j ns"
  by (induction ns arbitrary: i j) auto

lemma lookup_simps [simp]:
  "lookup P h [] = NULL"
  "lookup P h (p # ps) = (if P (the (h p)) then p else lookup P h ps)"
  using find_from_const [of P h 1 ps 0] by (simp_all add: lookup_def)

lemma lookup_NULL_iff: "NULL \<notin> set ns \<Longrightarrow> lookup P h ns = NULL \<longleftrightarrow> (\<forall>p \<in> set ns. \<not> P (the (h p)))"
  by (induction ns) auto

lemma lookup_in: "lookup P h ns \<noteq> NULL \<Longrightarrow> lookup P h ns \<in> set ns \<and> P (the (h (lookup P h ns)))"
  by (induction ns) auto

lemma lookup_split:
  "\<lbrakk>lookup P h ns = r; r \<noteq> NULL\<rbrakk> \<Longrightarrow>
   \<exists>xs ys. ns = xs @ r # ys \<and> P (the (h r)) \<and> (\<forall>q \<in> set xs. \<not> P (the (h q)))"
proof (induction ns)
  case (Cons p ps)
  show ?case
  proof (cases "P (the (h p))")
    case True
    with Cons.prems show ?thesis by (intro exI [of _ "[]"] exI [of _ ps]) simp
  next
    case False
    with Cons.prems have "lookup P h ps = r" by simp
    from Cons.IH [OF this Cons.prems(2)] obtain xs ys
      where "ps = xs @ r # ys" "P (the (h r))" "\<forall>q \<in> set xs. \<not> P (the (h q))" by blast
    with False show ?thesis by (intro exI [of _ "p # xs"] exI [of _ ys]) simp
  qed
qed simp

lemma lookup_unique:
  "\<lbrakk>NULL \<notin> set ns; p \<in> set ns; P (the (h p)); \<And>q. q \<in> set ns \<Longrightarrow> P (the (h q)) \<Longrightarrow> q = p\<rbrakk>
   \<Longrightarrow> lookup P h ns = p"
  using lookup_NULL_iff [of ns P h] lookup_in [of P h ns] by blast

lemma lookup_cong:
  "(\<And>p. p \<in> set ns \<Longrightarrow> P (the (h p)) = Q (the (h' p))) \<Longrightarrow> lookup P h ns = lookup Q h' ns"
  by (induction ns) auto

definition bump :: "linked_list_entry_t \<Rightarrow> linked_list_entry_t" where
  "bump e = e\<lparr>e_weight := e_weight e + 1\<rparr>"

text \<open>The state after a successful lookup: \<open>lastAccess\<close> set and the entry's weight bumped.\<close>

definition accessed :: "ptr \<Rightarrow> linked_list_t \<Rightarrow> ptr \<Rightarrow> machine \<Rightarrow> machine" where
  "accessed l L p s = s\<lparr>lists := (lists s)(l \<mapsto> L\<lparr>l_lastAccess := p\<rparr>),
     nodes := (nodes s)(p \<mapsto> bump (the (nodes s p)))\<rparr>"

lemma note_access_eq:
  assumes "lists s l = Some L" "ready (l_mutex L) s" "nodes s p = Some e"
  shows "note_access l p s = Done () (unlocked (l_mutex L) (accessed l L p s))"
  using assms
  by (simp add: note_access_def list_lock_ok list_unlock_ok ready_with_mutex accessed_def bump_def)

lemma accessed_locks [simp]:
  "accessed l L p (locked m s) = locked m (accessed l L p s)"
  "accessed l L p (unlocked m s) = unlocked m (accessed l L p s)"
  by (simp_all add: accessed_def)

lemma list_ok_accessed:
  assumes "list_ok s l L ns" "p \<in> set ns"
  shows "list_ok (accessed l L p s) l (L\<lparr>l_lastAccess := p\<rparr>) ns"
proof -
  from list_ok_node [OF assms] obtain e where e: "nodes s p = Some e" by blast
  have "list_ok (s\<lparr>lists := (lists s)(l \<mapsto> L\<lparr>l_lastAccess := p\<rparr>)\<rparr>) l (L\<lparr>l_lastAccess := p\<rparr>) ns"
    by (rule list_ok_lastAccess [OF assms(1)])
  from list_ok_upd_node [OF this, of p e "bump e"] e show ?thesis
    by (simp add: accessed_def bump_def)
qed

lemma after_walk_found: "lookup P h ns \<noteq> NULL \<Longrightarrow> after_walk L ns s = unlocked (l_mutex L) s"
  by (cases ns) (simp_all add: after_walk_def)

lemma lookup_live:
  assumes "list_ok s l L ns" "lookup P (nodes s) ns \<noteq> NULL"
  obtains e where "nodes s (lookup P (nodes s) ns) = Some e"
  using list_ok_node [OF assms(1)] lookup_in [OF assms(2)] by blast

lemma getByPtr_eq:
  assumes ok: "list_ok s l L ns" and rdy: "ready (l_mutex L) s" and key: "key \<noteq> NULL"
  defines "p \<equiv> lookup (\<lambda>e. e_data e = key) (nodes s) ns"
  shows "linked_list_getByPtr l key s =
    (if p = NULL then Done NULL (after_walk L ns s)
     else Done p (unlocked (l_mutex L) (accessed l L p s)))"
proof (cases "p = NULL")
  case True
  then show ?thesis
    using ptr_search.forEach_finds [OF ok rdy, of key] list_okD(1) [OF ok] key
    by (simp add: linked_list_getByPtr_def p_def lookup_def ret_def)
next
  case False
  obtain e where e: "nodes s p = Some e" using lookup_live [OF ok] False p_def by metis
  show ?thesis
    using ptr_search.forEach_finds [OF ok rdy, of key] list_okD(1,2) [OF ok] key False e rdy
      after_walk_found [of "\<lambda>e. e_data e = key" "nodes s" ns L s]
    by (simp add: linked_list_getByPtr_def p_def lookup_def ret_def note_access_eq ready_with_mutex)
qed

lemma hasPtr_eq:
  assumes ok: "list_ok s l L ns" and rdy: "ready (l_mutex L) s" and key: "key \<noteq> NULL"
  defines "p \<equiv> lookup (\<lambda>e. e_data e = key) (nodes s) ns"
  shows "linked_list_hasPtr l key s =
    (if p = NULL then Done False (unlocked (l_mutex L) s)
     else Done True (unlocked (l_mutex L) (s\<lparr>lists := (lists s)(l \<mapsto> L\<lparr>l_lastAccess := p\<rparr>)\<rparr>)))"
proof -
  have "linked_list_forEach l linked_list_searchForPointer key (locked (l_mutex L) s) =
      Done (p, key) (after_walk L ns (locked (l_mutex L) s))"
    using ptr_search.forEach_finds [of "locked (l_mutex L) s" l L ns key] ok rdy
    by (simp add: p_def lookup_def ready_with_mutex)
  then show ?thesis using list_okD(1,2) [OF ok] key rdy
    by (simp add: linked_list_hasPtr_def list_lock_ok list_unlock_ok ready_with_mutex ret_def
        after_walk_def)
qed

text \<open>A failed search by id in an empty list leaves the mutex taken.\<close>

lemma getById_eq:
  fixes i :: block_id_t
  assumes ok: "list_ok s l L ns" and rdy: "ready (l_mutex L) s"
  defines "p \<equiv> lookup (\<lambda>e. e_block_id e = i) (nodes s) ns"
  shows "linked_list_getById l i s =
    (if p = NULL then Done NULL (if ns = [] then locked (l_mutex L) s else unlocked (l_mutex L) s)
     else Done p (unlocked (l_mutex L) (accessed l L p s)))"
proof -
  have walk: "linked_list_forEach l linked_list_searchForId (Some i) (locked (l_mutex L) s) =
      Done (p, Some i) (after_walk L ns (locked (l_mutex L) s))"
    using id_search.forEach_finds [of "locked (l_mutex L) s" l L ns "Some i"] ok rdy
    by (simp add: p_def lookup_def ready_with_mutex eq_commute)
  show ?thesis
  proof (cases "p = NULL")
    case True
    then show ?thesis using walk list_okD(1,2) [OF ok] rdy
      by (simp add: linked_list_getById_def list_lock_ok ret_def after_walk_def)
  next
    case False
    obtain e where e: "nodes s p = Some e" using lookup_live [OF ok] False p_def by metis
    have "ns \<noteq> []" using False by (auto simp: p_def)
    then show ?thesis using walk list_okD(1,2) [OF ok] rdy False e
      by (simp add: linked_list_getById_def list_lock_ok ret_def after_walk_def note_access_eq
          ready_with_mutex)
  qed
qed

text \<open>Removal by key: the first entry with that data pointer, if there is one.\<close>

lemma removeEntryByPtr_eq:
  assumes ok: "list_ok s l L (xs @ p # ys)" and rdy: "ready (l_mutex L) s" and sp: "split_ok s"
    and key: "key \<noteq> NULL" and e: "nodes s p = Some e" "e_data e = key"
    and first: "\<forall>q \<in> set xs. e_data (the (nodes s q)) \<noteq> key"
  shows "linked_list_removeEntryByPtr l key s = Done () (unlocked (l_mutex L)
    (s\<lparr>nodes := unlinked_nodes p e (nodes s), lists := (lists s)(l \<mapsto> removed_list xs ys L)\<rparr>))"
proof -
  let ?P = "\<lambda>e. e_data e = key"
  have "lookup ?P (nodes s) (xs @ p # ys) = p" using first e by (induction xs) auto
  then have "linked_list_forEach l linked_list_searchForPointer key (locked (l_mutex L) s) =
      Done (p, key) (unlocked (l_mutex L) s)"
    using ptr_search.forEach_finds [of "locked (l_mutex L) s" l L "xs @ p # ys" key] ok rdy
    by (simp add: lookup_def ready_with_mutex after_walk_def)
  moreover have "linked_list_removeEntry l p (unlocked (l_mutex L) s) = Done True (unlocked (l_mutex L)
    (s\<lparr>nodes := unlinked_nodes p e (nodes s), lists := (lists s)(l \<mapsto> removed_list xs ys L)\<rparr>))"
    using removeEntry_eq [of "unlocked (l_mutex L) s" l L xs p ys e] ok rdy sp e
    by (simp add: ready_with_mutex split_ok_locks)
  ultimately show ?thesis using list_okD(1,2) [OF ok] key rdy
    by (simp add: linked_list_removeEntryByPtr_def list_lock_ok list_unlock_ok ready_with_mutex)
qed

lemma removeEntryByPtr_none:
  assumes ok: "list_ok s l L ns" and rdy: "ready (l_mutex L) s" and key: "key \<noteq> NULL"
    and none: "\<forall>q \<in> set ns. e_data (the (nodes s q)) \<noteq> key"
  shows "linked_list_removeEntryByPtr l key s = Done () (unlocked (l_mutex L) s)"
proof -
  have "lookup (\<lambda>e. e_data e = key) (nodes s) ns = NULL"
    using lookup_NULL_iff [OF list_okD(5) [OF ok]] none by blast
  then have "linked_list_forEach l linked_list_searchForPointer key (locked (l_mutex L) s) =
      Done (NULL, key) (after_walk L ns (locked (l_mutex L) s))"
    using ptr_search.forEach_finds [of "locked (l_mutex L) s" l L ns key] ok rdy
    by (simp add: lookup_def ready_with_mutex)
  then show ?thesis using list_okD(1,2) [OF ok] key rdy
    by (simp add: linked_list_removeEntryByPtr_def list_lock_ok list_unlock_ok ready_with_mutex
        linked_list_removeEntry_def ret_def after_walk_def)
qed

text \<open>Search by position.\<close>

lemma find_index:
  "\<lbrakk>unat i + length ns < 2 ^ 64; unat i \<le> unat k\<rbrakk> \<Longrightarrow>
   find_from (\<lambda>j e. Some k = Some j) h i ns =
     (if unat k < unat i + length ns then ns ! (unat k - unat i) else NULL)"
proof (induction ns arbitrary: i)
  case (Cons p ps)
  show ?case
  proof (cases "k = i")
    case False
    then have lt: "unat i < unat k" using Cons.prems(2) by (metis le_neq_implies_less unsigned_word_eqI)
    have "i \<noteq> - 1" using counter_not_max [of i "length (p # ps)"] Cons.prems(1) by simp
    then have S: "unat (i + 1) = Suc (unat i)" by (rule unat_Suc_word)
    have "unat k - unat i = Suc (unat k - Suc (unat i))" using lt by simp
    then show ?thesis using False Cons.IH [of "i + 1"] Cons.prems lt S by simp
  qed simp
qed simp

lemma getByIndex_value:
  assumes ok: "list_ok s l L ns" and rdy: "ready (l_mutex L) s"
  shows "runs (linked_list_getByIndex l i) s
    (\<lambda>r _. r = (if unat i < length ns then ns ! unat i else NULL))"
proof -
  note D = list_okD [OF ok]
  have len: "unat (0 :: size_t) + length ns < 2 ^ 64" using list_ok_length [OF ok] by simp
  let ?p = "if unat i < length ns then ns ! unat i else NULL"
  have find: "find_from (\<lambda>j e. Some i = Some j) (nodes s) 0 ns = ?p"
    using find_index [OF len, of i "nodes s"] by simp
  have short: "l_len L < i \<Longrightarrow> ?p = NULL"
    using D(11) by (simp add: word_less_nat_alt)
  show ?thesis
  proof (cases "?p = NULL")
    case True
    then show ?thesis
      using index_search.forEach_finds [OF ok rdy, of "Some i"] D(1,2) find
      by (simp add: linked_list_getByIndex_def linked_list_getSize_def runs_def ret_def)
  next
    case False
    then have in_ns: "?p \<in> set ns" by (auto split: if_splits)
    obtain e where e: "nodes s ?p = Some e" using list_ok_node [OF ok in_ns] by blast
    have "ns \<noteq> []" "\<not> l_len L < i" using in_ns False short by auto
    then show ?thesis
      using False index_search.forEach_finds [OF ok rdy, of "Some i"] D(1,2) find e rdy
      by (simp add: linked_list_getByIndex_def linked_list_getSize_def runs_def ret_def
          note_access_eq ready_with_mutex after_walk_def)
  qed
qed

section \<open>Construction and destruction\<close>

text \<open>A new list: three allocations succeed (list object, head entry, mutex).\<close>

definition fresh_head :: "tid_t \<Rightarrow> linked_list_entry_t" where
  "fresh_head t = (new_entry NULL NULL 0 t)\<lparr>e_isHead := True\<rparr>"

definition fresh_list :: "ptr \<Rightarrow> ptr \<Rightarrow> linked_list_t" where
  "fresh_list h m = zero_list\<lparr>l_head := h, l_lastEntry := h, l_firstEntry := h, l_mutex := m\<rparr>"

lemma list_ok_fresh:
  "\<lbrakk>l \<noteq> NULL; h \<noteq> NULL; lists s l = Some (fresh_list h m); nodes s h = Some (fresh_head t)\<rbrakk>
   \<Longrightarrow> list_ok s l (fresh_list h m) []"
  by (simp add: list_ok_def fresh_list_def fresh_head_def zero_list_def new_entry_def zero_entry_def)

text \<open>
  The sweep of \<open>linked_list_destroy\<close>: every entry it has passed is gone, nothing else has
  changed since the list was locked.
\<close>

definition destroying :: "ptr \<Rightarrow> ptr \<Rightarrow> machine \<Rightarrow> ptr list \<Rightarrow> ptr list \<Rightarrow> size_t \<Rightarrow> unit \<Rightarrow> machine \<Rightarrow> bool" where
  "destroying l m s0 ns rest i g s \<longleftrightarrow>
     (\<exists>L gone. list_ok s0 l L ns \<and> l_mutex L = m \<and> ready m s0 \<and> split_ok s0 \<and> ns = gone @ rest \<and>
        s = locked m (s0\<lparr>nodes := (nodes s0) |` (- set gone)\<rparr>))"

lemma list_ok_suffix:
  assumes ok: "list_ok s l L (gone @ p # rest)"
  shows "\<exists>e. nodes s p = Some e \<and> e_next e = hd_or NULL rest" "p \<noteq> NULL" "p \<notin> set gone"
    "p \<noteq> l_head L"
  using list_ok_split(1) [OF ok] list_ok_around(1,2) [OF ok] by auto

lemma restrict_UNIV [simp]: "m |` UNIV = m"
  by (simp add: restrict_map_def)

lemma dom_restrict_sub: "dom (m |` A) \<subseteq> dom m"
  by (auto simp: restrict_map_def split: if_splits)

interpretation list_destroyer: visitor pri_listDestroyer l m "destroying l m s0 ns" for l m s0 ns
proof unfold_locales
  fix p rest i g s
  assume "destroying l m s0 ns (p # rest) i g s"
  then obtain L gone where I: "list_ok s0 l L (gone @ p # rest)" "l_mutex L = m" "ready m s0"
      "split_ok s0" "ns = gone @ p # rest" "s = locked m (s0\<lparr>nodes := (nodes s0) |` (- set gone)\<rparr>)"
    by (auto simp: destroying_def)
  note S = list_ok_suffix [OF I(1)]
  obtain e where e: "nodes s0 p = Some e" "e_next e = hd_or NULL rest" using S(1) by blast
  show "p \<noteq> NULL \<and> (\<exists>e. nodes s p = Some e \<and> e_next e = hd_or NULL rest)"
    using S(2,3) e I(6) by simp
  have restr: "((nodes s0) |` (- set gone))(p := None) = (nodes s0) |` (- set (gone @ [p]))"
    by (auto simp: restrict_map_def fun_eq_iff)
  have "linked_list_entry_destroy p s = Done () (locked m (s0\<lparr>nodes := (nodes s0) |` (- set (gone @ [p]))\<rparr>))"
    using plat_free_node_of [OF I(4), of s p e] S(2,3) e I(3,6) restr dom_restrict_sub
    by (simp add: linked_list_entry_destroy_def)
  then show "runs (pri_listDestroyer l p i g) s (\<lambda>(t, g') s'. t = NULL \<and> ready m s' \<and>
      (\<exists>L. lists s' l = Some L \<and> l_mutex L = m) \<and> destroying l m s0 ns rest (i + 1) g' (locked m s'))"
    using I list_okD(2) [OF I(1)]
    by (auto simp: pri_listDestroyer_def runs_def ret_def destroying_def ready_with_mutex
        intro!: exI [of _ L] exI [of _ "gone @ [p]"])
next
  fix i g s
  assume "destroying l m s0 ns [] i g s"
  then show "ready m s \<and> (\<exists>L. lists s l = Some L \<and> l_mutex L = m)"
    by (auto simp: destroying_def ready_with_mutex dest: list_okD(2))
qed

lemma destroy_sweep:
  assumes ok: "list_ok s l L ns" and rdy: "ready (l_mutex L) s" and sp: "split_ok s"
  shows "linked_list_forEach l pri_listDestroyer () s =
    Done (NULL, ()) (after_walk L ns (s\<lparr>nodes := (nodes s) |` (- set ns)\<rparr>))"
proof (cases "ns = []")
  case True
  then show ?thesis using forEach_empty [of s l L pri_listDestroyer "()"] ok rdy
    by (simp add: restrict_map_def)
next
  case False
  have "destroying l (l_mutex L) s ns ns 0 () (locked (l_mutex L) s)"
    using ok rdy sp by (auto simp: destroying_def intro!: exI [of _ L] exI [of _ "[]"])
  from list_destroyer.forEach_visits [OF ok False refl rdy this] show ?thesis
    using False by (auto simp: runs_def destroying_def after_walk_def)
qed

lemma after_walk_fields [simp]:
  "nodes (after_walk L ns s) = nodes s" "lists (after_walk L ns s) = lists s"
  "managers (after_walk L ns s) = managers s" "blocks (after_walk L ns s) = blocks s"
  "current (after_walk L ns s) = current s" "cfg_mutex (after_walk L ns s) = cfg_mutex s"
  by (simp_all add: after_walk_def)

lemma after_walk_ready: "ready m s \<Longrightarrow> ready m (after_walk L ns s)"
  by (simp add: after_walk_def ready_with_mutex)

lemma after_walk_split: "ready (l_mutex L) s \<Longrightarrow> split_ok s \<Longrightarrow> split_ok (after_walk L ns s)"
  by (simp add: after_walk_def split_ok_locks)

text \<open>Freeing a mutex forgets its lock state.\<close>

definition without_mutex :: "ptr \<Rightarrow> machine \<Rightarrow> machine" where
  "without_mutex m s = (if m = NULL then s else s\<lparr>mutexes := (mutexes s)(m := None)\<rparr>)"

lemma without_mutex_locks [simp]:
  "ready m s \<Longrightarrow> without_mutex m (locked m s) = without_mutex m s"
  "ready m s \<Longrightarrow> without_mutex m (unlocked m s) = without_mutex m s"
  by (auto simp: without_mutex_def locked_def unlocked_def with_mutex_def)

lemma without_mutex_after_walk:
  "ready (l_mutex L) s \<Longrightarrow> without_mutex (l_mutex L) (after_walk L ns s) = without_mutex (l_mutex L) s"
  by (simp add: after_walk_def)

lemma mutex_destroy_eq:
  assumes "split_ok s" "m \<noteq> NULL \<Longrightarrow> mutexes s m \<noteq> None"
  shows "plat_mutex_destroy m s = Done () (without_mutex m s)"
proof (cases "m = NULL")
  case False
  then obtain x where "mutexes s m = Some x" using assms(2) by blast
  then show ?thesis using plat_free_mutex [OF assms(1)] False
    by (simp add: plat_mutex_destroy_def without_mutex_def)
qed (simp add: plat_mutex_destroy_def without_mutex_def)

lemma destroy_eq:
  assumes ok: "list_ok s l L ns" and rdy: "ready (l_mutex L) s" and sp: "split_ok s"
    and mx: "l_mutex L \<noteq> NULL \<Longrightarrow> mutexes s (l_mutex L) \<noteq> None"
  shows "linked_list_destroy l s = Done () (without_mutex (l_mutex L)
    (s\<lparr>nodes := (nodes s) |` (- set (l_head L # ns)), lists := (lists s)(l := None)\<rparr>))"
proof -
  note D = list_okD [OF ok]
  let ?R = "(nodes s) |` (- set ns)" and ?m = "l_mutex L"
  let ?S1 = "after_walk L ns (s\<lparr>nodes := ?R\<rparr>)"
  obtain e where e: "nodes s (l_head L) = Some e" using list_ok_head [OF ok] by blast
  have R': "?R(l_head L := None) = (nodes s) |` (- set (l_head L # ns))"
    by (auto simp: restrict_map_def fun_eq_iff)
  have sp0: "split_ok (s\<lparr>nodes := N\<rparr>)" if "dom N \<subseteq> dom (nodes s)" for N
    by (rule split_ok_cong [OF sp]) (simp_all add: that)
  have sp1: "split_ok ?S1" using rdy by (intro after_walk_split sp0 dom_restrict_sub) simp
  let ?S2 = "?S1\<lparr>nodes := (nodes s) |` (- set (l_head L # ns))\<rparr>"
  have 1: "linked_list_entry_destroy (l_head L) ?S1 = Done () ?S2"
    using plat_free_node [OF sp1, of "l_head L" e] e D(6,7) R' by (simp add: linked_list_entry_destroy_def)
  have S2: "?S2 = after_walk L ns (s\<lparr>nodes := (nodes s) |` (- set (l_head L # ns))\<rparr>)"
    by (simp add: after_walk_def)
  have sp2: "split_ok ?S2" unfolding S2 using rdy by (intro after_walk_split sp0 dom_restrict_sub) simp
  have "?m \<noteq> NULL \<Longrightarrow> mutexes ?S2 ?m \<noteq> None"
    using mx by (auto simp: after_walk_def locked_def unlocked_def with_mutex_def)
  then have 2: "plat_mutex_destroy ?m ?S2 = Done () (without_mutex ?m ?S2)"
    by (rule mutex_destroy_eq [OF sp2])
  let ?S3 = "without_mutex ?m (s\<lparr>nodes := (nodes s) |` (- set (l_head L # ns))\<rparr>)"
  have S3: "without_mutex ?m ?S2 = ?S3"
    unfolding S2 using rdy by (simp add: without_mutex_after_walk)
  have sp3: "split_ok ?S3"
    using sp0 [OF dom_restrict_sub] by (rule split_ok_cong) (auto simp: without_mutex_def)
  have "plat_free l ?S3 = Done () (?S3\<lparr>lists := (lists s)(l := None)\<rparr>)"
    using plat_free_list [OF sp3, of l L] D(1,2) by (simp add: without_mutex_def split: if_splits)
  moreover have "?S3\<lparr>lists := (lists s)(l := None)\<rparr> = without_mutex ?m
      (s\<lparr>nodes := (nodes s) |` (- set (l_head L # ns)), lists := (lists s)(l := None)\<rparr>)"
    by (simp add: without_mutex_def)
  ultimately show ?thesis
    using destroy_sweep [OF ok rdy sp] 1 2 S3 D(1,2) by (simp add: linked_list_destroy_def)
qed

end
