(* ===== verification/List_Fold.thy ===== *)
theory List_Fold
  imports Linked_List
begin

text \<open>
  Callbacks of \<open>linked_list_forEach\<close> that only read the entry they are given and update the
  caller's object: the traversal is then a fold over the entries.
\<close>

definition fold_entries :: "('g \<Rightarrow> ptr \<Rightarrow> linked_list_entry_t \<Rightarrow> 'g) \<Rightarrow> (ptr \<rightharpoonup> linked_list_entry_t) \<Rightarrow> ptr list \<Rightarrow> 'g \<Rightarrow> 'g" where
  "fold_entries f h ns g = fold (\<lambda>p g. f g p (the (h p))) ns g"

lemma fold_entries_simps [simp]:
  "fold_entries f h [] g = g"
  "fold_entries f h (p # ns) g = fold_entries f h ns (f g p (the (h p)))"
  "fold_entries f h (ms @ ns) g = fold_entries f h ns (fold_entries f h ms g)"
  by (simp_all add: fold_entries_def)

text \<open>The walk in the middle: \<open>gone\<close> has been folded, nothing else has changed.\<close>

definition folding :: "('g \<Rightarrow> ptr \<Rightarrow> linked_list_entry_t \<Rightarrow> 'g) \<Rightarrow> ptr \<Rightarrow> ptr \<Rightarrow> machine \<Rightarrow> ptr list \<Rightarrow> 'g \<Rightarrow>
    ptr list \<Rightarrow> size_t \<Rightarrow> 'g \<Rightarrow> machine \<Rightarrow> bool" where
  "folding f l m s0 ns g0 rest i g s \<longleftrightarrow>
     (\<exists>L gone. list_ok s0 l L ns \<and> l_mutex L = m \<and> ready m s0 \<and> ns = gone @ rest \<and> s = locked m s0 \<and>
        g = fold_entries f (nodes s0) gone g0)"

lemma folding_next:
  assumes "folding f l m s0 ns g0 (p # rest) i g s"
  obtains e where "p \<noteq> NULL" "nodes s p = Some e" "e_next e = hd_or NULL rest" "ready m s"
    "\<exists>L. lists s l = Some L \<and> l_mutex L = m"
    "folding f l m s0 ns g0 rest (i + 1) (f g p e) (locked m s)"
proof -
  obtain L gone where I: "list_ok s0 l L (gone @ p # rest)" "l_mutex L = m" "ready m s0"
      "ns = gone @ p # rest" "s = locked m s0" "g = fold_entries f (nodes s0) gone g0"
    using assms unfolding folding_def by blast
  obtain e where e: "nodes s0 p = Some e" "e_next e = hd_or NULL rest" using list_ok_suffix(1) [OF I(1)] by blast
  have "folding f l m s0 ns g0 rest (i + 1) (f g p e) (locked m s)"
    unfolding folding_def using I e by (intro exI [of _ L] exI [of _ "gone @ [p]"]) simp
  then show ?thesis using that [of e] I e list_okD(2) [OF I(1)] list_ok_suffix(2) [OF I(1)]
    by (simp add: ready_with_mutex)
qed

locale folder =
  fixes worker :: "'g worker" and f :: "'g \<Rightarrow> ptr \<Rightarrow> linked_list_entry_t \<Rightarrow> 'g"
  assumes folds: "\<lbrakk>nodes s p = Some e; p \<noteq> NULL\<rbrakk> \<Longrightarrow> worker l p i g s = Done (NULL, f g p e) s"

sublocale folder \<subseteq> visitor worker l m "folding f l m s0 ns g0" for l m s0 ns g0
proof unfold_locales
  fix p rest i g s
  assume I: "folding f l m s0 ns g0 (p # rest) i g s"
  obtain e where e: "p \<noteq> NULL" "nodes s p = Some e" "e_next e = hd_or NULL rest" "ready m s"
      "\<exists>L. lists s l = Some L \<and> l_mutex L = m" "folding f l m s0 ns g0 rest (i + 1) (f g p e) (locked m s)"
    by (rule folding_next [OF I])
  show "p \<noteq> NULL \<and> (\<exists>e. nodes s p = Some e \<and> e_next e = hd_or NULL rest)" using e by blast
  show "runs (worker l p i g) s (\<lambda>(r, g') s'. r = NULL \<and> ready m s' \<and>
      (\<exists>L. lists s' l = Some L \<and> l_mutex L = m) \<and> folding f l m s0 ns g0 rest (i + 1) g' (locked m s'))"
    using e folds [OF e(2,1)] by (simp add: runs_def)
next
  fix i g s
  assume "folding f l m s0 ns g0 [] i g s"
  then show "ready m s \<and> (\<exists>L. lists s l = Some L \<and> l_mutex L = m)"
    by (auto simp: folding_def ready_with_mutex dest: list_okD(2))
qed

context folder
begin

lemma forEach_folds:
  assumes ok: "list_ok s l L ns" and rdy: "ready (l_mutex L) s"
  shows "linked_list_forEach l worker g s = Done (NULL, fold_entries f (nodes s) ns g) (after_walk L ns s)"
proof (cases "ns = []")
  case True
  then show ?thesis using forEach_empty [of s l L worker g] ok rdy by simp
next
  case False
  have "folding f l (l_mutex L) s ns g ns 0 g (locked (l_mutex L) s)"
    unfolding folding_def using ok rdy by (intro exI [of _ L] exI [of _ "[]"]) simp
  from forEach_visits [OF ok False refl rdy this] show ?thesis
    using False by (auto simp: runs_def folding_def after_walk_def)
qed

end

end
