(* ===== verification/Alloc_Manager.thy ===== *)
theory Alloc_Manager
  imports List_Fold
begin

text \<open>
  \<open>alloc_manager_c.c\<close>: the manager object with its five-slot lookup cache, the pass that
  fills the cache while the list is walked, and the byte accounting behind the allocation
  limit. The definitions come first, in the order of the file.
\<close>

section \<open>The operations\<close>

definition memman_new :: "ptr \<Rightarrow> ptr lib" where
  "memman_new mutex_ref =
     bnd (plat_malloc sizeof_alloc_manager_t) (\<lambda>self.
     if self = NULL then sn_crash SN_ERR_CATASTROPHIC
     else
       bnd (zero_manager_at self) (\<lambda>_.
       bnd (upd_manager self (\<lambda>M. M\<lparr>m_available_cache_slots := of_nat MEMMAN_MAX_CACHE_SLOTS\<rparr>)) (\<lambda>_.
       bnd (upd_manager self (\<lambda>M. M\<lparr>m_global_memory_usage := MEMMAN_NO_ALLOC_LIMIT\<rparr>)) (\<lambda>_.
       bnd (upd_manager self (\<lambda>M. M\<lparr>m_cache_lock := False\<rparr>)) (\<lambda>_.
       bnd (upd_manager self (\<lambda>M. M\<lparr>m_use_cache := True\<rparr>)) (\<lambda>_.
       bnd (upd_manager self (\<lambda>M. M\<lparr>m_mutex_ref := mutex_ref\<rparr>)) (\<lambda>_.
       ret self)))))))"

definition memman_destroy :: "ptr \<Rightarrow> unit lib" where
  "memman_destroy self = (if self = NULL then ret () else plat_free self)"

text \<open>Reading and writing \<open>cache_list[i]\<close>.\<close>

definition slot :: "alloc_manager_t \<Rightarrow> nat \<Rightarrow> cache_pair_t" where
  "slot M i = m_cache_list M ! i"

definition upd_slot :: "ptr \<Rightarrow> nat \<Rightarrow> (cache_pair_t \<Rightarrow> cache_pair_t) \<Rightarrow> unit lib" where
  "upd_slot self i f = upd_manager self (\<lambda>M. M\<lparr>m_cache_list := (m_cache_list M)[i := f (m_cache_list M ! i)]\<rparr>)"

text \<open>The three assignments with which the worker puts an entry in a slot.\<close>

definition worker_put :: "ptr \<Rightarrow> nat \<Rightarrow> ptr \<Rightarrow> unit lib" where
  "worker_put self i ctx =
     bnd (upd_slot self i (\<lambda>c. c\<lparr>cp_value := ctx\<rparr>)) (\<lambda>_.
     bnd (load_manager self) (\<lambda>M.
     bnd (upd_node (cp_value (slot M i)) (\<lambda>e. e\<lparr>e_cached := True\<rparr>)) (\<lambda>_.
     bnd (load_node ctx) (\<lambda>e.
     upd_slot self i (\<lambda>c. c\<lparr>cp_key := e_data e\<rparr>)))))"

definition memman_CacheAlgorithmWorker :: "ptr worker" where
  "memman_CacheAlgorithmWorker self ctx index man =
     (if man = NULL then ret (NULL, man)
      else
        bnd (load_node ctx) (\<lambda>e.
        if e_weight e \<le> 10 then
          bnd (upd_node ctx (\<lambda>e. e\<lparr>e_weight := 0\<rparr>)) (\<lambda>_.
          bnd (upd_node ctx (\<lambda>e. e\<lparr>e_cached := True\<rparr>)) (\<lambda>_.
          bnd (for_idx [0..<MEMMAN_MAX_CACHE_SLOTS] (\<lambda>i.
            bnd (load_manager man) (\<lambda>M.
            if cp_value (slot M i) = NULL
            then bnd (worker_put man i ctx) (\<lambda>_. ret (Some ()))
            else
              bnd (load_node (cp_value (slot M i))) (\<lambda>v.
              if e_weight v < 10
              then bnd (worker_put man i ctx) (\<lambda>_. ret (Some ()))
              else ret None)))) (\<lambda>_.
          ret (NULL, man))))
        else ret (NULL, man)))"

definition manager_lock :: "ptr \<Rightarrow> unit lib" where
  "manager_lock self = bnd (load_manager self) (\<lambda>M. plat_mutex_lock (m_mutex_ref M))"

definition manager_unlock :: "ptr \<Rightarrow> unit lib" where
  "manager_unlock self = bnd (load_manager self) (\<lambda>M. plat_mutex_unlock (m_mutex_ref M))"

definition memman_work :: "ptr \<Rightarrow> ptr \<Rightarrow> unit lib" where
  "memman_work self list =
     (if self = NULL then ret ()
      else if list = NULL then ret ()
      else
        bnd (manager_lock self) (\<lambda>_.
        bnd (linked_list_forEach list memman_CacheAlgorithmWorker self) (\<lambda>_.
        manager_unlock self)))"

definition memman_TryCacheHit :: "ptr \<Rightarrow> ptr \<Rightarrow> ptr lib" where
  "memman_TryCacheHit self key =
     (if self = NULL then ret MEMMAN_CACHE_MISS
      else
        bnd (load_manager self) (\<lambda>M.
        if \<not> m_use_cache M then ret MEMMAN_CACHE_MISS
        else
          bnd (manager_lock self) (\<lambda>_.
          bnd (for_idx [0..<MEMMAN_MAX_CACHE_SLOTS] (\<lambda>i.
            bnd (load_manager self) (\<lambda>M.
            if cp_key (slot M i) = NULL then ret None
            else if cp_key (slot M i) = key then
              bnd (upd_node (cp_value (slot M i)) (\<lambda>e. e\<lparr>e_weight := e_weight e + 1\<rparr>)) (\<lambda>_.
              bnd (manager_unlock self) (\<lambda>_.
              ret (Some (cp_value (slot M i)))))
            else ret None))) (\<lambda>r.
          case r of
            Some v \<Rightarrow> ret v
          | None \<Rightarrow> bnd (manager_unlock self) (\<lambda>_. ret MEMMAN_CACHE_MISS)))))"

definition memman_TryCacheHitById :: "ptr \<Rightarrow> block_id_t \<Rightarrow> ptr lib" where
  "memman_TryCacheHitById self bid =
     (if self = NULL then ret MEMMAN_CACHE_MISS
      else
        bnd (load_manager self) (\<lambda>M.
        if \<not> m_use_cache M then ret MEMMAN_CACHE_MISS
        else
          bnd (manager_lock self) (\<lambda>_.
          bnd (for_idx [0..<MEMMAN_MAX_CACHE_SLOTS] (\<lambda>i.
            bnd (load_manager self) (\<lambda>M.
            if cp_value (slot M i) = NULL then ret None
            else
              bnd (load_node (cp_value (slot M i))) (\<lambda>v.
              if e_block_id v = bid then
                bnd (manager_unlock self) (\<lambda>_.
                ret (Some (cp_value (slot M i))))
              else ret None)))) (\<lambda>r.
          case r of
            Some v \<Rightarrow> ret v
          | None \<Rightarrow> bnd (manager_unlock self) (\<lambda>_. ret MEMMAN_CACHE_MISS)))))"

text \<open>Emptying slot \<open>i\<close>: mark its entry, count the slot as available, zero the pair.\<close>

definition drop_slot :: "ptr \<Rightarrow> nat \<Rightarrow> bool \<Rightarrow> unit lib" where
  "drop_slot self i mark =
     bnd (load_manager self) (\<lambda>M.
     bnd (upd_node (cp_value (slot M i)) (\<lambda>e. e\<lparr>e_cached := mark\<rparr>)) (\<lambda>_.
     bnd (upd_manager self (\<lambda>M. M\<lparr>m_available_cache_slots := m_available_cache_slots M + 1\<rparr>)) (\<lambda>_.
     upd_slot self i (\<lambda>_. zero_pair))))"

definition memman_cacheInvalidate :: "ptr \<Rightarrow> ptr \<Rightarrow> unit lib" where
  "memman_cacheInvalidate self key =
     (if self = NULL then ret ()
      else
        bnd (manager_lock self) (\<lambda>_.
        bnd (for_idx [0..<MEMMAN_MAX_CACHE_SLOTS] (\<lambda>i.
          bnd (load_manager self) (\<lambda>M.
          if cp_key (slot M i) = NULL then ret None
          else if cp_key (slot M i) = key
          then bnd (drop_slot self i False) (\<lambda>_. ret (None :: unit option))
          else ret None))) (\<lambda>_.
        manager_unlock self)))"

text \<open>Clearing marks the entries as cached, where invalidation marks them as not cached.\<close>

definition memman_cacheClear :: "ptr \<Rightarrow> unit lib" where
  "memman_cacheClear self =
     (if self = NULL then ret ()
      else
        bnd (manager_lock self) (\<lambda>_.
        bnd (for_idx [0..<MEMMAN_MAX_CACHE_SLOTS] (\<lambda>i.
          bnd (load_manager self) (\<lambda>M.
          if cp_key (slot M i) = NULL then ret None
          else bnd (drop_slot self i True) (\<lambda>_. ret (None :: unit option))))) (\<lambda>_.
        manager_unlock self)))"

definition memman_tryCachePut :: "ptr \<Rightarrow> ptr \<Rightarrow> bool lib" where
  "memman_tryCachePut self entry =
     (if self = NULL then ret False
      else
        bnd (load_manager self) (\<lambda>M.
        if m_cache_lock M \<or> \<not> m_use_cache M then ret False
        else if m_available_cache_slots M = 0 then ret False
        else
          bnd (manager_lock self) (\<lambda>_.
          bnd (for_idx [0..<MEMMAN_MAX_CACHE_SLOTS] (\<lambda>i.
            bnd (load_manager self) (\<lambda>M.
            if cp_key (slot M i) = NULL then
              bnd (upd_manager self (\<lambda>M. M\<lparr>m_available_cache_slots := m_available_cache_slots M - 1\<rparr>)) (\<lambda>_.
              bnd (load_node entry) (\<lambda>e.
              bnd (upd_slot self i (\<lambda>c. c\<lparr>cp_key := e_data e\<rparr>)) (\<lambda>_.
              bnd (upd_slot self i (\<lambda>c. c\<lparr>cp_value := entry\<rparr>)) (\<lambda>_.
              bnd (upd_node entry (\<lambda>e. e\<lparr>e_cached := True\<rparr>)) (\<lambda>_.
              bnd (manager_unlock self) (\<lambda>_.
              ret (Some True)))))))
            else ret None))) (\<lambda>r.
          case r of
            Some v \<Rightarrow> ret v
          | None \<Rightarrow> sn_crash SN_ERR_SYS_FAIL))))"

definition memman_getGlobalMemoryUsage :: "ptr \<Rightarrow> size_t lib" where
  "memman_getGlobalMemoryUsage self =
     (if self = NULL then ret 0 else bnd (load_manager self) (\<lambda>M. ret (m_global_memory_usage M)))"

definition memman_setGlobalMemoryUsage :: "ptr \<Rightarrow> size_t \<Rightarrow> unit lib" where
  "memman_setGlobalMemoryUsage self n =
     (if self = NULL then ret () else upd_manager self (\<lambda>M. M\<lparr>m_global_memory_usage := n\<rparr>))"

definition memman_getAllocLimit :: "ptr \<Rightarrow> size_t lib" where
  "memman_getAllocLimit self =
     (if self = NULL then ret MEMMAN_NO_ALLOC_LIMIT
      else bnd (load_manager self) (\<lambda>M. ret (m_alloc_limit M)))"

definition memman_setAllocLimit :: "ptr \<Rightarrow> size_t \<Rightarrow> unit lib" where
  "memman_setAllocLimit self n =
     (if self = NULL then ret () else upd_manager self (\<lambda>M. M\<lparr>m_alloc_limit := n\<rparr>))"

definition memman_canAllocateBasedOnLimit :: "ptr \<Rightarrow> bool lib" where
  "memman_canAllocateBasedOnLimit self =
     (if self = NULL then ret False
      else
        bnd (memman_getAllocLimit self) (\<lambda>lim.
        if lim = MEMMAN_NO_ALLOC_LIMIT then ret True
        else
          bnd (memman_getAllocLimit self) (\<lambda>lim.
          bnd (memman_getGlobalMemoryUsage self) (\<lambda>usage.
          if lim \<le> usage then ret False else ret True))))"

definition memman_canAllocateBasedOnLimitAndSize :: "ptr \<Rightarrow> size_t \<Rightarrow> bool lib" where
  "memman_canAllocateBasedOnLimitAndSize self sz =
     (if self = NULL then ret False
      else
        bnd (memman_getAllocLimit self) (\<lambda>lim.
        if lim = MEMMAN_NO_ALLOC_LIMIT then ret True
        else
          bnd (memman_getAllocLimit self) (\<lambda>lim.
          bnd (memman_getGlobalMemoryUsage self) (\<lambda>usage.
          if lim \<le> usage + sz then ret False else ret True))))"

lemmas run_manager [run] =
  memman_new_def memman_destroy_def slot_def upd_slot_def worker_put_def
  memman_CacheAlgorithmWorker_def manager_lock_def manager_unlock_def memman_work_def
  memman_TryCacheHit_def memman_TryCacheHitById_def drop_slot_def memman_cacheInvalidate_def
  memman_cacheClear_def memman_tryCachePut_def memman_getGlobalMemoryUsage_def
  memman_setGlobalMemoryUsage_def memman_getAllocLimit_def memman_setAllocLimit_def
  memman_canAllocateBasedOnLimit_def memman_canAllocateBasedOnLimitAndSize_def

section \<open>What the manager may change in an entry\<close>

definition core :: "linked_list_entry_t \<Rightarrow> linked_list_entry_t" where
  "core e = e\<lparr>e_weight := 0, e_cached := False\<rparr>"

definition cores :: "(ptr \<rightharpoonup> linked_list_entry_t) \<Rightarrow> (ptr \<rightharpoonup> linked_list_entry_t)" where
  "cores h p = map_option core (h p)"

lemma core_fields [simp]:
  "e_previous (core e) = e_previous e" "e_next (core e) = e_next e" "e_data (core e) = e_data e"
  "e_size (core e) = e_size e" "e_tid (core e) = e_tid e" "e_block_id (core e) = e_block_id e"
  "e_isHead (core e) = e_isHead e" "e_mutex (core e) = e_mutex e"
  by (simp_all add: core_def)

lemma core_upd [simp]:
  "core (e\<lparr>e_weight := w\<rparr>) = core e" "core (e\<lparr>e_cached := b\<rparr>) = core e" "core (bump e) = core e"
  by (simp_all add: core_def bump_def)

lemma cores_upd [simp]:
  "h p = Some e \<Longrightarrow> core e' = core e \<Longrightarrow> cores (h(p \<mapsto> e')) = cores h"
  by (rule ext) (simp add: cores_def)

lemma cores_at: "cores h' = cores h \<Longrightarrow> map_option core (h' p) = map_option core (h p)"
  by (drule fun_cong [of _ _ p]) (simp only: cores_def)

lemma cores_Some:
  assumes "cores h' = cores h" "h p = Some e"
  obtains e' where "h' p = Some e'" "core e' = core e"
proof -
  from cores_at [OF assms(1), of p] assms(2) have "map_option core (h' p) = Some (core e)"
    by simp
  then show ?thesis using that by auto
qed

lemma cores_None: "cores h' = cores h \<Longrightarrow> h' p = None \<longleftrightarrow> h p = None"
  by (drule cores_at [of _ _ p]) (cases "h p"; cases "h' p"; simp)

lemma core_eqD:
  assumes "core e' = core e"
  shows "e_previous e' = e_previous e" "e_next e' = e_next e" "e_data e' = e_data e"
    "e_size e' = e_size e" "e_tid e' = e_tid e" "e_block_id e' = e_block_id e"
    "e_isHead e' = e_isHead e" "e_mutex e' = e_mutex e"
  using assms by (cases e; cases e'; simp add: core_def)+

lemma cores_dom: "cores h' = cores h \<Longrightarrow> dom h' = dom h"
  using cores_None [of h' h] by (simp add: dom_def)

text \<open>A well-formed list is one up to weights and cache marks.\<close>

lemma list_ok_cores:
  assumes "list_ok s l L ns" "cores (nodes s') = cores (nodes s)" "lists s' l = lists s l"
  shows "list_ok s' l L ns"
proof -
  have links: "map_option (\<lambda>e. (e_previous e, e_next e)) (nodes s' p)
      = map_option (\<lambda>e. (e_previous e, e_next e)) (nodes s p)" for p
  proof (cases "nodes s p")
    case None
    then show ?thesis using cores_None [OF assms(2), of p] by simp
  next
    case (Some e)
    then obtain e' where e': "nodes s' p = Some e'" "core e' = core e" using cores_Some [OF assms(2)] by blast
    then show ?thesis using Some core_eqD(1,2) [OF e'(2)] by simp
  qed
  have seg': "seg (nodes s') NULL (l_head L # ns) NULL"
    using seg_cong_links [OF links list_okD(3) [OF assms(1)]] .
  have old: "\<exists>e. nodes s p = Some e \<and> e_isHead e' = e_isHead e \<and> e_mutex e' = e_mutex e"
    if "nodes s' p = Some e'" for p e'
  proof (cases "nodes s p")
    case None
    then show ?thesis using cores_None [OF assms(2), of p] that by simp
  next
    case (Some e)
    then obtain x where x: "nodes s' p = Some x" "core x = core e" using cores_Some [OF assms(2)] by blast
    then show ?thesis using Some that core_eqD(7,8) [OF x(2)] by simp
  qed
  have "\<forall>e. nodes s' (l_head L) = Some e \<longrightarrow> e_isHead e"
    using old [of "l_head L"] list_ok_head [OF assms(1)] by fastforce
  moreover have "\<forall>p \<in> set ns. \<forall>e. nodes s' p = Some e \<longrightarrow> \<not> e_isHead e \<and> e_mutex e = l_mutex L"
    using old list_ok_node [OF assms(1)] by fastforce
  ultimately show ?thesis using assms(1,3) seg' by (simp add: list_ok_def del: seg.simps)
qed
section \<open>A sound cache\<close>

definition pair_ok :: "(ptr \<rightharpoonup> linked_list_entry_t) \<Rightarrow> ptr list \<Rightarrow> cache_pair_t \<Rightarrow> bool" where
  "pair_ok h ns c \<longleftrightarrow>
     (if cp_value c = NULL then cp_key c = NULL
      else cp_value c \<in> set ns \<and> (\<exists>e. h (cp_value c) = Some e \<and> cp_key c = e_data e))"

definition cache_ok :: "(ptr \<rightharpoonup> linked_list_entry_t) \<Rightarrow> ptr list \<Rightarrow> cache_pair_t list \<Rightarrow> bool" where
  "cache_ok h ns cs \<longleftrightarrow> length cs = MEMMAN_MAX_CACHE_SLOTS \<and> (\<forall>c \<in> set cs. pair_ok h ns c)"

lemma pair_ok_cores:
  assumes "cores h' = cores h" "pair_ok h ns c"
  shows "pair_ok h' ns c"
proof (cases "cp_value c = NULL")
  case False
  then obtain e where e: "h (cp_value c) = Some e" "cp_key c = e_data e" "cp_value c \<in> set ns"
    using assms(2) by (auto simp: pair_ok_def)
  obtain e' where e': "h' (cp_value c) = Some e'" "core e' = core e" using cores_Some [OF assms(1) e(1)] .
  then show ?thesis using False e core_eqD(3) [OF e'(2)] by (simp add: pair_ok_def)
qed (use assms(2) in \<open>simp add: pair_ok_def\<close>)

lemma cache_ok_cores: "cores h' = cores h \<Longrightarrow> cache_ok h ns cs \<Longrightarrow> cache_ok h' ns cs"
  by (auto simp: cache_ok_def pair_ok_cores)

lemma pair_ok_zero [simp]: "pair_ok h ns zero_pair"
  by (simp add: pair_ok_def zero_pair_def)


lemma cache_okD:
  assumes "cache_ok h ns cs" "c \<in> set cs"
  shows "cp_value c \<noteq> NULL \<Longrightarrow> cp_value c \<in> set ns \<and> (\<exists>e. h (cp_value c) = Some e \<and> cp_key c = e_data e)"
    "cp_key c \<noteq> NULL \<Longrightarrow> cp_value c \<noteq> NULL"
  using assms by (auto simp: cache_ok_def pair_ok_def split: if_splits)

lemma cache_ok_nth:
  assumes "cache_ok h ns cs" "i \<in> set [0..<MEMMAN_MAX_CACHE_SLOTS]"
  shows "cs ! i \<in> set cs"
  using assms by (simp add: cache_ok_def)

text \<open>The operations of the cache only need that a used slot holds an entry that is live; they look
  at no data pointer.\<close>

definition slots_live :: "(ptr \<rightharpoonup> linked_list_entry_t) \<Rightarrow> cache_pair_t list \<Rightarrow> bool" where
  "slots_live h cs \<longleftrightarrow> length cs = MEMMAN_MAX_CACHE_SLOTS \<and>
     (\<forall>c \<in> set cs. cp_key c \<noteq> NULL \<longrightarrow> cp_value c \<noteq> NULL \<and> h (cp_value c) \<noteq> None)"

lemma slots_liveD: "\<lbrakk>slots_live h cs; c \<in> set cs; cp_key c \<noteq> NULL\<rbrakk> \<Longrightarrow> cp_value c \<noteq> NULL \<and> (\<exists>e. h (cp_value c) = Some e)"
  by (auto simp: slots_live_def)

lemma slots_live_nth: "slots_live h cs \<Longrightarrow> i \<in> set [0..<MEMMAN_MAX_CACHE_SLOTS] \<Longrightarrow> cs ! i \<in> set cs"
  by (simp add: slots_live_def)

lemma cache_ok_live: "cache_ok h ns cs \<Longrightarrow> slots_live h cs"
  using cache_okD [of h ns cs] by (fastforce simp: slots_live_def cache_ok_def)

section \<open>Lookups in the cache\<close>

text \<open>The entry of the first slot whose key is the one asked for, and of the first used slot
  whose entry has the id asked for; null for a miss and when the cache is switched off.\<close>

definition key_hit :: "ptr \<Rightarrow> cache_pair_t \<Rightarrow> bool" where
  "key_hit key c \<longleftrightarrow> cp_key c \<noteq> NULL \<and> cp_key c = key"

definition id_hit :: "(ptr \<rightharpoonup> linked_list_entry_t) \<Rightarrow> block_id_t \<Rightarrow> cache_pair_t \<Rightarrow> bool" where
  "id_hit h i c \<longleftrightarrow> cp_value c \<noteq> NULL \<and> e_block_id (the (h (cp_value c))) = i"

definition value_or_miss :: "cache_pair_t option \<Rightarrow> ptr" where
  "value_or_miss c = (case c of None \<Rightarrow> MEMMAN_CACHE_MISS | Some c \<Rightarrow> cp_value c)"

definition cached_entry :: "alloc_manager_t \<Rightarrow> ptr \<Rightarrow> ptr" where
  "cached_entry M key =
     (if m_use_cache M then value_or_miss (find (key_hit key) (m_cache_list M)) else MEMMAN_CACHE_MISS)"

definition cached_id :: "(ptr \<rightharpoonup> linked_list_entry_t) \<Rightarrow> alloc_manager_t \<Rightarrow> block_id_t \<Rightarrow> ptr" where
  "cached_id h M i =
     (if m_use_cache M then value_or_miss (find (id_hit h i) (m_cache_list M)) else MEMMAN_CACHE_MISS)"

definition manager_at :: "machine \<Rightarrow> ptr \<Rightarrow> alloc_manager_t \<Rightarrow> bool" where
  "manager_at s m M \<longleftrightarrow> m \<noteq> NULL \<and> managers s m = Some M \<and> ready (m_mutex_ref M) s"

lemma manager_atD:
  assumes "manager_at s m M"
  shows "m \<noteq> NULL" "managers s m = Some M" "ready (m_mutex_ref M) s"
  using assms by (auto simp: manager_at_def)

lemma manager_lock_eq:
  "manager_at s m M \<Longrightarrow> manager_lock m s = Done () (locked (m_mutex_ref M) s)"
  by (simp add: manager_at_def manager_lock_def plat_mutex_lock_ready)

lemma manager_unlock_eq:
  "\<lbrakk>managers s m = Some M; ready (m_mutex_ref M) s\<rbrakk> \<Longrightarrow> manager_unlock m s = Done () (unlocked (m_mutex_ref M) s)"
  by (simp add: manager_unlock_def plat_mutex_unlock_ready)

lemma find_slot:
  assumes "slots_live h cs"
  shows "find P cs = map_option ((!) cs) (find (\<lambda>i. P (cs ! i)) [0..<MEMMAN_MAX_CACHE_SLOTS])"
  using find_nth_find [of P cs] assms by (simp add: slots_live_def)

lemma find_Some_hit: "find P xs = Some x \<Longrightarrow> P x \<and> x \<in> set xs"
  by (induction xs) (auto split: if_splits)

lemma find_upt_Some: "find P [0..<n] = Some i \<Longrightarrow> P i \<and> i < n"
  using find_Some_hit by fastforce

lemma cached_entry_hit:
  assumes "cache_ok h ns (m_cache_list M)" "cached_entry M key \<noteq> MEMMAN_CACHE_MISS"
  shows "cached_entry M key \<in> set ns \<and> (\<exists>e. h (cached_entry M key) = Some e \<and> e_data e = key)"
proof -
  obtain c where "find (key_hit key) (m_cache_list M) = Some c" and v: "cached_entry M key = cp_value c"
    using assms(2) by (auto simp: cached_entry_def value_or_miss_def split: if_splits option.splits)
  then have "key_hit key c" "c \<in> set (m_cache_list M)" using find_Some_hit by metis+
  then show ?thesis using cache_okD [OF assms(1), of c] v by (auto simp: key_hit_def)
qed

lemma TryCacheHit_live:
  fixes key :: ptr
  assumes M: "manager_at s m M" and ok: "slots_live (nodes s) (m_cache_list M)"
  defines "v \<equiv> cached_entry M key"
  shows "memman_TryCacheHit m key s =
    (if \<not> m_use_cache M then Done MEMMAN_CACHE_MISS s
     else if v = MEMMAN_CACHE_MISS then Done MEMMAN_CACHE_MISS (unlocked (m_mutex_ref M) s)
     else Done v (unlocked (m_mutex_ref M) (s\<lparr>nodes := (nodes s)(v \<mapsto> bump (the (nodes s v)))\<rparr>)))"
proof (cases "m_use_cache M")
  case False
  then show ?thesis using manager_atD [OF M] by (simp add: memman_TryCacheHit_def ret_def)
next
  case True
  note D = manager_atD [OF M]
  let ?x = "m_mutex_ref M" and ?cs = "m_cache_list M"
  let ?hit = "\<lambda>i. key_hit key (?cs ! i)" and ?v = "\<lambda>i. cp_value (?cs ! i)"
  let ?f = "\<lambda>i. unlocked ?x (s\<lparr>nodes := (nodes s)(?v i \<mapsto> bump (the (nodes s (?v i))))\<rparr>)"
  have live: "?v i \<noteq> NULL \<and> (\<exists>e. nodes s (?v i) = Some e)"
    if "i \<in> set [0..<MEMMAN_MAX_CACHE_SLOTS]" "?hit i" for i
    using slots_liveD [OF ok slots_live_nth [OF ok that(1)]] that(2) by (auto simp: key_hit_def)
  let ?find = "find ?hit [0..<MEMMAN_MAX_CACHE_SLOTS]"
  have "memman_TryCacheHit m key s = (case ?find of
      None \<Rightarrow> Done MEMMAN_CACHE_MISS (unlocked ?x s) | Some i \<Rightarrow> Done (?v i) (?f i))"
    unfolding memman_TryCacheHit_def
    apply (simp add: D True manager_lock_eq [OF M])
    apply (subst bnd_def)
    apply (subst for_idx_search [where hit = ?hit and r = ?v and f = ?f])
    subgoal using D by (auto simp: slot_def key_hit_def ret_def)
    subgoal for i using D live [of i]
      by (auto simp: slot_def key_hit_def ret_def manager_unlock_eq ready_with_mutex bump_def)
    subgoal using D by (simp add: manager_unlock_eq ready_with_mutex ret_def split: option.split)
    done
  moreover have "v = (case ?find of None \<Rightarrow> MEMMAN_CACHE_MISS | Some i \<Rightarrow> ?v i)"
    using find_slot [OF ok, of "key_hit key"]
    by (simp add: v_def cached_entry_def True value_or_miss_def split: option.split)
  moreover have "?find = Some i \<Longrightarrow> ?v i \<noteq> MEMMAN_CACHE_MISS" for i
    using live [of i] find_upt_Some [of ?hit _ i] by (auto simp: MEMMAN_CACHE_MISS_def)
  ultimately show ?thesis using True by (auto split: option.split)
qed

lemmas TryCacheHit_eq = TryCacheHit_live [OF _ cache_ok_live]

lemma TryCacheHitById_eq:
  fixes b :: block_id_t
  assumes M: "manager_at s m M" and ok: "cache_ok (nodes s) ns (m_cache_list M)"
  shows "memman_TryCacheHitById m b s =
    Done (cached_id (nodes s) M b) (if m_use_cache M then unlocked (m_mutex_ref M) s else s)"
proof (cases "m_use_cache M")
  case False
  then show ?thesis using manager_atD [OF M] by (simp add: memman_TryCacheHitById_def ret_def cached_id_def)
next
  case True
  note D = manager_atD [OF M]
  let ?x = "m_mutex_ref M" and ?cs = "m_cache_list M"
  let ?hit = "\<lambda>i. id_hit (nodes s) b (?cs ! i)" and ?v = "\<lambda>i. cp_value (?cs ! i)"
  have live: "\<exists>e. nodes s (?v i) = Some e"
    if "i \<in> set [0..<MEMMAN_MAX_CACHE_SLOTS]" "?v i \<noteq> NULL" for i
    using cache_okD [OF ok cache_ok_nth [OF ok that(1)]] that(2) by auto
  let ?find = "find ?hit [0..<MEMMAN_MAX_CACHE_SLOTS]"
  have "memman_TryCacheHitById m b s = (case ?find of
      None \<Rightarrow> Done MEMMAN_CACHE_MISS (unlocked ?x s) | Some i \<Rightarrow> Done (?v i) (unlocked ?x s))"
    unfolding memman_TryCacheHitById_def
    apply (simp add: D True manager_lock_eq [OF M])
    apply (subst bnd_def)
    apply (subst for_idx_search [where hit = ?hit and r = ?v and f = "\<lambda>_. unlocked ?x s"])
    subgoal for i using D live [of i] by (cases "?v i = NULL") (auto simp: slot_def id_hit_def ret_def)
    subgoal for i using D live [of i]
      by (auto simp: slot_def id_hit_def ret_def manager_unlock_eq ready_with_mutex)
    subgoal using D by (simp add: manager_unlock_eq ready_with_mutex ret_def split: option.split)
    done
  moreover have "cached_id (nodes s) M b = (case ?find of None \<Rightarrow> MEMMAN_CACHE_MISS | Some i \<Rightarrow> ?v i)"
    using find_slot [OF cache_ok_live [OF ok], of "id_hit (nodes s) b"]
    by (simp add: cached_id_def True value_or_miss_def split: option.split)
  ultimately show ?thesis using True by (auto split: option.split)
qed

lemma cached_id_hit:
  assumes "cache_ok h ns (m_cache_list M)" "cached_id h M b \<noteq> MEMMAN_CACHE_MISS"
  shows "cached_id h M b \<in> set ns \<and> (\<exists>e. h (cached_id h M b) = Some e \<and> e_block_id e = b)"
proof -
  obtain c where "find (id_hit h b) (m_cache_list M) = Some c" and v: "cached_id h M b = cp_value c"
    using assms(2) by (auto simp: cached_id_def value_or_miss_def split: if_splits option.splits)
  then have "id_hit h b c" "c \<in> set (m_cache_list M)" using find_Some_hit by metis+
  then show ?thesis using cache_okD [OF assms(1), of c] v by (auto simp: id_hit_def)
qed

section \<open>Emptying slots\<close>

text \<open>Dropping the slots that satisfy \<open>P\<close>: the pairs are zeroed, the entries they held get
  the mark \<open>b\<close>, and each slot is counted as available.\<close>

definition dropped_pairs :: "(cache_pair_t \<Rightarrow> bool) \<Rightarrow> cache_pair_t list \<Rightarrow> cache_pair_t list" where
  "dropped_pairs P cs = map (\<lambda>c. if P c then zero_pair else c) cs"

definition marked :: "bool \<Rightarrow> ptr set \<Rightarrow> (ptr \<rightharpoonup> linked_list_entry_t) \<Rightarrow> (ptr \<rightharpoonup> linked_list_entry_t)" where
  "marked b X h p = (if p \<in> X then map_option (\<lambda>e. e\<lparr>e_cached := b\<rparr>) (h p) else h p)"

definition held :: "(cache_pair_t \<Rightarrow> bool) \<Rightarrow> cache_pair_t list \<Rightarrow> ptr set" where
  "held P cs = {cp_value c | c. c \<in> set cs \<and> P c}"

definition dropped :: "(cache_pair_t \<Rightarrow> bool) \<Rightarrow> bool \<Rightarrow> nat \<Rightarrow> ptr \<Rightarrow> alloc_manager_t \<Rightarrow> machine \<Rightarrow> machine" where
  "dropped P b k m M s =
     (let cs = m_cache_list M in
      s\<lparr>nodes := marked b (held P (take k cs)) (nodes s),
        managers := (managers s)(m \<mapsto> M\<lparr>
          m_cache_list := dropped_pairs P (take k cs) @ drop k cs,
          m_available_cache_slots := m_available_cache_slots M + of_nat (length (filter P (take k cs)))\<rparr>)\<rparr>)"

lemma marked_simps [simp]: "marked b {} h = h"
  by (rule ext) (simp add: marked_def)

lemma held_simps [simp]:
  "held P [] = {}"
  "held P (cs @ [c]) = (if P c then insert (cp_value c) (held P cs) else held P cs)"
  by (auto simp: held_def)

lemma marked_insert: "h p = Some e \<Longrightarrow>
   (marked b X h)(p \<mapsto> (the (marked b X h p))\<lparr>e_cached := b\<rparr>) = marked b (insert p X) h"
  by (rule ext) (simp add: marked_def)

lemma cores_marked [simp]: "cores (marked b X h) = cores h"
  by (rule ext) (simp add: cores_def marked_def option.map_comp comp_def)

lemma marked_live: "h p = Some e \<Longrightarrow> \<exists>e'. marked b X h p = Some e'"
  by (simp add: marked_def)

lemma manager_upd_order:
  "M\<lparr>m_available_cache_slots := a, m_cache_list := cs\<rparr> = M\<lparr>m_cache_list := cs, m_available_cache_slots := a\<rparr>"
  by (cases M) simp

lemma drop_sweep:
  assumes M: "managers s m = Some M" and ok: "slots_live (nodes s) (m_cache_list M)"
    and P: "\<And>c. P c \<Longrightarrow> cp_key c \<noteq> NULL"
    and body: "\<And>i s' M'. managers s' m = Some M' \<Longrightarrow> body i s' =
      (if P (slot M' i) then bnd (drop_slot m i b) (\<lambda>_. ret (None :: unit option)) s' else Done None s')"
  shows "for_idx [0..<MEMMAN_MAX_CACHE_SLOTS] body s =
    Done None (dropped P b MEMMAN_MAX_CACHE_SLOTS m M s)"
proof -
  let ?cs = "m_cache_list M" and ?F = "\<lambda>k. dropped P b k m M s"
  have len: "length ?cs = MEMMAN_MAX_CACHE_SLOTS" using ok by (simp add: slots_live_def)
  have "body k (?F k) = Done None (?F (Suc k))" if "k < MEMMAN_MAX_CACHE_SLOTS" for k
  proof -
    have k: "k < length ?cs" using that len by simp
    let ?c = "?cs ! k" and ?pre = "dropped_pairs P (take k ?cs)"
    have lk: "length ?pre = k" using k by (simp add: dropped_pairs_def)
    have dk: "drop k ?cs = ?c # drop (Suc k) ?cs" using k by (simp add: Cons_nth_drop_Suc)
    have at: "(?pre @ drop k ?cs) ! k = ?c" using lk dk by (simp add: nth_append)
    have tk: "take (Suc k) ?cs = take k ?cs @ [?c]" using k by (simp add: take_Suc_conv_app_nth)
    have M': "managers (?F k) m = Some (M\<lparr>m_cache_list := ?pre @ drop k ?cs,
        m_available_cache_slots := m_available_cache_slots M + of_nat (length (filter P (take k ?cs)))\<rparr>)"
      by (simp add: dropped_def Let_def)
    show ?thesis
    proof (cases "P ?c")
      case False
      have "?F (Suc k) = ?F k"
        using False lk dk by (simp add: dropped_def Let_def tk dropped_pairs_def)
      then show ?thesis using body [OF M', of k] False at by (simp add: slot_def)
    next
      case True
      obtain e where e: "nodes s (cp_value ?c) = Some e"
        using slots_liveD [OF ok, of ?c] P [OF True] k by auto
      then obtain e' where e': "marked b (held P (take k ?cs)) (nodes s) (cp_value ?c) = Some e'"
        using marked_live by metis
      have upd: "(?pre @ drop k ?cs)[k := zero_pair] = dropped_pairs P (take (Suc k) ?cs) @ drop (Suc k) ?cs"
        using lk dk True by (simp add: list_update_append tk dropped_pairs_def)
      have "marked b (held P (take (Suc k) ?cs)) (nodes s) =
          (marked b (held P (take k ?cs)) (nodes s))(cp_value ?c \<mapsto> e'\<lparr>e_cached := b\<rparr>)"
        using marked_insert [of "nodes s" "cp_value ?c" e b "held P (take k ?cs)"] e e' True by (simp add: tk)
      then have "bnd (drop_slot m k b) (\<lambda>_. ret None) (?F k) = Done None (?F (Suc k))"
        using True at e' upd
        by (simp add: drop_slot_def slot_def upd_slot_def dropped_def Let_def ret_def tk manager_upd_order add.commute add.left_commute)
      then show ?thesis using body [OF M', of k] True at by (simp add: slot_def)
    qed
  qed
  moreover have "?F 0 = s" using M by (simp add: dropped_def dropped_pairs_def fun_upd_idem)
  ultimately show ?thesis using for_idx_steps [of 0 MEMMAN_MAX_CACHE_SLOTS body ?F] by simp
qed


text \<open>The two operations, as changes of the cache contents.\<close>

definition emptied :: "(cache_pair_t \<Rightarrow> bool) \<Rightarrow> alloc_manager_t \<Rightarrow> alloc_manager_t" where
  "emptied P M = M\<lparr>m_cache_list := dropped_pairs P (m_cache_list M),
     m_available_cache_slots := m_available_cache_slots M + of_nat (length (filter P (m_cache_list M)))\<rparr>"

lemma dropped_all:
  "slots_live h (m_cache_list M) \<Longrightarrow> dropped P b MEMMAN_MAX_CACHE_SLOTS m M s =
     s\<lparr>nodes := marked b (held P (m_cache_list M)) (nodes s), managers := (managers s)(m \<mapsto> emptied P M)\<rparr>"
  by (simp add: dropped_def emptied_def Let_def slots_live_def)

lemma dropped_locks [simp]:
  "dropped P b k m M (locked x s) = locked x (dropped P b k m M s)"
  by (simp add: dropped_def Let_def)

lemma cacheInvalidate_live:
  assumes M: "manager_at s m M" and ok: "slots_live (nodes s) (m_cache_list M)"
  shows "memman_cacheInvalidate m key s = Done () (unlocked (m_mutex_ref M)
    (s\<lparr>nodes := marked False (held (key_hit key) (m_cache_list M)) (nodes s),
       managers := (managers s)(m \<mapsto> emptied (key_hit key) M)\<rparr>))"
proof -
  note D = manager_atD [OF M]
  let ?s = "locked (m_mutex_ref M) s"
  have "for_idx [0..<MEMMAN_MAX_CACHE_SLOTS] (\<lambda>i. bnd (load_manager m) (\<lambda>M.
          if cp_key (slot M i) = NULL then ret None
          else if cp_key (slot M i) = key
          then bnd (drop_slot m i False) (\<lambda>_. ret (None :: unit option))
          else ret None)) ?s = Done None (dropped (key_hit key) False MEMMAN_MAX_CACHE_SLOTS m M ?s)"
    using D ok by (intro drop_sweep) (auto simp: key_hit_def ret_def)
  then show ?thesis using D ok
    by (simp add: memman_cacheInvalidate_def manager_lock_eq [OF M] dropped_all manager_unlock_eq
        ready_with_mutex emptied_def)
qed

lemmas cacheInvalidate_eq = cacheInvalidate_live [OF _ cache_ok_live]

lemma cacheClear_eq:
  assumes M: "manager_at s m M" and ok: "cache_ok (nodes s) ns (m_cache_list M)"
  defines "used \<equiv> \<lambda>c. cp_key c \<noteq> NULL"
  shows "memman_cacheClear m s = Done () (unlocked (m_mutex_ref M)
    (s\<lparr>nodes := marked True (held used (m_cache_list M)) (nodes s),
       managers := (managers s)(m \<mapsto> emptied used M)\<rparr>))"
proof -
  note D = manager_atD [OF M]
  let ?s = "locked (m_mutex_ref M) s"
  have "for_idx [0..<MEMMAN_MAX_CACHE_SLOTS] (\<lambda>i. bnd (load_manager m) (\<lambda>M.
          if cp_key (slot M i) = NULL then ret None
          else bnd (drop_slot m i True) (\<lambda>_. ret (None :: unit option)))) ?s =
      Done None (dropped used True MEMMAN_MAX_CACHE_SLOTS m M ?s)"
    using D cache_ok_live [OF ok] by (intro drop_sweep) (auto simp: used_def ret_def)
  then show ?thesis using D cache_ok_live [OF ok]
    by (simp add: memman_cacheClear_def manager_lock_eq [OF M] dropped_all manager_unlock_eq
        ready_with_mutex emptied_def)
qed

lemma emptied_fields [simp]:
  "m_use_cache (emptied P M) = m_use_cache M" "m_cache_lock (emptied P M) = m_cache_lock M"
  "m_alloc_limit (emptied P M) = m_alloc_limit M" "m_mutex_ref (emptied P M) = m_mutex_ref M"
  "m_global_memory_usage (emptied P M) = m_global_memory_usage M"
  "m_cache_list (emptied P M) = dropped_pairs P (m_cache_list M)"
  by (simp_all add: emptied_def)

lemma cache_ok_dropped: "cache_ok h ns cs \<Longrightarrow> cache_ok h ns (dropped_pairs P cs)"
  by (auto simp: cache_ok_def dropped_pairs_def)

text \<open>After invalidation no slot holds the key, nor an entry with that data pointer.\<close>

lemma invalidated_no_hit: "c \<in> set (dropped_pairs (key_hit key) cs) \<Longrightarrow> \<not> key_hit key c"
  by (auto simp: dropped_pairs_def key_hit_def zero_pair_def split: if_splits)

lemma invalidated_no_entry:
  assumes "cache_ok h ns cs" "c \<in> set (dropped_pairs (key_hit key) cs)" "key \<noteq> NULL"
    and "h p = Some e" "e_data e = key" "p \<noteq> NULL"
  shows "cp_value c \<noteq> p"
proof
  assume v: "cp_value c = p"
  with assms(6) have "cp_key c = key"
    using cache_okD(1) [OF cache_ok_dropped [OF assms(1)] assms(2)] assms(4,5) by auto
  then show False using invalidated_no_hit [OF assms(2)] assms(3) by (simp add: key_hit_def)
qed

text \<open>Removing an entry from the list keeps the cache sound when no slot holds it.\<close>

lemma cache_ok_remove:
  assumes "cache_ok h ns cs" "\<And>c. c \<in> set cs \<Longrightarrow> cp_value c \<noteq> p"
    and "\<And>q. q \<noteq> p \<Longrightarrow> map_option e_data (h' q) = map_option e_data (h q)"
    and "set ns - {p} \<subseteq> set ns'"
  shows "cache_ok h' ns' cs"
proof -
  have "pair_ok h' ns' c" if c: "c \<in> set cs" for c
  proof (cases "cp_value c = NULL")
    case True
    then show ?thesis using assms(1) c by (auto simp: cache_ok_def pair_ok_def)
  next
    case False
    then obtain e where e: "cp_value c \<in> set ns" "h (cp_value c) = Some e" "cp_key c = e_data e"
      using cache_okD(1) [OF assms(1) c] by blast
    with assms(3) [of "cp_value c"] assms(2) [OF c]
    obtain e' where "h' (cp_value c) = Some e'" "e_data e' = e_data e" by auto
    then show ?thesis using False e assms(2) [OF c] assms(4) by (auto simp: pair_ok_def)
  qed
  then show ?thesis using assms(1) by (simp add: cache_ok_def)
qed


section \<open>Filling a slot\<close>

definition free_slot :: "cache_pair_t \<Rightarrow> bool" where
  "free_slot c \<longleftrightarrow> cp_key c = NULL"

definition pair_for :: "ptr \<Rightarrow> linked_list_entry_t \<Rightarrow> cache_pair_t" where
  "pair_for p e = \<lparr>cp_key = e_data e, cp_value = p\<rparr>"

lemma pair_upd [simp]:
  "c\<lparr>cp_key := k, cp_value := v\<rparr> = \<lparr>cp_key = k, cp_value = v\<rparr>"
  "c\<lparr>cp_value := v, cp_key := k\<rparr> = \<lparr>cp_key = k, cp_value = v\<rparr>"
  by (cases c, simp)+

lemma machine_upd_order: "s\<lparr>managers := a, nodes := b\<rparr> = s\<lparr>nodes := b, managers := a\<rparr>"
  by (cases s) simp

lemma find_upt_None_iff: "find (\<lambda>i. P (xs ! i)) [0..<length xs] = None \<longleftrightarrow> (\<forall>x \<in> set xs. \<not> P x)"
  by (metis (no_types, lifting) find_None_iff in_set_conv_nth set_upt atLeastLessThan_iff zero_le)

lemma tryCachePut_eq:
  assumes M: "manager_at s m M" and len: "length (m_cache_list M) = MEMMAN_MAX_CACHE_SLOTS"
    and e: "nodes s p = Some e"
  shows "memman_tryCachePut m p s =
    (if m_cache_lock M \<or> \<not> m_use_cache M \<or> m_available_cache_slots M = 0 then Done False s
     else if \<forall>c \<in> set (m_cache_list M). \<not> free_slot c then Halt (Exited 185) (locked (m_mutex_ref M) s)
     else Done True (unlocked (m_mutex_ref M)
       (s\<lparr>nodes := (nodes s)(p \<mapsto> e\<lparr>e_cached := True\<rparr>),
          managers := (managers s)(m \<mapsto> M\<lparr>
            m_cache_list := put_first free_slot (pair_for p e) (m_cache_list M),
            m_available_cache_slots := m_available_cache_slots M - 1\<rparr>)\<rparr>)))"
proof (cases "m_cache_lock M \<or> \<not> m_use_cache M \<or> m_available_cache_slots M = 0")
  case True
  then show ?thesis using manager_atD [OF M] by (auto simp: memman_tryCachePut_def ret_def)
next
  case False
  note D = manager_atD [OF M]
  let ?x = "m_mutex_ref M" and ?cs = "m_cache_list M"
  let ?hit = "\<lambda>i. free_slot (?cs ! i)"
  let ?f = "\<lambda>i. unlocked ?x (s\<lparr>nodes := (nodes s)(p \<mapsto> e\<lparr>e_cached := True\<rparr>),
          managers := (managers s)(m \<mapsto> M\<lparr>m_cache_list := ?cs[i := pair_for p e],
            m_available_cache_slots := m_available_cache_slots M - 1\<rparr>)\<rparr>)"
  let ?find = "find ?hit [0..<MEMMAN_MAX_CACHE_SLOTS]"
  have "memman_tryCachePut m p s = (case ?find of
      None \<Rightarrow> Halt (Exited 185) (locked ?x s) | Some i \<Rightarrow> Done True (?f i))"
    unfolding memman_tryCachePut_def
    using False D apply (simp add: manager_lock_eq [OF M])
    apply (subst bnd_def)
    apply (subst for_idx_search [where hit = ?hit and r = "\<lambda>_. True" and f = ?f])
    subgoal for i using D by (auto simp: slot_def free_slot_def ret_def)
    subgoal for i using D e len
      by (auto simp: slot_def free_slot_def ret_def manager_unlock_eq ready_with_mutex upd_slot_def
          pair_for_def manager_upd_order machine_upd_order)
    subgoal by (simp add: ret_def split: option.split)
    done
  then show ?thesis using False find_upt_None_iff [of free_slot ?cs] len put_first_find [of free_slot _ ?cs]
    by (auto split: option.split)
qed

section \<open>The caching pass\<close>

text \<open>
  What the callback does to the entries and the slots, as a function: an entry of weight at
  most 10 is touched (weight 0, marked cached) and put in the first slot that is empty or
  holds an entry of weight below 10; a heavier entry is passed over. \<open>cache_pass\<close> does this
  for all entries of the list in order.
\<close>

definition light :: "linked_list_entry_t \<Rightarrow> bool" where
  "light e \<longleftrightarrow> e_weight e \<le> 10"

definition touch :: "linked_list_entry_t \<Rightarrow> linked_list_entry_t" where
  "touch e = e\<lparr>e_weight := 0, e_cached := True\<rparr>"

definition eligible :: "(ptr \<rightharpoonup> linked_list_entry_t) \<Rightarrow> cache_pair_t \<Rightarrow> bool" where
  "eligible h c \<longleftrightarrow> cp_value c = NULL \<or> e_weight (the (h (cp_value c))) < 10"

type_synonym cache_view = "(ptr \<rightharpoonup> linked_list_entry_t) \<times> cache_pair_t list"

fun cache_step :: "ptr \<Rightarrow> cache_view \<Rightarrow> cache_view" where
  "cache_step p (h, cs) =
     (if light (the (h p))
      then let h' = h(p \<mapsto> touch (the (h p)))
           in (h', put_first (eligible h') (pair_for p (the (h p))) cs)
      else (h, cs))"

definition cache_pass :: "ptr list \<Rightarrow> cache_view \<Rightarrow> cache_view" where
  "cache_pass ps v = fold cache_step ps v"

definition with_view :: "ptr \<Rightarrow> alloc_manager_t \<Rightarrow> cache_view \<Rightarrow> machine \<Rightarrow> machine" where
  "with_view m M v s = s\<lparr>nodes := fst v, managers := (managers s)(m \<mapsto> M\<lparr>m_cache_list := snd v\<rparr>)\<rparr>"

definition view_ok :: "(ptr \<rightharpoonup> linked_list_entry_t) \<Rightarrow> ptr list \<Rightarrow> cache_view \<Rightarrow> bool" where
  "view_ok h ns v \<longleftrightarrow> cores (fst v) = cores h \<and> cache_ok (fst v) ns (snd v)"

lemma core_touch [simp]: "core (touch e) = core e"
  by (simp add: touch_def core_def)

lemma cache_ok_put:
  assumes "cache_ok h ns cs" "p \<noteq> NULL" "p \<in> set ns" "h p = Some e"
  shows "cache_ok h ns (put_first P (pair_for p e) cs)"
proof -
  have "pair_ok h ns (pair_for p e)" using assms by (simp add: pair_ok_def pair_for_def)
  then show ?thesis using assms(1) by (auto simp: cache_ok_def dest!: put_first_in)
qed

lemma view_ok_step:
  assumes v: "view_ok h ns v" and p: "p \<noteq> NULL" "p \<in> set ns" "fst v p = Some e"
  shows "view_ok h ns (cache_step p v)"
proof (cases v)
  case (Pair h1 cs)
  let ?h = "h1(p \<mapsto> touch e)"
  have c: "cores ?h = cores h1" using p(3) Pair by simp
  have ok: "cache_ok ?h ns cs" using v Pair cache_ok_cores [OF c] by (simp add: view_ok_def)
  have e: "?h p = Some (touch e)" by simp
  have pf: "pair_for p (touch e) = pair_for p e" by (simp add: pair_for_def touch_def)
  have "cache_ok ?h ns (put_first (eligible ?h) (pair_for p e) cs)"
    using cache_ok_put [OF ok p(1,2) e, of "eligible ?h"] by (simp only: pf)
  then show ?thesis using v Pair p(3) c by (simp add: view_ok_def Let_def)
qed

lemma cache_worker_eq:
  assumes M: "managers s m = Some M" "m \<noteq> NULL" and e: "nodes s p = Some e" "p \<noteq> NULL" "p \<in> set ns"
    and ok: "cache_ok (nodes s) ns (m_cache_list M)"
  shows "memman_CacheAlgorithmWorker l p i m s =
    Done (NULL, m) (with_view m M (cache_step p (nodes s, m_cache_list M)) s)"
proof (cases "light e")
  case False
  then show ?thesis using M e
    by (simp add: memman_CacheAlgorithmWorker_def light_def ret_def with_view_def fun_upd_idem)
next
  case True
  let ?h = "(nodes s)(p \<mapsto> touch e)" and ?cs = "m_cache_list M"
  let ?s = "s\<lparr>nodes := ?h\<rparr>" and ?c = "pair_for p e"
  let ?hit = "\<lambda>i. eligible ?h (?cs ! i)"
  let ?f = "\<lambda>i. ?s\<lparr>managers := (managers s)(m \<mapsto> M\<lparr>m_cache_list := ?cs[i := ?c]\<rparr>)\<rparr>"
  have len: "length ?cs = MEMMAN_MAX_CACHE_SLOTS" using ok by (simp add: cache_ok_def)
  have cok: "cache_ok ?h ns ?cs" using ok e cache_ok_cores [of ?h "nodes s"] by simp
  have put: "worker_put m i p ?s = Done () (?f i)" if "i < MEMMAN_MAX_CACHE_SLOTS" for i
    using M e(1) that len
    by (simp add: worker_put_def upd_slot_def slot_def pair_for_def touch_def fun_upd_idem)
  have live: "\<exists>v. ?h (cp_value (?cs ! i)) = Some v"
    if "i \<in> set [0..<MEMMAN_MAX_CACHE_SLOTS]" "cp_value (?cs ! i) \<noteq> NULL" for i
    using cache_okD(1) [OF cok cache_ok_nth [OF cok that(1)] that(2)] by blast
  let ?find = "find ?hit [0..<MEMMAN_MAX_CACHE_SLOTS]"
  have "memman_CacheAlgorithmWorker l p i m s = (case ?find of
      None \<Rightarrow> Done (NULL, m) ?s | Some i \<Rightarrow> Done (NULL, m) (?f i))"
    unfolding memman_CacheAlgorithmWorker_def
    using True M e apply (simp add: light_def)
    apply (subst bnd_def)
    apply (subst for_idx_search [where hit = ?hit and r = "\<lambda>_. ()" and f = ?f])
    subgoal for i using M live [of i] by (cases "cp_value (?cs ! i) = NULL") (auto simp: slot_def eligible_def ret_def touch_def split: if_splits)
    subgoal for i using M live [of i] put [of i]
      by (cases "cp_value (?cs ! i) = NULL") (auto simp: slot_def eligible_def ret_def touch_def split: if_splits)
    subgoal by (simp add: ret_def touch_def split: option.split)
    done
  moreover have "put_first (eligible ?h) ?c ?cs = (case ?find of None \<Rightarrow> ?cs | Some i \<Rightarrow> ?cs[i := ?c])"
    using put_first_find [of "eligible ?h" ?c ?cs] len by simp
  ultimately show ?thesis using True e(1) M
    by (auto simp: with_view_def Let_def fun_upd_idem split: option.split)
qed


text \<open>The traversal with this callback, as an instance of the traversal contract.\<close>

definition caching ::
    "ptr \<Rightarrow> ptr \<Rightarrow> ptr \<Rightarrow> alloc_manager_t \<Rightarrow> machine \<Rightarrow> ptr list \<Rightarrow> ptr list \<Rightarrow> size_t \<Rightarrow> ptr \<Rightarrow> machine \<Rightarrow> bool" where
  "caching l x m M s0 ns rest i g s \<longleftrightarrow>
     (\<exists>L gone v. list_ok s0 l L ns \<and> l_mutex L = x \<and> ready x s0 \<and> m \<noteq> NULL \<and> ns = gone @ rest \<and> g = m \<and>
        v = cache_pass gone (nodes s0, m_cache_list M) \<and> view_ok (nodes s0) ns v \<and>
        s = locked x (with_view m M v s0))"

lemma with_view_fields [simp]:
  "nodes (with_view m M v s) = fst v" "lists (with_view m M v s) = lists s"
  "managers (with_view m M v s) = (managers s)(m \<mapsto> M\<lparr>m_cache_list := snd v\<rparr>)"
  "blocks (with_view m M v s) = blocks s" "mutexes (with_view m M v s) = mutexes s"
  "ready x (with_view m M v s) = ready x s"
  by (simp_all add: with_view_def)

lemma with_view_twice [simp]:
  "with_view m (M\<lparr>m_cache_list := cs\<rparr>) v (with_view m M' w s) = with_view m M v s"
  "with_view m (M\<lparr>m_cache_list := cs\<rparr>) v (locked x (with_view m M' w s)) = locked x (with_view m M v s)"
  by (simp_all add: with_view_def)

lemma list_ok_with_view:
  "\<lbrakk>list_ok s l L ns; cores (fst v) = cores (nodes s)\<rbrakk> \<Longrightarrow> list_ok (with_view m M v s) l L ns"
  by (erule list_ok_cores) simp_all

lemma cache_pass_snoc: "cache_pass (ps @ [p]) v = cache_step p (cache_pass ps v)"
  by (simp add: cache_pass_def)

interpretation list_cacher: visitor memman_CacheAlgorithmWorker l x "caching l x m M s0 ns" for l x m M s0 ns
proof unfold_locales
  fix p rest i g s
  assume "caching l x m M s0 ns (p # rest) i g s"
  then obtain L gone v where I: "list_ok s0 l L ns" "l_mutex L = x" "ready x s0" "m \<noteq> NULL"
      "ns = gone @ p # rest" "g = m" "v = cache_pass gone (nodes s0, m_cache_list M)"
      "view_ok (nodes s0) ns v" "s = locked x (with_view m M v s0)"
    unfolding caching_def by blast
  have c: "cores (fst v) = cores (nodes s0)" using I(8) by (simp add: view_ok_def)
  have ok: "list_ok s l L ns" using list_ok_with_view [OF I(1) c] I(9) by simp
  then obtain e where e: "nodes s p = Some e" "e_next e = hd_or NULL rest"
    using list_ok_split(1) [of s l L gone p rest] I(5) by auto
  have p: "p \<noteq> NULL" "p \<in> set ns" using list_okD(5) [OF I(1)] I(5) by auto
  show "p \<noteq> NULL \<and> (\<exists>e. nodes s p = Some e \<and> e_next e = hd_or NULL rest)"
    using p e by blast
  let ?M = "M\<lparr>m_cache_list := snd v\<rparr>"
  have "managers s m = Some ?M" "cache_ok (nodes s) ns (m_cache_list ?M)"
    using I(8,9) by (simp_all add: view_ok_def)
  from cache_worker_eq [OF this(1) I(4) e(1) p this(2), of l i]
  have w: "memman_CacheAlgorithmWorker l p i g s =
      Done (NULL, m) (locked x (with_view m M (cache_step p v) s0))"
    using I(6,9) by (simp del: cache_step.simps)
  have "view_ok (nodes s0) ns (cache_step p v)"
    using view_ok_step [OF I(8) p, of e] e(1) I(9) by simp
  then have "caching l x m M s0 ns rest (i + 1) m (locked x (with_view m M (cache_step p v) s0))"
    using I by (auto simp: caching_def cache_pass_snoc simp del: cache_step.simps
        intro!: exI [of _ L] exI [of _ "gone @ [p]"])
  then show "runs (memman_CacheAlgorithmWorker l p i g) s (\<lambda>(t, g') s'. t = NULL \<and> ready x s' \<and>
      (\<exists>L. lists s' l = Some L \<and> l_mutex L = x) \<and> caching l x m M s0 ns rest (i + 1) g' (locked x s'))"
    using w I list_okD(2) [OF I(1)] by (simp add: runs_def ready_with_mutex)
next
  fix i g s
  assume "caching l x m M s0 ns [] i g s"
  then show "ready x s \<and> (\<exists>L. lists s l = Some L \<and> l_mutex L = x)"
    by (auto simp: caching_def ready_with_mutex dest: list_okD(2))
qed

lemma caching_walk:
  assumes ok: "list_ok s l L ns" and rdy: "ready (l_mutex L) s" and M: "managers s m = Some M" "m \<noteq> NULL"
    and cok: "cache_ok (nodes s) ns (m_cache_list M)"
  defines "v \<equiv> cache_pass ns (nodes s, m_cache_list M)"
  shows "linked_list_forEach l memman_CacheAlgorithmWorker m s =
      Done (NULL, m) (after_walk L ns (with_view m M v s))"
    "view_ok (nodes s) ns v"
proof -
  have v0: "view_ok (nodes s) ns (nodes s, m_cache_list M)" using cok by (simp add: view_ok_def)
  have "linked_list_forEach l memman_CacheAlgorithmWorker m s =
      Done (NULL, m) (after_walk L ns (with_view m M v s)) \<and> view_ok (nodes s) ns v"
  proof (cases "ns = []")
    case True
    then have v: "v = (nodes s, m_cache_list M)" by (simp add: v_def cache_pass_def)
    then have "with_view m M v s = s" using M by (simp add: with_view_def fun_upd_idem)
    then show ?thesis using forEach_empty [of s l L memman_CacheAlgorithmWorker m] ok rdy True v v0 by simp
  next
    case False
    have "locked (l_mutex L) s = locked (l_mutex L) (with_view m M (nodes s, m_cache_list M) s)"
      using M by (simp add: with_view_def fun_upd_idem)
    then have "caching l (l_mutex L) m M s ns ns 0 m (locked (l_mutex L) s)"
      unfolding caching_def using ok rdy M v0
      by (intro exI [of _ L] exI [of _ "[]"] exI [of _ "(nodes s, m_cache_list M)"]) (simp add: cache_pass_def)
    from list_cacher.forEach_visits [OF ok False refl rdy this] show ?thesis
      using False by (auto simp: runs_def caching_def after_walk_def v_def)
  qed
  then show "linked_list_forEach l memman_CacheAlgorithmWorker m s =
      Done (NULL, m) (after_walk L ns (with_view m M v s))" "view_ok (nodes s) ns v" by blast+
qed


lemma with_view_locks [simp]:
  "with_view m M v (locked x s) = locked x (with_view m M v s)"
  by (simp add: with_view_def)

lemma work_eq:
  assumes ok: "list_ok s l L ns" and rdy: "ready (l_mutex L) s" and M: "manager_at s m M"
    and cok: "cache_ok (nodes s) ns (m_cache_list M)"
  defines "v \<equiv> cache_pass ns (nodes s, m_cache_list M)"
  shows "runs (memman_work m l) s (\<lambda>_ t. settled (leaks L ns) s (with_view m M v s) t)"
    "view_ok (nodes s) ns v"
proof -
  note D = manager_atD [OF M]
  let ?x = "m_mutex_ref M"
  have rdy': "ready (l_mutex L) (locked ?x s)" using rdy by (simp add: ready_with_mutex)
  have ok': "list_ok (locked ?x s) l L ns" using ok by simp
  let ?W = "after_walk L ns (locked ?x (with_view m M v s))"
  have walk: "linked_list_forEach l memman_CacheAlgorithmWorker m (locked ?x s) = Done (NULL, m) ?W"
    and "view_ok (nodes s) ns v"
    using caching_walk [OF ok' rdy', of m M] D cok by (simp_all add: v_def)
  then show "view_ok (nodes s) ns v" by blast
  have rX: "ready ?x (with_view m M v s)" "ready (l_mutex L) (with_view m M v s)" using D rdy by simp_all
  have "settled {?x} s (with_view m M v s) (with_view m M v s)"
    by (rule settled_same) (simp_all add: with_view_def)
  then have "settled {?x} s (with_view m M v s) (locked ?x (with_view m M v s))"
    using rX by (simp add: settled_locked)
  then have W: "settled (insert ?x (leaks L ns)) s (with_view m M v s) ?W"
    using settled_after_walk [of "{?x}" s _ _ L ns] rX by (simp add: ready_with_mutex)
  have rW: "ready ?x ?W" using lockeq_ready [OF settled_lockeq [OF W] rX(1)] .
  have "managers ?W m = Some (M\<lparr>m_cache_list := snd v\<rparr>)" by simp
  then have "memman_work m l s = Done () (unlocked ?x ?W)"
    using D list_okD(1) [OF ok] walk rW
    by (simp add: memman_work_def manager_lock_eq [OF M] manager_unlock_eq)
  then show "runs (memman_work m l) s (\<lambda>_ t. settled (leaks L ns) s (with_view m M v s) t)"
    using settled_unlocked [OF W rW] by (simp add: runs_def)
qed

section \<open>The allocation limit\<close>

text \<open>With a limit set, an allocation is allowed when the accounted memory after it would
  still be below the limit; the sum is a \<open>size_t\<close> and wraps.\<close>

definition within_limit :: "alloc_manager_t \<Rightarrow> size_t \<Rightarrow> bool" where
  "within_limit M n \<longleftrightarrow> m_alloc_limit M = 0 \<or> m_global_memory_usage M + n < m_alloc_limit M"

lemma canAllocate_eq:
  "\<lbrakk>managers s m = Some M; m \<noteq> NULL\<rbrakk> \<Longrightarrow>
   memman_canAllocateBasedOnLimitAndSize m n s = Done (within_limit M n) s"
  by (auto simp: memman_canAllocateBasedOnLimitAndSize_def memman_getAllocLimit_def
      memman_getGlobalMemoryUsage_def within_limit_def MEMMAN_NO_ALLOC_LIMIT_def ret_def)

section \<open>What the pass leaves in the cache\<close>

text \<open>A usable slot stays usable through the pass, and the last light entry ends up in one.\<close>

lemma usable_put:
  assumes "\<exists>c \<in> set cs. eligible h c" "\<forall>c. eligible h c \<longrightarrow> eligible h' c" "eligible h' c0"
  shows "\<exists>c \<in> set (put_first P c0 cs). eligible h' c"
  using assms by (induction cs) auto

lemma put_first_in_set: "\<exists>c \<in> set cs. P c \<Longrightarrow> c0 \<in> set (put_first P c0 cs)"
  by (induction cs) auto

lemma eligible_touch: "eligible h c \<Longrightarrow> eligible (h(p \<mapsto> touch e)) c"
  by (auto simp: eligible_def touch_def)

lemma eligible_pair: "eligible (h(p \<mapsto> touch e)) (pair_for p x)"
  by (simp add: eligible_def touch_def pair_for_def)

lemma cache_step_usable:
  assumes "\<exists>c \<in> set (snd v). eligible (fst v) c"
  shows "\<exists>c \<in> set (snd (cache_step p v)). eligible (fst (cache_step p v)) c"
proof (cases v)
  case (Pair h cs)
  then show ?thesis using assms usable_put [of cs h "h(p \<mapsto> touch (the (h p)))"] eligible_touch eligible_pair
    by (simp add: Let_def)
qed

lemma cache_pass_usable:
  "\<exists>c \<in> set (snd v). eligible (fst v) c \<Longrightarrow> \<exists>c \<in> set (snd (cache_pass ps v)). eligible (fst (cache_pass ps v)) c"
proof (induction ps arbitrary: v)
  case (Cons p ps)
  show ?case using Cons.IH [OF cache_step_usable [OF Cons.prems, of p]]
    by (simp add: cache_pass_def del: cache_step.simps)
qed (simp add: cache_pass_def)

lemma cache_step_other: "q \<noteq> p \<Longrightarrow> fst (cache_step p v) q = fst v q"
  by (cases v) (simp add: Let_def)

lemma cache_pass_other: "q \<notin> set ps \<Longrightarrow> fst (cache_pass ps v) q = fst v q"
  by (induction ps arbitrary: v) (simp_all add: cache_pass_def cache_step_other del: cache_step.simps)

lemma cache_pass_heavy:
  "\<forall>q \<in> set ps. \<not> light (the (fst v q)) \<Longrightarrow> cache_pass ps v = v"
proof (induction ps arbitrary: v)
  case (Cons p ps)
  have "cache_step p v = v" using Cons.prems by (cases v) simp
  then show ?case using Cons by (simp add: cache_pass_def del: cache_step.simps)
qed (simp add: cache_pass_def)

lemma cache_pass_append: "cache_pass (ps @ qs) v = cache_pass qs (cache_pass ps v)"
  by (simp add: cache_pass_def)

lemma last_light_cached:
  assumes ns: "distinct (xs @ p # ys)" and light: "light (the (h p))" and rest: "\<forall>q \<in> set ys. \<not> light (the (h q))"
    and usable: "\<exists>c \<in> set cs. eligible h c"
  shows "pair_for p (the (h p)) \<in> set (snd (cache_pass (xs @ p # ys) (h, cs)))"
proof -
  let ?v = "cache_pass xs (h, cs)"
  have h: "fst ?v q = h q" if "q \<in> set (p # ys)" for q using cache_pass_other [of q xs "(h, cs)"] that ns by auto
  obtain h1 cs1 where v: "?v = (h1, cs1)" by fastforce
  have hp: "h1 p = h p" using h [of p] v by simp
  have u: "\<exists>c \<in> set cs1. eligible h1 c" using cache_pass_usable [of "(h, cs)" xs] usable v by simp
  let ?h' = "h1(p \<mapsto> touch (the (h p)))"
  have "\<exists>c \<in> set cs1. eligible ?h' c" using u eligible_touch by blast
  then have "pair_for p (the (h p)) \<in> set (snd (cache_step p ?v))"
    using light hp v put_first_in_set by (simp add: Let_def)
  moreover have "cache_pass ys (cache_step p ?v) = cache_step p ?v"
  proof (rule cache_pass_heavy, rule ballI)
    fix q assume q: "q \<in> set ys"
    then have "q \<noteq> p" using ns by auto
    then show "\<not> light (the (fst (cache_step p ?v) q))" using cache_step_other h q rest by simp
  qed
  moreover have "cache_pass (xs @ p # ys) (h, cs) = cache_pass ys (cache_step p ?v)"
    by (simp add: cache_pass_def del: cache_step.simps)
  ultimately show ?thesis by simp
qed

end
