(* ===== verification/Registry.thy ===== *)
theory Registry
  imports Alloc_Manager
begin

text \<open>
  The abstract view of the library: the registry of tracked blocks in the order of their
  registration, the accounted memory, the limit, the last error and the user's memory. \<open>sn_ok\<close>
  is the invariant of the concrete state between calls, \<open>models s a\<close> says that the
  machine \<open>s\<close> satisfies it and shows the abstract state \<open>a\<close>. The public calls are
  specified as operations on the abstract state.
\<close>

section \<open>The abstract state\<close>

record tracked_block =
  tb_data :: ptr
  tb_size :: size_t
  tb_tid :: tid_t
  tb_id :: block_id_t

record sn_state =
  registry :: "tracked_block list"
  usage :: size_t
  cap :: size_t
  last_error :: err_t
  memory :: "ptr \<rightharpoonup> byte list"

definition block_of :: "linked_list_entry_t \<Rightarrow> tracked_block" where
  "block_of e = \<lparr>tb_data = e_data e, tb_size = e_size e, tb_tid = e_tid e, tb_id = e_block_id e\<rparr>"

definition blocks_of :: "(ptr \<rightharpoonup> linked_list_entry_t) \<Rightarrow> ptr list \<Rightarrow> tracked_block list" where
  "blocks_of h ns = map (\<lambda>p. block_of (the (h p))) ns"

definition find_block :: "ptr \<Rightarrow> tracked_block list \<Rightarrow> tracked_block option" where
  "find_block p bs = find (\<lambda>b. tb_data b = p) bs"

lemma block_of_fields [simp]:
  "tb_data (block_of e) = e_data e" "tb_size (block_of e) = e_size e"
  "tb_tid (block_of e) = e_tid e" "tb_id (block_of e) = e_block_id e"
  by (simp_all add: block_of_def)

lemma block_of_core [simp]: "block_of (core e) = block_of e"
  by (simp add: block_of_def)

lemma block_of_info [simp]: "block_of (info e) = block_of e"
  by (simp add: block_of_def)

lemma blocks_of_simps [simp]:
  "blocks_of h [] = []"
  "blocks_of h (p # ps) = block_of (the (h p)) # blocks_of h ps"
  "blocks_of h (ps @ qs) = blocks_of h ps @ blocks_of h qs"
  by (simp_all add: blocks_of_def)

lemma blocks_of_cong:
  "(\<And>p. p \<in> set ns \<Longrightarrow> block_of (the (h p)) = block_of (the (h' p))) \<Longrightarrow> blocks_of h ns = blocks_of h' ns"
  by (simp add: blocks_of_def)

lemma blocks_of_cores:
  assumes "cores h' = cores h" "set ns \<subseteq> dom h"
  shows "blocks_of h' ns = blocks_of h ns"
proof (rule blocks_of_cong)
  fix p assume "p \<in> set ns"
  then obtain e where e: "h p = Some e" using assms(2) by blast
  obtain e' where "h' p = Some e'" "core e' = core e" using cores_Some [OF assms(1) e] .
  then show "block_of (the (h' p)) = block_of (the (h p))"
    using e by (metis block_of_core option.sel)
qed

lemma find_block_lookup:
  "NULL \<notin> set ns \<Longrightarrow> find_block k (blocks_of h ns) =
   (let p = lookup (\<lambda>e. e_data e = k) h ns in if p = NULL then None else Some (block_of (the (h p))))"
  by (induction ns) (auto simp: find_block_def Let_def)

lemma data_in_blocks: "p \<in> set ns \<Longrightarrow> e_data (the (h p)) \<in> set (map tb_data (blocks_of h ns))"
  by (auto simp: blocks_of_def)

section \<open>The invariant between calls\<close>

text \<open>The two mutexes are different objects, and live unless null.\<close>

definition mutexes_ok :: "machine \<Rightarrow> ptr \<Rightarrow> ptr \<Rightarrow> bool" where
  "mutexes_ok s x y \<longleftrightarrow> (x \<noteq> NULL \<longrightarrow> x \<in> dom (mutexes s)) \<and> (y \<noteq> NULL \<longrightarrow> y \<in> dom (mutexes s)) \<and>
     (x = y \<longrightarrow> x = NULL)"

lemma mutexes_ok_cong: "dom (mutexes t) = dom (mutexes s) \<Longrightarrow> mutexes_ok t x y = mutexes_ok s x y"
  by (simp add: mutexes_ok_def)

definition sn_ok :: "machine \<Rightarrow> linked_list_t \<Rightarrow> alloc_manager_t \<Rightarrow> ptr list \<Rightarrow> bool" where
  "sn_ok s L M ns \<longleftrightarrow>
     list_ok s (mem_list s) L ns \<and> ready (l_mutex L) s \<and>
     manager_at s (memory_manager s) M \<and> m_mutex_ref M = alloc_mutex s \<and>
     cache_ok (nodes s) ns (m_cache_list M) \<and> split_ok s \<and> mutexes_ok s (l_mutex L) (alloc_mutex s)"

definition abstract :: "alloc_manager_t \<Rightarrow> ptr list \<Rightarrow> machine \<Rightarrow> sn_state" where
  "abstract M ns s = \<lparr>registry = blocks_of (nodes s) ns, usage = m_global_memory_usage M,
     cap = m_alloc_limit M, last_error = error_code s, memory = blocks s\<rparr>"

definition models :: "machine \<Rightarrow> sn_state \<Rightarrow> bool" where
  "models s a \<longleftrightarrow> (\<exists>L M ns. sn_ok s L M ns \<and> a = abstract M ns s)"

lemma sn_okD:
  assumes "sn_ok s L M ns"
  shows "list_ok s (mem_list s) L ns" "ready (l_mutex L) s" "manager_at s (memory_manager s) M"
    "m_mutex_ref M = alloc_mutex s" "cache_ok (nodes s) ns (m_cache_list M)" "split_ok s"
    "ready (alloc_mutex s) s" "managers s (memory_manager s) = Some M" "memory_manager s \<noteq> NULL"
    "mutexes_ok s (l_mutex L) (alloc_mutex s)"
  using assms by (auto simp: sn_ok_def manager_at_def)

lemma sn_ok_dom: "sn_ok s L M ns \<Longrightarrow> set ns \<subseteq> dom (nodes s)"
  using seg_dom [OF list_okD(3) [OF sn_okD(1)]] by force

lemma sn_ok_lockeq:
  assumes "lockeq s t" "sn_ok s L M ns"
  shows "sn_ok t L M ns"
  using assms(2) lockeq_ready [OF assms(1)] lockeq_split_ok [OF assms(1)]
    mutexes_ok_cong [OF lockeq_fields(17) [OF assms(1)]]
  by (auto simp: sn_ok_def manager_at_def lockeq_fields [OF assms(1)] elim: list_ok_cong)

lemma abstract_lockeq: "lockeq s t \<Longrightarrow> abstract M ns t = abstract M ns s"
  by (simp add: abstract_def lockeq_fields)

lemma models_lockeq: "lockeq s t \<Longrightarrow> models s a \<Longrightarrow> models t a"
  unfolding models_def using sn_ok_lockeq abstract_lockeq by metis

text \<open>Changes the invariant does not notice.\<close>

lemma sn_ok_error [simp]: "sn_ok (s\<lparr>error_code := e\<rparr>) L M ns = sn_ok s L M ns"
  by (auto simp: sn_ok_def manager_at_def list_ok_def split_ok_def mutexes_ok_def)

text \<open>Setting the last error, on both levels.\<close>

lemma set_error:
  assumes "sn_ok s L M ns"
  shows "runs (sn_error e v) s (\<lambda>r t. r = v \<and> settled {} s (s\<lparr>error_code := err_code e\<rparr>) t)"
proof -
  let ?X = "s\<lparr>error_code := err_code e\<rparr>"
  have rdy: "ready (alloc_mutex s) ?X" using sn_okD(7) [OF assms] by simp
  have "settled {alloc_mutex s} s ?X ?X" by (rule settled_same) simp_all
  then have "settled {} s ?X (unlocked (alloc_mutex s) ?X)" using rdy by (rule settled_unlocked)
  then show ?thesis by (simp add: runs_def sn_error_ready [OF sn_okD(7) [OF assms]])
qed

section \<open>The pass that every query starts with\<close>

definition worked :: "alloc_manager_t \<Rightarrow> ptr list \<Rightarrow> machine \<Rightarrow> machine" where
  "worked M ns s = with_view (memory_manager s) M (cache_pass ns (nodes s, m_cache_list M)) s"

definition worked_manager :: "alloc_manager_t \<Rightarrow> ptr list \<Rightarrow> machine \<Rightarrow> alloc_manager_t" where
  "worked_manager M ns s = M\<lparr>m_cache_list := snd (cache_pass ns (nodes s, m_cache_list M))\<rparr>"

lemma worked_fields [simp]:
  "lists (worked M ns s) = lists s" "blocks (worked M ns s) = blocks s" "mutexes (worked M ns s) = mutexes s"
  "mem_list (worked M ns s) = mem_list s" "alloc_mutex (worked M ns s) = alloc_mutex s"
  "memory_manager (worked M ns s) = memory_manager s" "error_code (worked M ns s) = error_code s"
  "cfg_mutex (worked M ns s) = cfg_mutex s" "cfg_sanitize (worked M ns s) = cfg_sanitize s"
  "current (worked M ns s) = current s" "malloc_answers (worked M ns s) = malloc_answers s"
  "ready x (worked M ns s) = ready x s"
  by (simp_all add: worked_def with_view_def)

lemma worked_manager_fields [simp]:
  "m_use_cache (worked_manager M ns s) = m_use_cache M" "m_cache_lock (worked_manager M ns s) = m_cache_lock M"
  "m_alloc_limit (worked_manager M ns s) = m_alloc_limit M" "m_mutex_ref (worked_manager M ns s) = m_mutex_ref M"
  "m_global_memory_usage (worked_manager M ns s) = m_global_memory_usage M"
  "m_available_cache_slots (worked_manager M ns s) = m_available_cache_slots M"
  by (simp_all add: worked_manager_def)

lemma cores_worked:
  "sn_ok s L M ns \<Longrightarrow> cores (nodes (worked M ns s)) = cores (nodes s)"
  using work_eq(2) [of s "mem_list s" L ns "memory_manager s" M] by (auto simp: sn_ok_def view_ok_def worked_def)

lemma sn_ok_worked:
  assumes "sn_ok s L M ns"
  shows "sn_ok (worked M ns s) L (worked_manager M ns s) ns"
proof -
  note D = sn_okD [OF assms]
  have v: "view_ok (nodes s) ns (cache_pass ns (nodes s, m_cache_list M))"
    by (rule work_eq(2) [OF D(1,2,3,5)])
  have "list_ok (worked M ns s) (mem_list s) L ns"
    using list_ok_cores [OF D(1) cores_worked [OF assms]] by simp
  moreover have "split_ok (worked M ns s)"
    using D(6) by (rule split_ok_cong)
      (use D(8) cores_dom [OF cores_worked [OF assms]] in \<open>auto simp: worked_def\<close>)
  ultimately show ?thesis using D(2-4,10) v
    by (simp add: sn_ok_def manager_at_def view_ok_def worked_manager_def mutexes_ok_cong [of "worked M ns s" s])
      (simp add: worked_def)
qed

lemma abstract_worked:
  assumes "sn_ok s L M ns"
  shows "abstract (worked_manager M ns s) ns (worked M ns s) = abstract M ns s"
  using blocks_of_cores [OF cores_worked [OF assms] sn_ok_dom [OF assms]] by (simp add: abstract_def)

lemma work_runs:
  assumes "sn_ok s L M ns"
  shows "runs (memman_work (memory_manager s) (mem_list s)) s
    (\<lambda>_ t. settled (leaks L ns) s (worked M ns s) t)"
  unfolding worked_def by (rule work_eq(1)) (use sn_okD [OF assms] in simp_all)

section \<open>Calls that only look\<close>

text \<open>
  \<open>reads A e s L M ns t L' M'\<close>: between \<open>s\<close> and \<open>t\<close> nothing has changed but weights, cache
  marks, the cache, \<open>lastAccess\<close>, locks (those in \<open>A\<close> may be left taken) and the last error,
  which is now \<open>e\<close>. Every lookup and query of the library has this effect.
\<close>

definition reads :: "ptr set \<Rightarrow> err_t \<Rightarrow> machine \<Rightarrow> linked_list_t \<Rightarrow> alloc_manager_t \<Rightarrow> ptr list
    \<Rightarrow> machine \<Rightarrow> linked_list_t \<Rightarrow> alloc_manager_t \<Rightarrow> bool" where
  "reads A e s L M ns t L' M' \<longleftrightarrow>
     sn_ok t L' M' ns \<and> cores (nodes t) = cores (nodes s) \<and>
     (\<exists>a. L' = L\<lparr>l_lastAccess := a\<rparr>) \<and>
     (\<exists>cs k. M' = M\<lparr>m_cache_list := cs, m_available_cache_slots := k\<rparr>) \<and>
     (\<exists>h mx. t = s\<lparr>nodes := h, lists := (lists s)(mem_list s \<mapsto> L'),
        managers := (managers s)(memory_manager s \<mapsto> M'), mutexes := mx, error_code := e\<rparr>) \<and>
     dom (mutexes t) = dom (mutexes s) \<and> (\<forall>m. m \<notin> A \<longrightarrow> released m s \<longrightarrow> released m t)"

lemma readsD:
  assumes "reads A e s L M ns t L' M'"
  shows "sn_ok t L' M' ns" "cores (nodes t) = cores (nodes s)" "error_code t = e"
    "blocks t = blocks s" "malloc_answers t = malloc_answers s" "files t = files s"
    "io_answers t = io_answers s" "current t = current s" "cfg_mutex t = cfg_mutex s"
    "cfg_sanitize t = cfg_sanitize s" "mem_list t = mem_list s" "alloc_mutex t = alloc_mutex s"
    "memory_manager t = memory_manager s" "doFree t = doFree s"
    "dom (mutexes t) = dom (mutexes s)" "\<And>m. m \<notin> A \<Longrightarrow> released m s \<Longrightarrow> released m t"
    "lists t = (lists s)(mem_list s \<mapsto> L')" "managers t = (managers s)(memory_manager s \<mapsto> M')"
  using assms by (auto simp: reads_def)

lemma reads_list:
  assumes "reads A e s L M ns t L' M'"
  shows "l_head L' = l_head L" "l_len L' = l_len L" "l_firstEntry L' = l_firstEntry L"
    "l_lastEntry L' = l_lastEntry L" "l_mutex L' = l_mutex L" "leaks L' ns = leaks L ns"
  using assms by (auto simp: reads_def leaks_def)

lemma reads_manager:
  assumes "reads A e s L M ns t L' M'"
  shows "m_use_cache M' = m_use_cache M" "m_cache_lock M' = m_cache_lock M"
    "m_alloc_limit M' = m_alloc_limit M" "m_global_memory_usage M' = m_global_memory_usage M"
    "m_mutex_ref M' = m_mutex_ref M" "within_limit M' n = within_limit M n"
  using assms by (auto simp: reads_def within_limit_def)

lemma reads_trans:
  assumes "reads A e s L M ns t L' M'" "reads B f t L' M' ns u L'' M''"
  shows "reads (A \<union> B) f s L M ns u L'' M''"
proof -
  obtain h mx where t: "t = s\<lparr>nodes := h, lists := (lists s)(mem_list s \<mapsto> L'),
        managers := (managers s)(memory_manager s \<mapsto> M'), mutexes := mx, error_code := e\<rparr>"
    using assms(1) unfolding reads_def by blast
  obtain h' mx' where u: "u = t\<lparr>nodes := h', lists := (lists t)(mem_list t \<mapsto> L''),
        managers := (managers t)(memory_manager t \<mapsto> M''), mutexes := mx', error_code := f\<rparr>"
    using assms(2) unfolding reads_def by blast
  have "u = s\<lparr>nodes := h', lists := (lists s)(mem_list s \<mapsto> L''),
        managers := (managers s)(memory_manager s \<mapsto> M''), mutexes := mx', error_code := f\<rparr>"
    unfolding u t by (cases s) simp
  then have "\<exists>h mx. u = s\<lparr>nodes := h, lists := (lists s)(mem_list s \<mapsto> L''),
        managers := (managers s)(memory_manager s \<mapsto> M''), mutexes := mx, error_code := f\<rparr>" by blast
  moreover obtain a b where "L' = L\<lparr>l_lastAccess := a\<rparr>" "L'' = L'\<lparr>l_lastAccess := b\<rparr>"
    using assms unfolding reads_def by blast
  then have "\<exists>b. L'' = L\<lparr>l_lastAccess := b\<rparr>" by (cases L) auto
  moreover obtain cs k cs' k' where "M' = M\<lparr>m_cache_list := cs, m_available_cache_slots := k\<rparr>"
      "M'' = M'\<lparr>m_cache_list := cs', m_available_cache_slots := k'\<rparr>"
    using assms unfolding reads_def by blast
  then have "\<exists>cs k. M'' = M\<lparr>m_cache_list := cs, m_available_cache_slots := k\<rparr>" by (cases M) auto
  ultimately show ?thesis using assms readsD(1,2,15,16) [OF assms(1)] readsD(1,2,15,16) [OF assms(2)]
    unfolding reads_def [of "A \<union> B"] by simp
qed

lemma reads_same:
  "\<lbrakk>reads A e s L M ns t L' M'; reads {} (error_code t) t L' M' ns u L'' M''\<rbrakk>
   \<Longrightarrow> reads A e s L M ns u L'' M''"
  using reads_trans readsD(3) by fastforce

lemma reads_mono: "reads A e s L M ns t L' M' \<Longrightarrow> A \<subseteq> B \<Longrightarrow> reads B e s L M ns t L' M'"
  unfolding reads_def by blast

lemma reads_refl: "sn_ok s L M ns \<Longrightarrow> reads {} (error_code s) s L M ns s L M"
  unfolding reads_def using sn_okD(1,8) [of s L M ns] list_okD(2) [of s "mem_list s" L ns]
  by (auto simp: fun_upd_idem intro!: exI [of _ "nodes s"] exI [of _ "mutexes s"]
      exI [of _ "l_lastAccess L"] exI [of _ "m_cache_list M"] exI [of _ "m_available_cache_slots M"])

lemma reads_abstract:
  assumes "sn_ok s L M ns" "reads A e s L M ns t L' M'"
  shows "abstract M' ns t = (abstract M ns s)\<lparr>last_error := e\<rparr>"
  using blocks_of_cores [OF readsD(2) [OF assms(2)] sn_ok_dom [OF assms(1)]]
    readsD(3,4) [OF assms(2)] reads_manager [OF assms(2)]
  by (simp add: abstract_def)

lemma reads_models:
  "\<lbrakk>sn_ok s L M ns; reads A e s L M ns t L' M'\<rbrakk> \<Longrightarrow> models t ((abstract M ns s)\<lparr>last_error := e\<rparr>)"
  unfolding models_def using readsD(1) reads_abstract by metis

lemma reads_can_place:
  assumes "sn_ok s L M ns" "reads A e s L M ns t L' M'"
  shows "can_place t p n = can_place s p n"
proof -
  have 1: "nodes t p = None \<longleftrightarrow> nodes s p = None" by (rule cores_None [OF readsD(2) [OF assms(2)]])
  have 2: "mutexes t p = None \<longleftrightarrow> mutexes s p = None" using readsD(15) [OF assms(2)] by (metis domIff)
  show ?thesis using 1 2 readsD [OF assms(2)] list_okD(2) [OF sn_okD(1) [OF assms(1)]] sn_okD(8) [OF assms(1)]
    by (auto simp: can_place_def live_def)
qed

lemma readsI:
  assumes ok: "sn_ok s L M ns" and t: "settled A s X t"
    and X: "X = s\<lparr>nodes := h, lists := (lists s)(mem_list s \<mapsto> L'),
        managers := (managers s)(memory_manager s \<mapsto> M'), error_code := e\<rparr>"
    and h: "cores h = cores (nodes s)" and L': "L' = L\<lparr>l_lastAccess := a\<rparr>"
    and M': "M' = M\<lparr>m_cache_list := cs, m_available_cache_slots := k\<rparr>" and cs: "cache_ok h ns cs"
  shows "reads A e s L M ns t L' M'"
proof -
  note D = sn_okD [OF ok]
  have "list_ok (s\<lparr>lists := (lists s)(mem_list s \<mapsto> L')\<rparr>) (mem_list s) L' ns"
    unfolding L' using D(1) by (rule list_ok_lastAccess)
  then have "list_ok X (mem_list s) L' ns"
    by (rule list_ok_cores) (simp_all add: X h)
  then have l: "list_ok X (mem_list X) L' ns" by (simp add: X)
  have "split_ok X" using D(6)
    by (rule split_ok_cong) (use D(8) list_okD(2) [OF D(1)] cores_dom [OF h] in \<open>auto simp: X\<close>)
  then have "sn_ok X L' M' ns" using l D(2-4,10) cs
    by (simp add: sn_ok_def manager_at_def M' L' mutexes_ok_cong [of X s])
      (auto simp: X M' manager_at_def ready_def mutexes_ok_def)
  moreover have lq: "lockeq X t" using t by (rule settled_lockeq)
  ultimately have "sn_ok t L' M' ns" using sn_ok_lockeq by blast
  moreover obtain mx where "t = X\<lparr>mutexes := mx\<rparr>" using lq by (rule lockeqE)
  then have "t = s\<lparr>nodes := h, lists := (lists s)(mem_list s \<mapsto> L'),
        managers := (managers s)(memory_manager s \<mapsto> M'), mutexes := mx, error_code := e\<rparr>"
    unfolding X by (cases s) simp
  ultimately show ?thesis
    using t L' M' lockeq_fields(1,17) [OF lq] h unfolding reads_def settled_def by (auto simp: X)
qed


text \<open>The operations below the public calls, in these terms.\<close>

lemma settled_after_lock:
  assumes "mutexes X = mutexes s" "cfg_mutex X = cfg_mutex s" "ready m X"
  shows "settled A s X (unlocked m X)"
  using settled_same [of X s "insert m A"] assms by (auto intro: settled_unlocked)

lemma sn_ok_lists [simp]: "sn_ok s L M ns \<Longrightarrow> lists s (mem_list s) = Some L"
  using list_okD(2) sn_okD(1) by blast

lemma reads_work:
  assumes "sn_ok s L M ns"
  shows "runs (memman_work (memory_manager s) (mem_list s)) s
    (\<lambda>_ t. reads (leaks L ns) (error_code s) s L M ns t L (worked_manager M ns s))"
proof (rule runs_mono [OF work_runs [OF assms]])
  fix u t assume t: "settled (leaks L ns) s (worked M ns s) t"
  let ?v = "cache_pass ns (nodes s, m_cache_list M)"
  show "reads (leaks L ns) (error_code s) s L M ns t L (worked_manager M ns s)"
  proof (rule readsI [OF assms t, where a = "l_lastAccess L" and cs = "snd ?v" and k = "m_available_cache_slots M"])
    show "worked M ns s = s\<lparr>nodes := fst ?v, lists := (lists s)(mem_list s \<mapsto> L),
        managers := (managers s)(memory_manager s \<mapsto> worked_manager M ns s), error_code := error_code s\<rparr>"
      using sn_ok_lists [OF assms] by (simp add: worked_def with_view_def worked_manager_def fun_upd_idem)
    show "cache_ok (fst ?v) ns (snd ?v)" "cores (fst ?v) = cores (nodes s)"
      using sn_ok_worked [OF assms] cores_worked [OF assms]
      by (simp_all add: sn_ok_def worked_def worked_manager_def)
  qed (simp_all add: worked_manager_def)
qed

lemma reads_TryCacheHit:
  assumes ok: "sn_ok s L M ns"
  shows "runs (memman_TryCacheHit (memory_manager s) key) s
    (\<lambda>r t. r = cached_entry M key \<and> reads {} (error_code s) s L M ns t L M)"
proof -
  note D = sn_okD [OF ok]
  let ?v = "cached_entry M key" and ?h = "nodes s"
  have I: "reads {} (error_code s) s L M ns (unlocked (alloc_mutex s) (s\<lparr>nodes := h\<rparr>)) L M"
    if h: "cores h = cores (nodes s)" for h
  proof (rule readsI [OF ok _ _ h, where a = "l_lastAccess L" and cs = "m_cache_list M" and k = "m_available_cache_slots M"])
    show "settled {} s (s\<lparr>nodes := h\<rparr>) (unlocked (alloc_mutex s) (s\<lparr>nodes := h\<rparr>))"
      using D(7) by (intro settled_after_lock) simp_all
    show "cache_ok h ns (m_cache_list M)" using cache_ok_cores [OF h D(5)] .
  qed (use ok D(8) in \<open>simp_all add: fun_upd_idem\<close>)
  consider (off) "\<not> m_use_cache M" | (miss) "m_use_cache M" "?v = MEMMAN_CACHE_MISS"
    | (hit) "m_use_cache M" "?v \<noteq> MEMMAN_CACHE_MISS" by blast
  then show ?thesis
  proof cases
    case off
    then show ?thesis using TryCacheHit_eq [OF D(3,5), of key] reads_refl [OF ok]
      by (simp add: runs_def cached_entry_def)
  next
    case miss
    then show ?thesis using TryCacheHit_eq [OF D(3,5), of key] I [OF refl] D(4) by (simp add: runs_def)
  next
    case hit
    obtain e where "?h ?v = Some e" using cached_entry_hit [OF D(5) hit(2)] by blast
    then show ?thesis using hit TryCacheHit_eq [OF D(3,5), of key] I [of "?h(?v \<mapsto> bump e)"] D(4)
      by (simp add: runs_def)
  qed
qed

lemma reads_TryCacheHitById:
  assumes ok: "sn_ok s L M ns"
  shows "runs (memman_TryCacheHitById (memory_manager s) b) s
    (\<lambda>r t. r = cached_id (nodes s) M b \<and> reads {} (error_code s) s L M ns t L M)"
proof -
  note D = sn_okD [OF ok]
  have "reads {} (error_code s) s L M ns (unlocked (alloc_mutex s) s) L M"
  proof (rule readsI [OF ok _ _ refl, where a = "l_lastAccess L" and cs = "m_cache_list M" and k = "m_available_cache_slots M"])
    show "settled {} s s (unlocked (alloc_mutex s) s)" using D(7) by (intro settled_after_lock) simp_all
  qed (use ok D(5,8) in \<open>simp_all add: fun_upd_idem\<close>)
  then show ?thesis using TryCacheHitById_eq [OF D(3,5), of b] D(4) reads_refl [OF ok]
    by (simp add: runs_def)
qed

lemma reads_after_walk:
  assumes ok: "sn_ok s L M ns"
  shows "reads (leaks L ns) (error_code s) s L M ns (after_walk L ns s) L M"
proof (rule readsI [OF ok _ _ refl, where a = "l_lastAccess L" and cs = "m_cache_list M" and k = "m_available_cache_slots M"])
  show "settled (leaks L ns) s s (after_walk L ns s)"
    using settled_after_walk [of "{}" s s s L ns] settled_same [of s s "{}"] sn_okD(2) [OF ok] by simp
qed (use ok sn_okD [OF ok] in \<open>simp_all add: fun_upd_idem\<close>)

text \<open>A state where a lookup has been noted.\<close>

lemma reads_accessed:
  assumes ok: "sn_ok s L M ns" and h: "cores h = cores (nodes s)"
  shows "reads {} (error_code s) s L M ns
    (unlocked (l_mutex L) (s\<lparr>lists := (lists s)(mem_list s \<mapsto> L\<lparr>l_lastAccess := p\<rparr>), nodes := h\<rparr>))
    (L\<lparr>l_lastAccess := p\<rparr>) M"
proof (rule readsI [OF ok _ _ h, where a = p and cs = "m_cache_list M" and k = "m_available_cache_slots M"])
  let ?X = "s\<lparr>lists := (lists s)(mem_list s \<mapsto> L\<lparr>l_lastAccess := p\<rparr>), nodes := h\<rparr>"
  show "settled {} s ?X (unlocked (l_mutex L) ?X)"
    using sn_okD(2) [OF ok] by (intro settled_after_lock) simp_all
  show "cache_ok h ns (m_cache_list M)" using cache_ok_cores [OF h sn_okD(5) [OF ok]] .
  show "?X = s\<lparr>nodes := h, lists := (lists s)(mem_list s \<mapsto> L\<lparr>l_lastAccess := p\<rparr>),
      managers := (managers s)(memory_manager s \<mapsto> M), error_code := error_code s\<rparr>"
    using sn_okD(8) [OF ok] by (cases s) (simp add: fun_upd_idem)
qed simp_all

lemma reads_getByPtr:
  assumes ok: "sn_ok s L M ns" and key: "key \<noteq> NULL"
  shows "runs (linked_list_getByPtr (mem_list s) key) s (\<lambda>r t.
    r = lookup (\<lambda>e. e_data e = key) (nodes s) ns \<and>
    (\<exists>L'. reads (leaks L ns) (error_code s) s L M ns t L' M))"
proof -
  note D = sn_okD [OF ok]
  let ?p = "lookup (\<lambda>e. e_data e = key) (nodes s) ns"
  show ?thesis
  proof (cases "?p = NULL")
    case True
    then show ?thesis using getByPtr_eq [OF D(1,2) key] reads_after_walk [OF ok] by (auto simp: runs_def)
  next
    case False
    then obtain e where "nodes s ?p = Some e" using lookup_live [OF D(1)] by metis
    then have "cores ((nodes s)(?p \<mapsto> bump (the (nodes s ?p)))) = cores (nodes s)" by simp
    from reads_accessed [OF ok this, of ?p] have
      "reads (leaks L ns) (error_code s) s L M ns (unlocked (l_mutex L) (accessed (mem_list s) L ?p s))
         (L\<lparr>l_lastAccess := ?p\<rparr>) M"
      unfolding accessed_def by (rule reads_mono) simp
    then show ?thesis using False getByPtr_eq [OF D(1,2) key] by (auto simp: runs_def)
  qed
qed

lemma reads_hasPtr:
  assumes ok: "sn_ok s L M ns" and key: "key \<noteq> NULL"
  shows "runs (linked_list_hasPtr (mem_list s) key) s (\<lambda>r t.
    r = (lookup (\<lambda>e. e_data e = key) (nodes s) ns \<noteq> NULL) \<and>
    (\<exists>L'. reads {} (error_code s) s L M ns t L' M))"
proof -
  note D = sn_okD [OF ok]
  let ?p = "lookup (\<lambda>e. e_data e = key) (nodes s) ns"
  have "reads {} (error_code s) s L M ns (unlocked (l_mutex L) s) L M"
    using reads_accessed [OF ok refl, of "l_lastAccess L"] ok by (simp add: fun_upd_idem)
  moreover have "s\<lparr>lists := (lists s)(mem_list s \<mapsto> L\<lparr>l_lastAccess := ?p\<rparr>), nodes := nodes s\<rparr> =
      s\<lparr>lists := (lists s)(mem_list s \<mapsto> L\<lparr>l_lastAccess := ?p\<rparr>)\<rparr>" by simp
  ultimately show ?thesis using hasPtr_eq [OF D(1,2) key] reads_accessed [OF ok refl, of ?p]
    by (auto simp: runs_def)
qed


lemma reads_getById:
  assumes ok: "sn_ok s L M ns"
  shows "runs (linked_list_getById (mem_list s) i) s (\<lambda>r t.
    r = lookup (\<lambda>e. e_block_id e = i) (nodes s) ns \<and>
    (\<exists>L'. reads (if ns = [] then {l_mutex L} else {}) (error_code s) s L M ns t L' M))"
proof -
  note D = sn_okD [OF ok]
  let ?p = "lookup (\<lambda>e. e_block_id e = i) (nodes s) ns"
  let ?A = "if ns = [] then {l_mutex L} else {}"
  show ?thesis
  proof (cases "?p = NULL")
    case True
    have "settled {l_mutex L} s s (locked (l_mutex L) s)"
      using settled_same [of s s "{l_mutex L}"] D(2) by (intro settled_locked) simp_all
    then have "reads {l_mutex L} (error_code s) s L M ns (locked (l_mutex L) s) L M"
      by (rule readsI [OF ok _ _ refl, where a = "l_lastAccess L" and cs = "m_cache_list M"
            and k = "m_available_cache_slots M"]) (use ok D in \<open>simp_all add: fun_upd_idem\<close>)
    moreover have "reads {} (error_code s) s L M ns (unlocked (l_mutex L) s) L M"
      using reads_accessed [OF ok refl, of "l_lastAccess L"] ok by (simp add: fun_upd_idem)
    ultimately show ?thesis using True getById_eq [OF D(1,2), of i] by (auto simp: runs_def)
  next
    case False
    then obtain e where "nodes s ?p = Some e" using lookup_live [OF D(1)] by metis
    then have "cores ((nodes s)(?p \<mapsto> bump (the (nodes s ?p)))) = cores (nodes s)" by simp
    from reads_accessed [OF ok this, of ?p] have
      "reads ?A (error_code s) s L M ns (unlocked (l_mutex L) (accessed (mem_list s) L ?p s))
         (L\<lparr>l_lastAccess := ?p\<rparr>) M"
      unfolding accessed_def by (rule reads_mono) simp
    then show ?thesis using False getById_eq [OF D(1,2), of i] by (auto simp: runs_def)
  qed
qed

lemma reads_error:
  assumes ok: "sn_ok s L M ns"
  shows "runs (sn_error e v) s (\<lambda>r t. r = v \<and> reads {} (err_code e) s L M ns t L M)"
proof (rule runs_mono [OF set_error [OF ok]], elim conjE, intro conjI)
  fix r t assume "settled {} s (s\<lparr>error_code := err_code e\<rparr>) t"
  then show "reads {} (err_code e) s L M ns t L M"
    by (rule readsI [OF ok _ _ refl, where a = "l_lastAccess L" and cs = "m_cache_list M"
          and k = "m_available_cache_slots M"]) (use ok sn_okD [OF ok] in \<open>simp_all add: fun_upd_idem\<close>)
qed

lemma reads_manager_update:
  assumes ok: "sn_ok s L M ns" and h: "cores h = cores (nodes s)"
    and M': "M' = M\<lparr>m_cache_list := cs, m_available_cache_slots := k\<rparr>" and cs: "cache_ok h ns cs"
  shows "reads {} (error_code s) s L M ns (unlocked (alloc_mutex s)
    (s\<lparr>nodes := h, managers := (managers s)(memory_manager s \<mapsto> M')\<rparr>)) L M'"
proof (rule readsI [OF ok _ _ h _ M' cs, where a = "l_lastAccess L"])
  let ?X = "s\<lparr>nodes := h, managers := (managers s)(memory_manager s \<mapsto> M')\<rparr>"
  show "settled {} s ?X (unlocked (alloc_mutex s) ?X)"
    using sn_okD(7) [OF ok] by (intro settled_after_lock) simp_all
qed (use ok in \<open>simp_all add: fun_upd_idem\<close>)

lemma reads_cacheInvalidate:
  assumes ok: "sn_ok s L M ns"
  shows "runs (memman_cacheInvalidate (memory_manager s) key) s
    (\<lambda>_ t. reads {} (error_code s) s L M ns t L (emptied (key_hit key) M))"
proof -
  note D = sn_okD [OF ok]
  have "reads {} (error_code s) s L M ns (unlocked (alloc_mutex s)
      (s\<lparr>nodes := marked False (held (key_hit key) (m_cache_list M)) (nodes s),
         managers := (managers s)(memory_manager s \<mapsto> emptied (key_hit key) M)\<rparr>)) L (emptied (key_hit key) M)"
    using D(5) by (intro reads_manager_update [OF ok]) (auto simp: emptied_def intro: cache_ok_dropped cache_ok_cores)
  then show ?thesis using cacheInvalidate_eq [OF D(3,5), of key] D(4) by (simp add: runs_def)
qed

lemma reads_cacheClear:
  assumes ok: "sn_ok s L M ns"
  shows "runs (memman_cacheClear (memory_manager s)) s
    (\<lambda>_ t. reads {} (error_code s) s L M ns t L (emptied (\<lambda>c. cp_key c \<noteq> NULL) M))"
proof -
  note D = sn_okD [OF ok]
  let ?P = "\<lambda>c. cp_key c \<noteq> NULL"
  have "reads {} (error_code s) s L M ns (unlocked (alloc_mutex s)
      (s\<lparr>nodes := marked True (held ?P (m_cache_list M)) (nodes s),
         managers := (managers s)(memory_manager s \<mapsto> emptied ?P M)\<rparr>)) L (emptied ?P M)"
    using D(5) by (intro reads_manager_update [OF ok]) (auto simp: emptied_def intro: cache_ok_dropped cache_ok_cores)
  then show ?thesis using cacheClear_eq [OF D(3,5)] D(4) by (simp add: runs_def)
qed

text \<open>Putting an entry of the list in the cache, when there is room.\<close>

lemma reads_tryCachePut:
  assumes ok: "sn_ok s L M ns" and p: "p \<in> set ns"
    and room: "m_cache_lock M \<or> \<not> m_use_cache M \<or> m_available_cache_slots M = 0 \<or>
      (\<exists>c \<in> set (m_cache_list M). free_slot c)"
  shows "runs (memman_tryCachePut (memory_manager s) p) s (\<lambda>r t.
    r = (\<not> m_cache_lock M \<and> m_use_cache M \<and> m_available_cache_slots M \<noteq> 0) \<and>
    (\<exists>M'. reads {} (error_code s) s L M ns t L M'))"
proof -
  note D = sn_okD [OF ok]
  obtain e where e: "nodes s p = Some e" using list_ok_node [OF D(1) p] by blast
  have p0: "p \<noteq> NULL" using p list_okD(5) [OF D(1)] by auto
  let ?h = "(nodes s)(p \<mapsto> e\<lparr>e_cached := True\<rparr>)"
  let ?cs = "put_first free_slot (pair_for p e) (m_cache_list M)" and ?k = "m_available_cache_slots M - 1"
  have h: "cores ?h = cores (nodes s)" using e by simp
  have "cache_ok ?h ns (put_first free_slot (pair_for p (e\<lparr>e_cached := True\<rparr>)) (m_cache_list M))"
    using cache_ok_put [OF cache_ok_cores [OF h D(5)] p0 p] by simp
  then have "cache_ok ?h ns ?cs" by (simp add: pair_for_def)
  from reads_manager_update [OF ok h refl this, of ?k]
  show ?thesis using tryCachePut_eq [OF D(3) _ e] D(4,5) room reads_refl [OF ok]
    by (auto simp: runs_def cache_ok_def)
qed

section \<open>Calls that change the registry\<close>

text \<open>
  The list part of an allocation: \<open>linked_list_push\<close> appends an entry, or stops the
  program when there is no memory for one.
\<close>

definition tracked_in :: "machine \<Rightarrow> linked_list_t \<Rightarrow> ptr list \<Rightarrow> ptr \<Rightarrow> (ptr \<times> byte list) list
    \<Rightarrow> ptr \<Rightarrow> size_t \<Rightarrow> tid_t \<Rightarrow> machine" where
  "tracked_in s L ns q rest d n t =
     s\<lparr>malloc_answers := rest, nodes := pushed_nodes q L d n t (nodes s),
       lists := (lists s)(mem_list s \<mapsto> pushed_list q ns L)\<rparr>"

lemma block_of_new: "block_of ((new_entry prv d n t)\<lparr>e_mutex := m\<rparr>) =
    \<lparr>tb_data = d, tb_size = n, tb_tid = t, tb_id = 0\<rparr>"
  by (simp add: block_of_def new_entry_def zero_entry_def)

lemma same_info_data: "same_info h h' q \<Longrightarrow> map_option e_data (h' q) = map_option e_data (h q)"
  by (cases "h q"; cases "h' q"; simp add: same_info_def) (metis info_fields(1))

lemma same_info_block:
  assumes "same_info h h' q"
  shows "block_of (the (h' q)) = block_of (the (h q))"
proof (cases "h q")
  case None
  then show ?thesis using same_info_NoneD [OF assms] by simp
next
  case (Some e)
  then obtain e' where "h' q = Some e'" "info e' = info e" using same_info_SomeD [OF assms] by blast
  then show ?thesis using Some by (metis block_of_info option.sel)
qed

lemma blocks_of_same_info:
  "(\<And>q. q \<in> set ns \<Longrightarrow> same_info h h' q) \<Longrightarrow> blocks_of h' ns = blocks_of h ns"
  by (rule blocks_of_cong) (rule same_info_block)

lemma can_place_dom:
  assumes "can_place s p n"
  shows "nodes s p = None" "blocks s p = None" "lists s p = None" "managers s p = None" "mutexes s p = None" "p \<noteq> NULL"
  using assms by (auto simp: can_place_def live_def)

lemma sn_ok_tracked_in:
  assumes ok: "sn_ok s L M ns" and place: "can_place s q sizeof_linked_list_entry_t" and len: "l_len L \<noteq> - 1"
  shows "sn_ok (tracked_in s L ns q rest d n t) (pushed_list q ns L) M (ns @ [q])"
    "abstract M (ns @ [q]) (tracked_in s L ns q rest d n t) = (abstract M ns s)
       \<lparr>registry := blocks_of (nodes s) ns @ [\<lparr>tb_data = d, tb_size = n, tb_tid = t, tb_id = 0\<rparr>]\<rparr>"
proof -
  note D = sn_okD [OF ok]
  let ?X = "tracked_in s L ns q rest d n t"
  have N: "nodes ?X = pushed_nodes q L d n t (nodes s)" "lists ?X = (lists s)(mem_list s \<mapsto> pushed_list q ns L)"
    "managers ?X = managers s" "blocks ?X = blocks s" "mutexes ?X = mutexes s" "mem_list ?X = mem_list s"
    "alloc_mutex ?X = alloc_mutex s" "memory_manager ?X = memory_manager s" "error_code ?X = error_code s"
    "current ?X = current s" "cfg_mutex ?X = cfg_mutex s"
    by (simp_all add: tracked_in_def)
  note P = push_list_ok [OF D(1) place len N(2,1)]
  obtain el where el: "nodes s (l_lastEntry L) = Some el" using list_ok_last(3) [OF D(1)] by blast
  have dom: "dom (nodes ?X) = insert q (dom (nodes s))"
    using el by (auto simp: N(1) pushed_nodes_def)
  have split: "split_ok ?X"
    using D(6) can_place_dom [OF place] sn_ok_lists [OF ok] unfolding split_ok_def dom N(2-5) by auto
  have q: "q \<notin> set ns" using sn_ok_dom [OF ok] can_place_dom(1) [OF place] by blast
  have cache: "cache_ok (nodes ?X) (ns @ [q]) (m_cache_list M)"
  proof (rule cache_ok_remove [OF D(5), where p = q])
    fix c assume "c \<in> set (m_cache_list M)"
    then show "cp_value c \<noteq> q" using cache_okD(1) [OF D(5)] q can_place_dom(6) [OF place] by metis
  qed (use P(2) same_info_data in auto)
  show "sn_ok ?X (pushed_list q ns L) M (ns @ [q])"
    using P(1) D(2-4,10) split cache N
    by (simp add: sn_ok_def manager_at_def ready_def pushed_list_def mutexes_ok_def)
  have "blocks_of (nodes ?X) ns = blocks_of (nodes s) ns"
    using P(2) q by (intro blocks_of_same_info) metis
  then show "abstract M (ns @ [q]) ?X = (abstract M ns s)
       \<lparr>registry := blocks_of (nodes s) ns @ [\<lparr>tb_data = d, tb_size = n, tb_tid = t, tb_id = 0\<rparr>]\<rparr>"
    using P(3) N by (simp add: abstract_def block_of_new)
qed

lemma push_tracks:
  assumes ok: "sn_ok s L M ns" and ans: "malloc_answers s = (q, junk) # rest"
    and place: "can_place s q sizeof_linked_list_entry_t"
  shows "runs (linked_list_push (mem_list s) d n t) s (\<lambda>_ u. settled {} s (tracked_in s L ns q rest d n t) u)"
proof -
  note D = sn_okD [OF ok]
  have "settled {} s (tracked_in s L ns q rest d n t) (unlocked (l_mutex L) (tracked_in s L ns q rest d n t))"
    using D(2) by (intro settled_after_lock) (simp_all add: tracked_in_def)
  then show ?thesis using push_eq [OF D(1,2) ans place, of d n t] by (simp add: runs_def tracked_in_def)
qed

lemma push_out_of_memory:
  assumes ok: "sn_ok s L M ns"
    and fail: "\<And>q junk rest. malloc_answers s = (q, junk) # rest \<Longrightarrow> \<not> can_place s q sizeof_linked_list_entry_t"
  shows "\<exists>u. linked_list_push (mem_list s) d n t s = Halt Aborted u"
proof -
  note D = sn_okD [OF ok]
  obtain rest where "plat_malloc sizeof_linked_list_entry_t (locked (l_mutex L) s) =
      Done NULL ((locked (l_mutex L) s)\<lparr>malloc_answers := rest\<rparr>)"
    using fail D(2) by (cases rule: plat_malloc_cases [of sizeof_linked_list_entry_t "locked (l_mutex L) s"]) auto
  then show ?thesis using D(1,2) list_okD(1) [OF D(1)] list_ok_first(1) [OF D(1)] ok
    by (simp add: linked_list_push_def list_lock_ok linked_list_entry_new_def ret_def)
qed

text \<open>
  The list part of a \<open>free\<close>: the entry is gone from the list and the heap.
\<close>

definition untracked_in :: "machine \<Rightarrow> linked_list_t \<Rightarrow> ptr list \<Rightarrow> ptr \<Rightarrow> ptr list \<Rightarrow> machine" where
  "untracked_in s L xs p ys = s\<lparr>nodes := unlinked_nodes p (the (nodes s p)) (nodes s),
     lists := (lists s)(mem_list s \<mapsto> removed_list xs ys L)\<rparr>"

lemma sn_ok_untracked_in:
  assumes ok: "sn_ok s L M (xs @ p # ys)" and none: "\<And>c. c \<in> set (m_cache_list M) \<Longrightarrow> cp_value c \<noteq> p"
  shows "sn_ok (untracked_in s L xs p ys) (removed_list xs ys L) M (xs @ ys)"
    "abstract M (xs @ ys) (untracked_in s L xs p ys) =
       (abstract M (xs @ p # ys) s)\<lparr>registry := blocks_of (nodes s) (xs @ ys)\<rparr>"
proof -
  note D = sn_okD [OF ok]
  obtain e where e: "nodes s p = Some e" using list_ok_split(1) [OF D(1)] by blast
  let ?X = "untracked_in s L xs p ys"
  have N: "nodes ?X = unlinked_nodes p e (nodes s)" "lists ?X = (lists s)(mem_list s \<mapsto> removed_list xs ys L)"
    "managers ?X = managers s" "blocks ?X = blocks s" "mutexes ?X = mutexes s" "mem_list ?X = mem_list s"
    "alloc_mutex ?X = alloc_mutex s" "memory_manager ?X = memory_manager s" "error_code ?X = error_code s"
    "current ?X = current s" "cfg_mutex ?X = cfg_mutex s"
    using e by (simp_all add: untracked_in_def)
  have same: "same_info (nodes s) (nodes ?X) q" if "q \<noteq> p" for q
    using unlinked_same_info [OF D(1) e that] N(1) by simp
  have out: "p \<notin> set xs" "p \<notin> set ys" using list_ok_around(2,3) [OF D(1)] by auto
  have l: "list_ok ?X (mem_list s) (removed_list xs ys L) (xs @ ys)"
    by (rule remove_list_ok [OF D(1) e N(2,1)])
  have "nodes ?X q = None" if "nodes s q = None" for q
    using same_info_NoneD [OF same that] that e by (cases "q = p") simp_all
  then have "dom (nodes ?X) \<subseteq> dom (nodes s)" by (metis domIff subsetI)
  then have split: "split_ok ?X" using D(6) sn_ok_lists [OF ok]
    by (intro split_ok_cong [OF D(6)]) (auto simp: N)
  have cache: "cache_ok (nodes ?X) (xs @ ys) (m_cache_list M)"
    by (rule cache_ok_remove [OF D(5) none]) (use same same_info_data in auto)
  show "sn_ok ?X (removed_list xs ys L) M (xs @ ys)"
    using l D(2-4,10) split cache N by (simp add: sn_ok_def manager_at_def ready_def mutexes_ok_def)
  have "blocks_of (nodes ?X) (xs @ ys) = blocks_of (nodes s) (xs @ ys)"
    using same out by (intro blocks_of_same_info) (metis Un_iff set_append)
  then show "abstract M (xs @ ys) ?X = (abstract M (xs @ p # ys) s)\<lparr>registry := blocks_of (nodes s) (xs @ ys)\<rparr>"
    using N by (simp add: abstract_def)
qed

lemma remove_untracks:
  assumes ok: "sn_ok s L M (xs @ p # ys)" and key: "key \<noteq> NULL" "e_data (the (nodes s p)) = key"
    and first: "\<forall>q \<in> set xs. e_data (the (nodes s q)) \<noteq> key"
  shows "runs (linked_list_removeEntryByPtr (mem_list s) key) s (\<lambda>_ u. settled {} s (untracked_in s L xs p ys) u)"
proof -
  note D = sn_okD [OF ok]
  obtain e where e: "nodes s p = Some e" using list_ok_split(1) [OF D(1)] by blast
  have "settled {} s (untracked_in s L xs p ys) (unlocked (l_mutex L) (untracked_in s L xs p ys))"
    using D(2) by (intro settled_after_lock) (simp_all add: untracked_in_def)
  then show ?thesis using removeEntryByPtr_eq [OF D(1,2,6) key(1) e _ first] key(2) e
    by (simp add: runs_def untracked_in_def)
qed

end
