(* ===== verification/Api_Spec.thy ===== *)
theory Api_Spec
  imports Registry
begin

text \<open>
  What the public calls promise, as operations on the abstract state: relations where the
  allocator decides (it may fail, and it chooses addresses and contents), functions elsewhere.
\<close>

section \<open>Allocation\<close>

definition allowed :: "sn_state \<Rightarrow> size_t \<Rightarrow> bool" where
  "allowed a n \<longleftrightarrow> cap a = 0 \<or> usage a + n < cap a"

definition failed :: "sn_error_codes_e \<Rightarrow> sn_state \<Rightarrow> sn_state" where
  "failed e a = a\<lparr>last_error := err_code e\<rparr>"

text \<open>\<open>n\<close> is the size recorded for the new block, \<open>k\<close> the size accounted for.\<close>

definition with_block :: "ptr \<Rightarrow> byte list \<Rightarrow> size_t \<Rightarrow> size_t \<Rightarrow> tid_t \<Rightarrow> sn_state \<Rightarrow> sn_state" where
  "with_block p bs n k t a = a\<lparr>
     registry := registry a @ [\<lparr>tb_data = p, tb_size = n, tb_tid = t, tb_id = 0\<rparr>],
     usage := usage a + k, memory := (memory a)(p \<mapsto> bs)\<rparr>"

text \<open>\<open>z\<close>: memory is sanitized; \<open>t\<close>: the calling thread.\<close>

inductive malloc_spec :: "bool \<Rightarrow> tid_t \<Rightarrow> size_t \<Rightarrow> sn_state \<Rightarrow> ptr \<Rightarrow> sn_state \<Rightarrow> bool"
  for z :: bool and t :: tid_t and n :: size_t and a :: sn_state where
  bad_size: "n = 0 \<Longrightarrow> malloc_spec z t n a NULL (failed SN_ERR_BAD_SIZE a)"
| over_limit: "\<lbrakk>n \<noteq> 0; \<not> allowed a n\<rbrakk> \<Longrightarrow> malloc_spec z t n a NULL (failed SN_ERR_ALLOC_LIMIT_HIT a)"
| no_memory: "\<lbrakk>n \<noteq> 0; allowed a n\<rbrakk> \<Longrightarrow> malloc_spec z t n a NULL (failed SN_ERR_BAD_ALLOC a)"
| allocated: "\<lbrakk>n \<noteq> 0; allowed a n; p \<noteq> NULL; memory a p = None; length bs = unat n;
    z \<Longrightarrow> bs = replicate (unat n) 0\<rbrakk> \<Longrightarrow> malloc_spec z t n a p (with_block p bs n n t a)"

text \<open>\<open>calloc\<close> accounts for the product but records the size of one element.\<close>

inductive calloc_spec :: "tid_t \<Rightarrow> size_t \<Rightarrow> size_t \<Rightarrow> sn_state \<Rightarrow> ptr \<Rightarrow> sn_state \<Rightarrow> bool"
  for t :: tid_t and num :: size_t and n :: size_t and a :: sn_state where
  bad_size: "n = 0 \<or> num = 0 \<Longrightarrow> calloc_spec t num n a NULL (failed SN_ERR_BAD_SIZE a)"
| over_limit: "\<lbrakk>n \<noteq> 0; num \<noteq> 0; \<not> allowed a (n * num)\<rbrakk>
    \<Longrightarrow> calloc_spec t num n a NULL (failed SN_ERR_ALLOC_LIMIT_HIT a)"
| no_memory: "\<lbrakk>n \<noteq> 0; num \<noteq> 0; allowed a (n * num)\<rbrakk>
    \<Longrightarrow> calloc_spec t num n a NULL (failed SN_ERR_BAD_ALLOC a)"
| allocated: "\<lbrakk>n \<noteq> 0; num \<noteq> 0; allowed a (n * num); unat num * unat n < 2 ^ 64; p \<noteq> NULL; memory a p = None\<rbrakk>
    \<Longrightarrow> calloc_spec t num n a p (with_block p (replicate (unat num * unat n) 0) n (n * num) t a)"

inductive_cases malloc_specE: "malloc_spec z t n a p b"

inductive_cases calloc_specE: "calloc_spec t num n a p b"

section \<open>Release\<close>

definition without_block :: "ptr \<Rightarrow> sn_state \<Rightarrow> sn_state" where
  "without_block p a = a\<lparr>registry := remove_first (\<lambda>b. tb_data b = p) (registry a)\<rparr>"

definition free_spec :: "ptr \<Rightarrow> sn_state \<Rightarrow> sn_state" where
  "free_spec p a =
     (if p = NULL then failed SN_ERR_NULL_PTR a
      else case find_block p (registry a) of
        None \<Rightarrow> failed SN_ERR_NO_ADDER_FOUND a
      | Some b \<Rightarrow> (without_block p a)\<lparr>usage := usage a - tb_size b, memory := (memory a)(p := None)\<rparr>)"

text \<open>
  What \<open>free\<close> relies on: the data pointers of tracked blocks are all different, and each is a
  live heap block of at least the recorded size. Blocks from the allocation calls satisfy it;
  for blocks handed over with \<open>sn_register_size\<close> it is the caller's duty.
\<close>

definition owned :: "sn_state \<Rightarrow> bool" where
  "owned a \<longleftrightarrow> distinct (map tb_data (registry a)) \<and>
     (\<forall>b \<in> set (registry a). tb_data b \<noteq> NULL \<and>
        (\<exists>bs. memory a (tb_data b) = Some bs \<and> unat (tb_size b) \<le> length bs))"

lemma owned_failed [simp]: "owned (failed e a) = owned a"
  by (simp add: owned_def failed_def)

lemma owned_with_block:
  assumes "owned a" "memory a p = None" "p \<noteq> NULL" "unat n \<le> length bs"
  shows "owned (with_block p bs n k t a)"
  using assms by (fastforce simp: owned_def with_block_def)

lemma malloc_spec_owned:
  assumes "malloc_spec z t n a p b" "owned a"
  shows "owned b"
  using assms by cases (auto intro: owned_with_block)

lemma calloc_spec_owned:
  assumes "calloc_spec t num n a p b" "owned a"
  shows "owned b"
  using assms
proof cases
  case (allocated)
  then have "1 \<le> unat num" by (metis One_nat_def Suc_leI unat_gt_0)
  then have "unat n \<le> length (replicate (unat num * unat n) (0 :: byte))" by simp
  then show ?thesis using allocated assms(2) owned_with_block by metis
qed simp_all

lemma find_block_in: "find_block p bs = Some b \<Longrightarrow> b \<in> set bs \<and> tb_data b = p"
  unfolding find_block_def by (drule find_Some_hit) simp

lemma remove_first_sub: "set (remove_first P xs) \<subseteq> set xs"
  by (induction xs) auto

lemma remove_first_distinct:
  "distinct (map f xs) \<Longrightarrow> distinct (map f (remove_first P xs))"
proof (induction xs)
  case (Cons x xs)
  then show ?case using remove_first_sub [of P xs] by auto
qed simp

lemma remove_first_gone:
  "distinct (map f xs) \<Longrightarrow> x \<in> set (remove_first (\<lambda>y. f y = k) xs) \<Longrightarrow> f x \<noteq> k"
proof (induction xs)
  case (Cons y ys)
  show ?case
  proof (cases "f y = k")
    case True
    then show ?thesis using Cons.prems by (auto simp: image_iff)
  next
    case False
    then show ?thesis using Cons by auto
  qed
qed simp

lemma free_spec_owned:
  assumes "owned a"
  shows "owned (free_spec p a)"
proof (cases "p = NULL \<or> find_block p (registry a) = None")
  case False
  then obtain b where "find_block p (registry a) = Some b" "p \<noteq> NULL" by auto
  moreover have "tb_data x \<noteq> p" if "x \<in> set (remove_first (\<lambda>b. tb_data b = p) (registry a))" for x
    using remove_first_gone [OF _ that] assms by (simp add: owned_def)
  ultimately show ?thesis using assms remove_first_sub remove_first_distinct
    by (fastforce simp: owned_def free_spec_def without_block_def)
qed (auto simp: free_spec_def assms)


section \<open>Resizing\<close>

text \<open>\<open>resized p q n\<close>: the block at \<open>p\<close> is now at \<open>q\<close> and has \<open>n\<close> bytes.\<close>

definition resized :: "ptr \<Rightarrow> ptr \<Rightarrow> size_t \<Rightarrow> tracked_block list \<Rightarrow> tracked_block list" where
  "resized p q n bs = map (\<lambda>b. if tb_data b = p then b\<lparr>tb_data := q, tb_size := n\<rparr> else b) bs"

inductive realloc_spec :: "ptr \<Rightarrow> size_t \<Rightarrow> sn_state \<Rightarrow> ptr \<Rightarrow> sn_state \<Rightarrow> bool"
  for p :: ptr and n :: size_t and a :: sn_state where
  null: "p = NULL \<Longrightarrow> realloc_spec p n a NULL (failed SN_ERR_NULL_PTR a)"
| untracked: "\<lbrakk>p \<noteq> NULL; find_block p (registry a) = None\<rbrakk>
    \<Longrightarrow> realloc_spec p n a NULL (failed SN_ERR_NO_ADDER_FOUND a)"
| bad_size: "\<lbrakk>p \<noteq> NULL; find_block p (registry a) = Some b; n = 0\<rbrakk>
    \<Longrightarrow> realloc_spec p n a NULL (failed SN_ERR_BAD_SIZE a)"
| over_limit: "\<lbrakk>p \<noteq> NULL; find_block p (registry a) = Some b; n > tb_size b; \<not> allowed a (n - tb_size b)\<rbrakk>
    \<Longrightarrow> realloc_spec p n a NULL (failed SN_ERR_ALLOC_LIMIT_HIT a)"
| no_memory: "\<lbrakk>p \<noteq> NULL; find_block p (registry a) = Some b; n \<noteq> 0\<rbrakk>
    \<Longrightarrow> realloc_spec p n a NULL (failed SN_ERR_BAD_ALLOC a)"
| moved: "\<lbrakk>p \<noteq> NULL; find_block p (registry a) = Some b; n \<noteq> 0; n > tb_size b \<longrightarrow> allowed a (n - tb_size b);
    memory a p = Some old; q = p \<or> memory a q = None; q \<noteq> NULL; length bs = unat n;
    take (min (length old) (unat n)) bs = take (unat n) old\<rbrakk>
    \<Longrightarrow> realloc_spec p n a q (a\<lparr>registry := resized p q n (registry a),
          usage := usage a - tb_size b + n, memory := (memory a)(p := None, q \<mapsto> bs)\<rparr>)"

lemma resized_data: "map tb_data (resized p q n bs) = map (\<lambda>d. if d = p then q else d) (map tb_data bs)"
  by (simp add: resized_def)

lemma realloc_spec_owned:
  assumes "realloc_spec p n a q c" "owned a"
  shows "owned c"
  using assms(1)
proof cases
  case (moved b old bs)
  let ?D = "map tb_data (registry a)"
  have fresh: "q = p \<or> q \<notin> set ?D" using moved(7) assms(2) by (fastforce simp: owned_def)
  have "inj_on (\<lambda>d. if d = p then q else d) (set ?D)" using fresh by (auto simp: inj_on_def)
  then have "distinct (map tb_data (resized p q n (registry a)))"
    using assms(2) distinct_map [of "\<lambda>d. if d = p then q else d" ?D] unfolding resized_data owned_def by blast
  moreover have "tb_data x \<noteq> NULL \<and> (\<exists>bs'. ((memory a)(p := None, q \<mapsto> bs)) (tb_data x) = Some bs' \<and>
      unat (tb_size x) \<le> length bs')" if "x \<in> set (resized p q n (registry a))" for x
  proof -
    from that obtain y where y: "y \<in> set (registry a)"
        "x = (if tb_data y = p then y\<lparr>tb_data := q, tb_size := n\<rparr> else y)"
      by (auto simp: resized_def)
    show ?thesis
    proof (cases "tb_data y = p")
      case True
      then show ?thesis using y moved by simp
    next
      case False
      then have "tb_data y \<noteq> q" using fresh y(1) by auto
      then show ?thesis using y False assms(2) by (auto simp: owned_def)
    qed
  qed
  ultimately show ?thesis using moved(1) by (simp add: owned_def)
qed (use assms(2) in simp_all)

end
