(* ===== verification/SN_Allocator.thy ===== *)
theory SN_Allocator
  imports Api_Spec
begin

text \<open>
  \<open>sn_allocator.c\<close>: the public allocation calls.
\<close>

section \<open>The calls\<close>

text \<open>\<open>memory_manager->global_memory_usage += d\<close>; with \<open>- d\<close> for \<open>-=\<close>. The counter is a
  \<open>size_t\<close> and wraps.\<close>

definition add_usage :: "size_t \<Rightarrow> unit lib" where
  "add_usage d =
     bnd (gets memory_manager) (\<lambda>m.
     upd_manager m (\<lambda>M. M\<lparr>m_global_memory_usage := m_global_memory_usage M + d\<rparr>))"

definition sn_malloc :: "size_t \<Rightarrow> ptr lib" where
  "sn_malloc sz =
     (if sz = 0 then sn_error SN_ERR_BAD_SIZE NULL
      else
        bnd (gets memory_manager) (\<lambda>m.
        bnd (memman_canAllocateBasedOnLimitAndSize m sz) (\<lambda>ok.
        if \<not> ok then sn_error SN_ERR_ALLOC_LIMIT_HIT NULL
        else
          bnd (plat_malloc sz) (\<lambda>pr.
          if pr = NULL then sn_error SN_ERR_BAD_ALLOC NULL
          else
            bnd (gets cfg_sanitize) (\<lambda>z.
            bnd (if_do z (c_memset pr 0 sz)) (\<lambda>_.
            bnd (add_usage sz) (\<lambda>_.
            bnd (gets mem_list) (\<lambda>l.
            bnd plat_getTid (\<lambda>tid.
            bnd (linked_list_push l pr sz tid) (\<lambda>_.
            ret pr))))))))))"

text \<open>\<open>sn_free\<close> once the entry has been found.\<close>

definition sn_free_entry :: "ptr \<Rightarrow> ptr \<Rightarrow> unit lib" where
  "sn_free_entry ptr entry =
     bnd (gets cfg_sanitize) (\<lambda>z.
     bnd (if_do z (bnd (load_node entry) (\<lambda>e. c_memset (e_data e) 0 (e_size e)))) (\<lambda>_.
     bnd (load_node entry) (\<lambda>e.
     bnd (add_usage (- e_size e)) (\<lambda>_.
     bnd (gets memory_manager) (\<lambda>m.
     bnd (memman_cacheInvalidate m ptr) (\<lambda>_.
     bnd (linked_list_entry_getData entry) (\<lambda>d.
     bnd (plat_free d) (\<lambda>_.
     bnd (gets mem_list) (\<lambda>l.
     linked_list_removeEntryByPtr l ptr)))))))))"

definition sn_free :: "ptr \<Rightarrow> unit lib" where
  "sn_free ptr =
     (if ptr = NULL then sn_error SN_ERR_NULL_PTR ()
      else
        bnd (gets memory_manager) (\<lambda>m.
        bnd (memman_TryCacheHit m ptr) (\<lambda>entry.
        if entry = MEMMAN_CACHE_MISS then
          bnd (gets mem_list) (\<lambda>l.
          bnd (linked_list_getByPtr l ptr) (\<lambda>entry.
          if entry = NULL then sn_error SN_ERR_NO_ADDER_FOUND ()
          else sn_free_entry ptr entry))
        else sn_free_entry ptr entry)))"

text \<open>The product is accounted for, the size of one element is recorded.\<close>

definition sn_calloc :: "size_t \<Rightarrow> size_t \<Rightarrow> ptr lib" where
  "sn_calloc num sz =
     (if sz = 0 \<or> num = 0 then sn_error SN_ERR_BAD_SIZE NULL
      else
        bnd (gets memory_manager) (\<lambda>m.
        bnd (memman_canAllocateBasedOnLimitAndSize m (sz * num)) (\<lambda>ok.
        if \<not> ok then sn_error SN_ERR_ALLOC_LIMIT_HIT NULL
        else
          bnd (plat_calloc num sz) (\<lambda>pr.
          if pr = NULL then sn_error SN_ERR_BAD_ALLOC NULL
          else
            bnd (add_usage (sz * num)) (\<lambda>_.
            bnd (gets mem_list) (\<lambda>l.
            bnd plat_getTid (\<lambda>tid.
            bnd (linked_list_push l pr sz tid) (\<lambda>_.
            ret pr))))))))"

definition sn_realloc :: "ptr \<Rightarrow> size_t \<Rightarrow> ptr lib" where
  "sn_realloc ptr new_size =
     (if ptr = NULL then sn_error SN_ERR_NULL_PTR NULL
      else
        bnd (gets mem_list) (\<lambda>l.
        bnd (linked_list_getByPtr l ptr) (\<lambda>entry.
        if entry = NULL then sn_error SN_ERR_NO_ADDER_FOUND NULL
        else if new_size = 0 then sn_error SN_ERR_BAD_SIZE NULL
        else
          bnd (load_node entry) (\<lambda>e.
          bnd (gets memory_manager) (\<lambda>m.
          bnd (if new_size > e_size e
               then memman_canAllocateBasedOnLimitAndSize m (new_size - e_size e)
               else ret True) (\<lambda>ok.
          if \<not> ok then sn_error SN_ERR_ALLOC_LIMIT_HIT NULL
          else
            bnd (plat_realloc ptr new_size) (\<lambda>new_ptr.
            if new_ptr = NULL then sn_error SN_ERR_BAD_ALLOC NULL
            else
              bnd (load_node entry) (\<lambda>e.
              bnd (add_usage (- e_size e)) (\<lambda>_.
              bnd (add_usage new_size) (\<lambda>_.
              bnd (linked_list_entry_setData entry new_ptr) (\<lambda>_.
              bnd (linked_list_entry_setSize entry new_size) (\<lambda>_.
              ret new_ptr))))))))))))"

definition sn_malloc_pre_initialized :: "size_t \<Rightarrow> byte \<Rightarrow> ptr lib" where
  "sn_malloc_pre_initialized sz v =
     bnd (sn_malloc sz) (\<lambda>ptr.
     if ptr = NULL then ret ptr
     else bnd (c_memset ptr v sz) (\<lambda>_. ret ptr))"

definition sn_do_auto_free_at_exit :: "bool \<Rightarrow> unit lib" where
  "sn_do_auto_free_at_exit val =
     bnd (gets alloc_mutex) (\<lambda>m.
     bnd (plat_mutex_lock m) (\<lambda>_.
     bnd (modify (\<lambda>s. s\<lparr>doFree := val\<rparr>)) (\<lambda>_.
     bnd (gets alloc_mutex) (\<lambda>m.
     plat_mutex_unlock m))))"

lemmas run_allocator [run] =
  add_usage_def sn_malloc_def sn_free_entry_def sn_free_def sn_calloc_def sn_realloc_def
  sn_malloc_pre_initialized_def sn_do_auto_free_at_exit_def

section \<open>Changes outside the registry\<close>

text \<open>User blocks and the byte counter are no part of the invariant.\<close>

lemma sn_ok_cong:
  assumes ok: "sn_ok s L M ns" and mem: "nodes t = nodes s" "lists t = lists s" "mutexes t = mutexes s"
    and env: "current t = current s" "cfg_mutex t = cfg_mutex s" "mem_list t = mem_list s"
      "alloc_mutex t = alloc_mutex s" "memory_manager t = memory_manager s"
    and M: "managers t (memory_manager s) = Some M'" "m_cache_list M' = m_cache_list M"
      "m_mutex_ref M' = m_mutex_ref M" and split: "split_ok t"
  shows "sn_ok t L M' ns"
proof -
  note D = sn_okD [OF ok]
  have rdy: "ready x t = ready x s" for x by (simp add: ready_def mem env)
  have "list_ok t (mem_list t) L ns" using list_ok_cong [OF D(1) mem(2,1)] env(3) by simp
  then show ?thesis using D(2-5,10) M split rdy mem env by (simp add: sn_ok_def manager_at_def mutexes_ok_def)
qed

lemma sn_ok_new_block:
  assumes "sn_ok s L M ns" "can_place s p n"
  shows "sn_ok (s\<lparr>malloc_answers := rest, blocks := (blocks s)(p \<mapsto> bs)\<rparr>) L M ns"
proof -
  let ?X = "s\<lparr>malloc_answers := rest, blocks := (blocks s)(p \<mapsto> bs)\<rparr>"
  have "split_ok ?X" using sn_okD(6) [OF assms(1)] can_place_dom [OF assms(2)]
    unfolding split_ok_def by auto
  then show ?thesis using sn_okD(8) [OF assms(1)] by (intro sn_ok_cong [OF assms(1)]) simp_all
qed

lemma sn_ok_blocks:
  assumes "sn_ok s L M ns" "dom B \<subseteq> dom (blocks s)"
  shows "sn_ok (s\<lparr>blocks := B\<rparr>) L M ns"
proof -
  have "split_ok (s\<lparr>blocks := B\<rparr>)" using sn_okD(6) [OF assms(1)] by (rule split_ok_cong) (use assms(2) in simp_all)
  then show ?thesis using sn_okD(8) [OF assms(1)] by (intro sn_ok_cong [OF assms(1)]) simp_all
qed

lemma sn_ok_answers:
  assumes "sn_ok s L M ns"
  shows "sn_ok (s\<lparr>malloc_answers := x\<rparr>) L M ns"
  using sn_okD(6,8) [OF assms] by (intro sn_ok_cong [OF assms]) (simp_all add: split_ok_def)

lemma add_usage_eq:
  fixes d :: size_t
  assumes "sn_ok s L M ns"
  defines "M' \<equiv> M\<lparr>m_global_memory_usage := m_global_memory_usage M + d\<rparr>"
  shows "add_usage d s = Done () (s\<lparr>managers := (managers s)(memory_manager s \<mapsto> M')\<rparr>)"
    "sn_ok (s\<lparr>managers := (managers s)(memory_manager s \<mapsto> M')\<rparr>) L M' ns"
    "abstract M' ns (s\<lparr>managers := (managers s)(memory_manager s \<mapsto> M')\<rparr>) =
       (abstract M ns s)\<lparr>usage := usage (abstract M ns s) + d\<rparr>"
proof -
  note D = sn_okD [OF assms(1)]
  show "add_usage d s = Done () (s\<lparr>managers := (managers s)(memory_manager s \<mapsto> M')\<rparr>)"
    using D(8) by (simp add: add_usage_def M'_def)
  have "split_ok (s\<lparr>managers := (managers s)(memory_manager s \<mapsto> M')\<rparr>)"
    using D(6) by (rule split_ok_cong) (use D(8) in auto)
  then show "sn_ok (s\<lparr>managers := (managers s)(memory_manager s \<mapsto> M')\<rparr>) L M' ns"
    by (intro sn_ok_cong [OF assms(1)]) (simp_all add: M'_def)
  show "abstract M' ns (s\<lparr>managers := (managers s)(memory_manager s \<mapsto> M')\<rparr>) =
       (abstract M ns s)\<lparr>usage := usage (abstract M ns s) + d\<rparr>"
    by (simp add: abstract_def M'_def)
qed

text \<open>\<open>room s\<close>: the entry counter is not at its maximum.\<close>

definition room :: "machine \<Rightarrow> bool" where
  "room s \<longleftrightarrow> (\<forall>L. lists s (mem_list s) = Some L \<longrightarrow> l_len L \<noteq> - 1)"

section \<open>Allocation\<close>

definition thread_id :: "machine \<Rightarrow> tid_t" where
  "thread_id s = (if cfg_mutex s then current s else 0)"

lemma plat_getTid_eq [simp]: "plat_getTid s = Done (thread_id s) s"
  by (simp add: plat_getTid_def gets_def thread_id_def)

text \<open>\<open>keeps_locks A s t\<close>: every mutex outside \<open>A\<close> that is released in \<open>s\<close> is released in \<open>t\<close>.\<close>

definition keeps_locks :: "ptr set \<Rightarrow> machine \<Rightarrow> machine \<Rightarrow> bool" where
  "keeps_locks A s t \<longleftrightarrow> (\<forall>m. m \<notin> A \<longrightarrow> released m s \<longrightarrow> released m t)"

lemma keeps_locks_trans: "keeps_locks A s t \<Longrightarrow> keeps_locks B t u \<Longrightarrow> keeps_locks (A \<union> B) s u"
  by (simp add: keeps_locks_def)

lemma keeps_locks_same: "mutexes t = mutexes s \<Longrightarrow> cfg_mutex t = cfg_mutex s \<Longrightarrow> keeps_locks A s t"
  by (simp add: keeps_locks_def released_def)

lemma reads_keeps: "reads A e s L M ns t L' M' \<Longrightarrow> keeps_locks A s t"
  using readsD(16) by (simp add: keeps_locks_def)

lemma settled_keeps: "settled A s X t \<Longrightarrow> keeps_locks A s t"
  by (simp add: settled_def keeps_locks_def)

lemma registry_abstract: "registry (abstract M ns s) = blocks_of (nodes s) ns"
  by (simp add: abstract_def)

lemma push_ends:
  assumes ok: "sn_ok s L M ns" and room: "l_len L \<noteq> - 1"
  shows "ends (linked_list_push (mem_list s) d n t) s (\<lambda>_ u. (\<exists>L' q. sn_ok u L' M (ns @ [q]) \<and>
      abstract M (ns @ [q]) u = (abstract M ns s)
        \<lparr>registry := registry (abstract M ns s) @ [\<lparr>tb_data = d, tb_size = n, tb_tid = t, tb_id = 0\<rparr>]\<rparr>) \<and>
      keeps_locks {} s u) (\<lambda>h. h = Aborted)"
proof (cases "\<exists>q junk rest. malloc_answers s = (q, junk) # rest \<and> can_place s q sizeof_linked_list_entry_t")
  case False
  then obtain u where "linked_list_push (mem_list s) d n t s = Halt Aborted u"
    using push_out_of_memory [OF ok, of d n t] by blast
  then show ?thesis by (simp add: ends_def)
next
  case True
  then obtain q junk rest where q: "malloc_answers s = (q, junk) # rest" "can_place s q sizeof_linked_list_entry_t" by blast
  let ?X = "tracked_in s L ns q rest d n t"
  note X = sn_ok_tracked_in [OF ok q(2) room, of rest d n t]
  show ?thesis
  proof (rule runs_ends, rule runs_mono [OF push_tracks [OF ok q]])
    fix r u assume u: "settled {} s ?X u"
    then have lq: "lockeq ?X u" by (rule settled_lockeq)
    have "sn_ok u (pushed_list q ns L) M (ns @ [q])" using sn_ok_lockeq [OF lq X(1)] .
    moreover have "abstract M (ns @ [q]) u = (abstract M ns s)
        \<lparr>registry := registry (abstract M ns s) @ [\<lparr>tb_data = d, tb_size = n, tb_tid = t, tb_id = 0\<rparr>]\<rparr>"
      using abstract_lockeq [OF lq] X(2) by (simp add: registry_abstract)
    ultimately show "(\<exists>L' q. sn_ok u L' M (ns @ [q]) \<and> abstract M (ns @ [q]) u = (abstract M ns s)
        \<lparr>registry := registry (abstract M ns s) @ [\<lparr>tb_data = d, tb_size = n, tb_tid = t, tb_id = 0\<rparr>]\<rparr>) \<and>
      keeps_locks {} s u"
      using u unfolding settled_def keeps_locks_def by blast
  qed
qed

text \<open>The common tail of the allocation calls: account for the block, track it, return it.\<close>

definition account_and_track :: "ptr \<Rightarrow> size_t \<Rightarrow> size_t \<Rightarrow> ptr lib" where
  "account_and_track p n k =
     bnd (add_usage k) (\<lambda>_. bnd (gets mem_list) (\<lambda>l. bnd plat_getTid (\<lambda>tid.
     bnd (linked_list_push l p n tid) (\<lambda>_. ret p))))"

lemma models_keeps:
  "\<lbrakk>sn_ok t L M ns; a = abstract M ns t\<rbrakk> \<Longrightarrow> models t a"
  by (auto simp: models_def)

lemma account_and_track_ends:
  assumes ok: "sn_ok s L M ns" and room: "l_len L \<noteq> - 1"
  shows "ends (account_and_track p n k) s (\<lambda>r u. r = p \<and> keeps_locks {} s u \<and>
      models u ((abstract M ns s)\<lparr>usage := usage (abstract M ns s) + k, registry := registry (abstract M ns s) @
        [\<lparr>tb_data = p, tb_size = n, tb_tid = thread_id s, tb_id = 0\<rparr>]\<rparr>)) (\<lambda>h. h = Aborted)"
proof -
  let ?M = "M\<lparr>m_global_memory_usage := m_global_memory_usage M + k\<rparr>"
  let ?s = "s\<lparr>managers := (managers s)(memory_manager s \<mapsto> ?M)\<rparr>"
  note A = add_usage_eq [OF ok, of k]
  have "account_and_track p n k s =
      bnd (linked_list_push (mem_list s) p n (thread_id s)) (\<lambda>_. ret p) ?s"
    using A(1) by (simp add: account_and_track_def thread_id_def)
  moreover have "ends (bnd (linked_list_push (mem_list s) p n (thread_id s)) (\<lambda>_. ret p)) ?s
    (\<lambda>r u. r = p \<and> keeps_locks {} s u \<and>
      models u ((abstract M ns s)\<lparr>usage := usage (abstract M ns s) + k, registry := registry (abstract M ns s) @
        [\<lparr>tb_data = p, tb_size = n, tb_tid = thread_id s, tb_id = 0\<rparr>]\<rparr>)) (\<lambda>h. h = Aborted)"
  proof (rule ends_bnd)
    show "ends (linked_list_push (mem_list s) p n (thread_id s)) ?s (\<lambda>_ u. (\<exists>L' q. sn_ok u L' ?M (ns @ [q]) \<and>
      abstract ?M (ns @ [q]) u = (abstract ?M ns ?s)
        \<lparr>registry := registry (abstract ?M ns ?s) @ [\<lparr>tb_data = p, tb_size = n, tb_tid = thread_id s, tb_id = 0\<rparr>]\<rparr>) \<and>
      keeps_locks {} ?s u) (\<lambda>h. h = Aborted)"
      using push_ends [OF A(2) room, of p n "thread_id s"] by simp
  qed (use A(3) in \<open>auto simp: keeps_locks_def released_def intro!: models_keeps\<close>)
  ultimately show ?thesis by (simp add: ends_def)
qed


lemma allowed_abstract: "allowed (abstract M ns s) n = within_limit M n"
  by (simp add: allowed_def within_limit_def abstract_def)

lemma error_ends:
  assumes ok: "sn_ok s L M ns"
  shows "runs (sn_error e v) s (\<lambda>r t. r = v \<and> models t (failed e (abstract M ns s)) \<and> keeps_locks {} s t)"
proof (rule runs_mono [OF reads_error [OF ok]], elim conjE, intro conjI)
  fix r t assume t: "reads {} (err_code e) s L M ns t L M"
  show "models t (failed e (abstract M ns s))" using reads_models [OF ok t] by (simp add: failed_def)
  show "keeps_locks {} s t" by (rule reads_keeps [OF t])
qed

lemma roomD: "sn_ok s L M ns \<Longrightarrow> room s \<Longrightarrow> l_len L \<noteq> - 1"
  by (simp add: room_def)

lemma malloc_refines:
  assumes ok: "sn_ok s L M ns" and room: "room s"
  shows "ends (sn_malloc n) s (\<lambda>r t. keeps_locks {} s t \<and>
    (\<exists>b. models t b \<and> malloc_spec (cfg_sanitize s) (thread_id s) n (abstract M ns s) r b)) (\<lambda>h. h = Aborted)"
    (is "ends _ _ ?Q _")
proof -
  let ?a = "abstract M ns s"
  note D = sn_okD [OF ok]
  note can = canAllocate_eq [OF D(8,9), of n]
  have err: "ends (sn_error e NULL) s' ?Q (\<lambda>h. h = Aborted)"
    if "sn_ok s' L M ns" "abstract M ns s' = ?a" "keeps_locks {} s s'"
      "malloc_spec (cfg_sanitize s) (thread_id s) n ?a NULL (failed e ?a)" for e s'
    by (rule ends_mono [OF runs_ends [OF error_ends [OF that(1), of e NULL]]])
      (use that(2-4) in \<open>auto simp: keeps_locks_def\<close>)
  consider "n = 0" | "n \<noteq> 0" "\<not> within_limit M n" | "n \<noteq> 0" "within_limit M n" by blast
  then show ?thesis
  proof cases
    case 1
    then have "malloc_spec (cfg_sanitize s) (thread_id s) n ?a NULL (failed SN_ERR_BAD_SIZE ?a)"
      by (rule malloc_spec.bad_size)
    then show ?thesis using 1 err [OF ok refl] by (simp add: sn_malloc_def keeps_locks_def)
  next
    case 2
    then have "malloc_spec (cfg_sanitize s) (thread_id s) n ?a NULL (failed SN_ERR_ALLOC_LIMIT_HIT ?a)"
      by (intro malloc_spec.over_limit) (simp_all add: allowed_abstract)
    then show ?thesis using 2 can err [OF ok refl, of SN_ERR_ALLOC_LIMIT_HIT]
      by (simp add: sn_malloc_def ends_def keeps_locks_def)
  next
    case 3
    note n = 3
    show ?thesis
    proof (cases rule: plat_malloc_cases [of n s])
      case (fail rest)
      have "malloc_spec (cfg_sanitize s) (thread_id s) n ?a NULL (failed SN_ERR_BAD_ALLOC ?a)"
        using n by (intro malloc_spec.no_memory) (simp_all add: allowed_abstract)
      then have "ends (sn_error SN_ERR_BAD_ALLOC NULL) (s\<lparr>malloc_answers := rest\<rparr>) ?Q (\<lambda>h. h = Aborted)"
        by (intro err sn_ok_answers [OF assms(1)]) (simp_all add: abstract_def keeps_locks_def released_def)
      then show ?thesis using fail n can by (simp add: sn_malloc_def ends_def)
    next
      case (ok p junk rest)
      note P = this
      let ?bs = "if cfg_sanitize s then replicate (unat n) 0 else fresh_bytes n junk"
      let ?s = "s\<lparr>malloc_answers := rest, blocks := (blocks s)(p \<mapsto> ?bs)\<rparr>"
      have ok': "sn_ok ?s L M ns" by (rule sn_ok_new_block [OF assms(1) P(2)])
      have p: "p \<noteq> NULL" "blocks s p = None" using can_place_dom [OF P(2)] by auto
      have "malloc_spec (cfg_sanitize s) (thread_id s) n ?a p (with_block p ?bs n n (thread_id s) ?a)"
        using n p by (intro malloc_spec.allocated) (simp_all add: allowed_abstract, simp add: abstract_def)
      moreover have "(abstract M ns ?s)\<lparr>usage := usage (abstract M ns ?s) + n, registry := registry (abstract M ns ?s) @
        [\<lparr>tb_data = p, tb_size = n, tb_tid = thread_id ?s, tb_id = 0\<rparr>]\<rparr> = with_block p ?bs n n (thread_id s) ?a"
        by (simp add: abstract_def with_block_def thread_id_def)
      ultimately have "ends (account_and_track p n n) ?s ?Q (\<lambda>h. h = Aborted)"
        by (intro ends_mono [OF account_and_track_ends [OF ok' roomD [OF assms], of p n n]])
          (auto simp: keeps_locks_def released_def)
      moreover have "sn_malloc n s = account_and_track p n n ?s"
        using n can P p by (simp add: sn_malloc_def account_and_track_def c_memset_def)
      ultimately show ?thesis by (simp add: ends_def)
    qed
  qed
qed


section \<open>Release\<close>

lemma lookup_cores:
  assumes "cores h' = cores h" "set ns \<subseteq> dom h"
  shows "lookup (\<lambda>e. e_data e = k) h' ns = lookup (\<lambda>e. e_data e = k) h ns"
proof (rule lookup_cong)
  fix p assume "p \<in> set ns"
  then obtain e where e: "h p = Some e" using assms(2) by blast
  obtain e' where "h' p = Some e'" "core e' = core e" using cores_Some [OF assms(1) e] .
  then show "(e_data (the (h' p)) = k) = (e_data (the (h p)) = k)" using e core_eqD(3) [of e' e] by simp
qed

text \<open>The entry with a data pointer, when data pointers are different.\<close>

lemma data_unique:
  assumes "distinct (map tb_data (blocks_of h ns))" "p \<in> set ns" "q \<in> set ns"
    and "e_data (the (h p)) = e_data (the (h q))"
  shows "p = q"
proof -
  have "distinct (map (\<lambda>p. e_data (the (h p))) ns)" using assms(1) by (simp add: blocks_of_def comp_def)
  then show ?thesis using assms(2-4) by (simp add: distinct_map inj_on_def)
qed

lemma cached_is_lookup:
  assumes ok: "sn_ok s L M ns" and dist: "distinct (map tb_data (blocks_of (nodes s) ns))"
    and hit: "cached_entry M key \<noteq> MEMMAN_CACHE_MISS"
  shows "lookup (\<lambda>e. e_data e = key) (nodes s) ns = cached_entry M key"
proof (rule lookup_unique)
  let ?v = "cached_entry M key"
  have v: "?v \<in> set ns" "\<exists>e. nodes s ?v = Some e \<and> e_data e = key"
    using cached_entry_hit [OF sn_okD(5) [OF ok] hit] by auto
  then show "?v \<in> set ns" "e_data (the (nodes s ?v)) = key" by auto
  show "NULL \<notin> set ns" using list_okD(5) [OF sn_okD(1) [OF ok]] .
  show "q = ?v" if "q \<in> set ns" "e_data (the (nodes s q)) = key" for q
    using data_unique [OF dist that(1) v(1)] v(2) that(2) by auto
qed

text \<open>Both ways \<open>sn_free\<close> looks for the entry end at the same one.\<close>

lemma free_locates:
  assumes ok: "sn_ok s L M ns" and dist: "distinct (map tb_data (blocks_of (nodes s) ns))"
    and key: "key \<noteq> NULL"
  defines "p \<equiv> lookup (\<lambda>e. e_data e = key) (nodes s) ns"
  shows "\<exists>t L'. reads (leaks L ns) (error_code s) s L M ns t L' M \<and>
    sn_free key s = (if p = NULL then sn_error SN_ERR_NO_ADDER_FOUND () t else sn_free_entry key p t)"
proof -
  obtain s1 where c: "memman_TryCacheHit (memory_manager s) key s = Done (cached_entry M key) s1"
    and r1: "reads {} (error_code s) s L M ns s1 L M"
    using reads_TryCacheHit [OF ok, of key] by (auto simp: runs_def)
  show ?thesis
  proof (cases "cached_entry M key = MEMMAN_CACHE_MISS")
    case False
    then have "p = cached_entry M key" using cached_is_lookup [OF ok dist] by (simp add: p_def)
    then show ?thesis using c False key reads_mono [OF r1]
      by (intro exI [of _ s1] exI [of _ L]) (simp add: sn_free_def MEMMAN_CACHE_MISS_def)
  next
    case True
    have "lookup (\<lambda>e. e_data e = key) (nodes s1) ns = p"
      using lookup_cores [OF readsD(2) [OF r1] sn_ok_dom [OF ok]] by (simp add: p_def)
    then obtain t L' where "linked_list_getByPtr (mem_list s1) key s1 = Done p t"
      and r2: "reads (leaks L ns) (error_code s1) s1 L M ns t L' M"
      using reads_getByPtr [OF readsD(1) [OF r1] key] by (auto simp: runs_def)
    then have "sn_free key s = (if p = NULL then sn_error SN_ERR_NO_ADDER_FOUND () t else sn_free_entry key p t)"
      using c True key by (simp add: sn_free_def readsD(11) [OF r1] cong: if_cong)
    then show ?thesis using reads_trans [OF r1 r2] readsD(3) [OF r1] by auto
  qed
qed


text \<open>Zeroing the bytes of the block before it is freed.\<close>

lemma sanitize_block:
  assumes ok: "sn_ok s L M ns" and e: "nodes s p = Some e" and b: "blocks s (e_data e) = Some bs"
    and len: "unat (e_size e) \<le> length bs"
  shows "\<exists>b'. bnd (gets cfg_sanitize) (\<lambda>z. if_do z (bnd (load_node p) (\<lambda>e. c_memset (e_data e) 0 (e_size e)))) s =
    Done () (s\<lparr>blocks := (blocks s)(e_data e \<mapsto> b')\<rparr>)"
proof (cases "cfg_sanitize s \<and> e_size e \<noteq> 0")
  case True
  then show ?thesis using e b len by (simp add: c_memset_def) blast
next
  case False
  then have "(blocks s)(e_data e \<mapsto> bs) = blocks s" using b by (simp add: fun_upd_idem)
  then show ?thesis using False e
    by (intro exI [of _ bs], cases "cfg_sanitize s") (simp_all add: c_memset_def ret_def)
qed

lemma free_entry_refines:
  assumes ok: "sn_ok s L M (xs @ p # ys)" and e: "nodes s p = Some e" "e_data e = key" "key \<noteq> NULL"
    and b: "blocks s key = Some bs" "unat (e_size e) \<le> length bs"
    and first: "\<forall>q \<in> set xs. e_data (the (nodes s q)) \<noteq> key"
  shows "runs (sn_free_entry key p) s (\<lambda>_ t. keeps_locks {} s t \<and>
    (\<exists>L' M'. sn_ok t L' M' (xs @ ys) \<and> abstract M' (xs @ ys) t = (abstract M (xs @ p # ys) s)
      \<lparr>registry := blocks_of (nodes s) (xs @ ys), usage := m_global_memory_usage M - e_size e,
       memory := (blocks s)(key := None)\<rparr>))"
proof -
  let ?ns = "xs @ p # ys" and ?n = "e_size e"
  obtain b' where z: "bnd (gets cfg_sanitize) (\<lambda>z. if_do z (bnd (load_node p) (\<lambda>e. c_memset (e_data e) 0 (e_size e)))) s =
      Done () (s\<lparr>blocks := (blocks s)(key \<mapsto> b')\<rparr>)"
    using sanitize_block [OF ok e(1)] b e(2) by auto
  let ?s1 = "s\<lparr>blocks := (blocks s)(key \<mapsto> b')\<rparr>"
  have ok1: "sn_ok ?s1 L M ?ns" using b by (intro sn_ok_blocks [OF ok]) auto
  let ?M2 = "M\<lparr>m_global_memory_usage := m_global_memory_usage M + - ?n\<rparr>"
  let ?s2 = "?s1\<lparr>managers := (managers ?s1)(memory_manager ?s1 \<mapsto> ?M2)\<rparr>"
  note U = add_usage_eq [OF ok1, of "- ?n"]
  let ?M3 = "emptied (key_hit key) ?M2"
  obtain s3 where c: "memman_cacheInvalidate (memory_manager s) key ?s2 = Done () s3"
    and r3: "reads {} (error_code s) ?s2 L ?M2 ?ns s3 L ?M3"
    using reads_cacheInvalidate [OF U(2), of key] by (auto simp: runs_def)
  note R = readsD [OF r3]
  have ok3: "sn_ok s3 L ?M3 ?ns" by (rule R(1))
  obtain e3 where e3: "nodes s3 p = Some e3" "core e3 = core e"
    using cores_Some [OF R(2), of p e] e(1) by auto
  have d3: "e_data e3 = key" using core_eqD(3) [OF e3(2)] e(2) by simp
  have p: "p \<noteq> NULL" using list_ok_around(1) [OF sn_okD(1) [OF ok]] .
  have b3: "blocks s3 key = Some b'" using R(4) by simp
  let ?s4 = "s3\<lparr>blocks := (blocks s3)(key := None)\<rparr>"
  have f: "plat_free key s3 = Done () ?s4" using plat_free_block [OF sn_okD(6) [OF ok3] b3 e(3)] .
  have ok4: "sn_ok ?s4 L ?M3 ?ns" by (intro sn_ok_blocks [OF ok3]) auto
  have none: "cp_value c \<noteq> p" if "c \<in> set (m_cache_list ?M3)" for c
    using invalidated_no_entry [OF sn_okD(5) [OF U(2)], of c key p e] that e p by auto
  have first4: "\<forall>q \<in> set xs. e_data (the (nodes ?s4 q)) \<noteq> key"
  proof
    fix q assume q: "q \<in> set xs"
    then obtain f where f: "nodes s q = Some f" using list_ok_node [OF sn_okD(1) [OF ok], of q] by auto
    then obtain f' where "nodes s3 q = Some f'" "core f' = core f" using cores_Some [OF R(2), of q f] by auto
    then show "e_data (the (nodes ?s4 q)) \<noteq> key" using first q f core_eqD(3) [of f' f] by auto
  qed
  obtain t where rm: "linked_list_removeEntryByPtr (mem_list s) key ?s4 = Done () t"
    and t: "settled {} ?s4 (untracked_in ?s4 L xs p ys) t"
    using remove_untracks [OF ok4 e(3) _ first4] e3 d3 R(11) by (auto simp: runs_def)
  note X = sn_ok_untracked_in [OF ok4 none]
  have ok_t: "sn_ok t (removed_list xs ys L) ?M3 (xs @ ys)"
    using sn_ok_lockeq [OF settled_lockeq [OF t] X(1)] .
  have "blocks_of (nodes s3) (xs @ ys) = blocks_of (nodes s) (xs @ ys)"
    using blocks_of_cores [of "nodes s3" "nodes s" "xs @ ys"] R(2) sn_ok_dom [OF ok] by simp
  then have a: "abstract ?M3 (xs @ ys) t = (abstract M ?ns s)
      \<lparr>registry := blocks_of (nodes s) (xs @ ys), usage := m_global_memory_usage M - ?n,
       memory := (blocks s)(key := None)\<rparr>"
    using abstract_lockeq [OF settled_lockeq [OF t]] X(2) R(3,4) by (simp add: abstract_def)
  have run: "sn_free_entry key p s = Done () t"
    using z e U(1) c d3 e3 p f rm R(11,13)
    by (simp add: sn_free_entry_def linked_list_entry_getData_def)
  have "keeps_locks {} ?s2 t"
    using reads_keeps [OF r3] settled_keeps [OF t] by (simp add: keeps_locks_def released_def)
  then have "keeps_locks {} s t" by (simp add: keeps_locks_def released_def)
  then show ?thesis using run ok_t a by (auto simp: runs_def)
qed

lemma remove_first_blocks:
  "\<lbrakk>\<forall>x \<in> set xs. e_data (the (h x)) \<noteq> p; e_data (the (h q)) = p\<rbrakk> \<Longrightarrow>
   remove_first (\<lambda>b. tb_data b = p) (blocks_of h (xs @ q # ys)) = blocks_of h (xs @ ys)"
  by (induction xs) auto

lemma free_refines:
  assumes ok: "sn_ok s L M ns" and owned: "owned (abstract M ns s)"
  shows "runs (sn_free p) s (\<lambda>_ t. keeps_locks (leaks L ns) s t \<and> models t (free_spec p (abstract M ns s)))"
proof (cases "p = NULL")
  case True
  then show ?thesis using error_ends [OF ok, of SN_ERR_NULL_PTR "()"]
    by (auto simp: sn_free_def free_spec_def keeps_locks_def runs_def)
next
  case False
  let ?q = "lookup (\<lambda>e. e_data e = p) (nodes s) ns"
  have dist: "distinct (map tb_data (blocks_of (nodes s) ns))" using owned by (simp add: owned_def abstract_def)
  obtain t L' where r: "reads (leaks L ns) (error_code s) s L M ns t L' M"
    and run: "sn_free p s = (if ?q = NULL then sn_error SN_ERR_NO_ADDER_FOUND () t else sn_free_entry p ?q t)"
    using free_locates [OF ok dist False] by blast
  note R = readsD [OF r]
  have a: "abstract M ns t = abstract M ns s" using reads_abstract [OF ok r] by (simp add: abstract_def)
  have find: "find_block p (registry (abstract M ns s)) =
      (if ?q = NULL then None else Some (block_of (the (nodes s ?q))))"
    using find_block_lookup [OF list_okD(5) [OF sn_okD(1) [OF ok]]] by (simp add: abstract_def Let_def)
  show ?thesis
  proof (cases "?q = NULL")
    case True
    then show ?thesis using run error_ends [OF R(1), of SN_ERR_NO_ADDER_FOUND "()"] a find \<open>p \<noteq> NULL\<close>
        keeps_locks_trans [OF reads_keeps [OF r]]
      by (fastforce simp: free_spec_def runs_def)
  next
    case q: False
    define q where "q = ?q"
    have q0: "q \<noteq> NULL" using q by (simp add: q_def)
    obtain xs ys where ns: "ns = xs @ q # ys" and dq: "e_data (the (nodes s q)) = p"
      and first: "\<forall>x \<in> set xs. e_data (the (nodes s x)) \<noteq> p"
      using lookup_split [OF q_def [symmetric] q0] by blast
    obtain e where e: "nodes s q = Some e" using list_ok_node [OF sn_okD(1) [OF ok], of q] ns by auto
    obtain e' where e': "nodes t q = Some e'" "core e' = core e" using cores_Some [OF R(2) e] .
    have "block_of e \<in> set (registry (abstract M ns s))" using e ns by (simp add: registry_abstract)
    then obtain bs where bs: "blocks s p = Some bs" "unat (e_size e) \<le> length bs"
      using owned e dq by (fastforce simp: owned_def abstract_def)
    have first': "\<forall>x \<in> set xs. e_data (the (nodes t x)) \<noteq> p"
    proof
      fix x assume x: "x \<in> set xs"
      then obtain f where f: "nodes s x = Some f" using list_ok_node [OF sn_okD(1) [OF ok], of x] ns by auto
      then obtain f' where "nodes t x = Some f'" "core f' = core f" using cores_Some [OF R(2)] by blast
      then show "e_data (the (nodes t x)) \<noteq> p" using first x f core_eqD(3) [of f' f] by auto
    qed
    have okt: "sn_ok t L' M (xs @ q # ys)" using R(1) ns by simp
    have "runs (sn_free_entry p q) t (\<lambda>_ u. keeps_locks {} t u \<and>
      (\<exists>L' M'. sn_ok u L' M' (xs @ ys) \<and> abstract M' (xs @ ys) u = (abstract M (xs @ q # ys) t)
        \<lparr>registry := blocks_of (nodes t) (xs @ ys), usage := m_global_memory_usage M - e_size e',
         memory := (blocks t)(p := None)\<rparr>))"
      using e' e dq bs core_eqD(3,4) [OF e'(2)] R(4) \<open>p \<noteq> NULL\<close>
      by (intro free_entry_refines [OF okt e'(1) _ _ _ _ first', of bs]) auto
    moreover have "(abstract M (xs @ q # ys) t)\<lparr>registry := blocks_of (nodes t) (xs @ ys),
         usage := m_global_memory_usage M - e_size e', memory := (blocks t)(p := None)\<rparr> = free_spec p (abstract M ns s)"
    proof -
      have "blocks_of (nodes t) (xs @ ys) = blocks_of (nodes s) (xs @ ys)"
        using blocks_of_cores [of "nodes t" "nodes s" "xs @ ys"] R(2) sn_ok_dom [OF ok] ns by simp
      moreover have "remove_first (\<lambda>b. tb_data b = p) (registry (abstract M ns s)) = blocks_of (nodes s) (xs @ ys)"
        using remove_first_blocks [OF first dq] by (simp add: registry_abstract ns)
      moreover have "find_block p (registry (abstract M ns s)) = Some (block_of e)"
        using find q0 e by (simp add: q_def)
      ultimately have "free_spec p (abstract M ns s) = (abstract M ns s)\<lparr>registry := blocks_of (nodes t) (xs @ ys),
          usage := m_global_memory_usage M - e_size e', memory := (blocks t)(p := None)\<rparr>"
        using \<open>p \<noteq> NULL\<close> core_eqD(4) [OF e'(2)] R(4)
        by (simp add: free_spec_def without_block_def) (simp add: abstract_def)
      then show ?thesis using a by (simp add: ns)
    qed
    ultimately show ?thesis
      using run q0 keeps_locks_trans [OF reads_keeps [OF r], of "{}"]
      by (fastforce simp: q_def [symmetric] runs_def models_def)
  qed
qed

section \<open>calloc\<close>

lemma calloc_refines:
  assumes ok: "sn_ok s L M ns" and room: "room s"
  shows "ends (sn_calloc num n) s (\<lambda>r t. keeps_locks {} s t \<and>
    (\<exists>b. models t b \<and> calloc_spec (thread_id s) num n (abstract M ns s) r b)) (\<lambda>h. h = Aborted)"
    (is "ends _ _ ?Q _")
proof -
  let ?a = "abstract M ns s" and ?k = "n * num"
  note D = sn_okD [OF ok]
  note can = canAllocate_eq [OF D(8,9), of ?k]
  have err: "ends (sn_error e NULL) s' ?Q (\<lambda>h. h = Aborted)"
    if "sn_ok s' L M ns" "abstract M ns s' = ?a" "keeps_locks {} s s'"
      "calloc_spec (thread_id s) num n ?a NULL (failed e ?a)" for e s'
    by (rule ends_mono [OF runs_ends [OF error_ends [OF that(1), of e NULL]]])
      (use that(2-4) in \<open>auto simp: keeps_locks_def\<close>)
  consider "n = 0 \<or> num = 0" | "n \<noteq> 0" "num \<noteq> 0" "\<not> within_limit M ?k" | "n \<noteq> 0" "num \<noteq> 0" "within_limit M ?k"
    by blast
  then show ?thesis
  proof cases
    case 1
    then have "calloc_spec (thread_id s) num n ?a NULL (failed SN_ERR_BAD_SIZE ?a)"
      by (rule calloc_spec.bad_size)
    then show ?thesis using 1 err [OF ok refl] by (auto simp: sn_calloc_def keeps_locks_def)
  next
    case 2
    then have "calloc_spec (thread_id s) num n ?a NULL (failed SN_ERR_ALLOC_LIMIT_HIT ?a)"
      by (intro calloc_spec.over_limit) (simp_all add: allowed_abstract)
    then show ?thesis using 2 can err [OF ok refl, of SN_ERR_ALLOC_LIMIT_HIT]
      by (simp add: sn_calloc_def ends_def keeps_locks_def)
  next
    case 3
    note n = 3
    let ?bs = "replicate (unat num * unat n) (0 :: byte)"
    consider (fail) rest where "plat_calloc num n s = Done NULL (s\<lparr>malloc_answers := rest\<rparr>)"
      | (ok) p rest where "uint num * uint n < 2 ^ 64" "can_place s p (num * n)"
        "plat_calloc num n s = Done p (s\<lparr>malloc_answers := rest, blocks := (blocks s)(p \<mapsto> ?bs)\<rparr>)"
    proof (cases "malloc_answers s")
      case Nil
      then show ?thesis by (intro fail [of "[]"]) (simp add: plat_calloc_def)
    next
      case (Cons a rest)
      then show ?thesis
        by (cases a, cases "uint num * uint n < 2 ^ 64 \<and> can_place s (fst a) (num * n)")
          (auto simp: plat_calloc_def intro: fail [of rest] ok [of "fst a" rest])
    qed
    then show ?thesis
    proof cases
      case (fail rest)
      have "calloc_spec (thread_id s) num n ?a NULL (failed SN_ERR_BAD_ALLOC ?a)"
        using n by (intro calloc_spec.no_memory) (simp_all add: allowed_abstract)
      then have "ends (sn_error SN_ERR_BAD_ALLOC NULL) (s\<lparr>malloc_answers := rest\<rparr>) ?Q (\<lambda>h. h = Aborted)"
        by (intro err sn_ok_answers [OF assms(1)]) (simp_all add: abstract_def keeps_locks_def released_def)
      then show ?thesis using fail n can by (simp add: sn_calloc_def ends_def)
    next
      case (ok p rest)
      note P = this
      let ?s = "s\<lparr>malloc_answers := rest, blocks := (blocks s)(p \<mapsto> ?bs)\<rparr>"
      have ok': "sn_ok ?s L M ns" by (rule sn_ok_new_block [OF assms(1) P(2)])
      have p: "p \<noteq> NULL" "blocks s p = None" using can_place_dom [OF P(2)] by auto
      have "int (unat num * unat n) < int (2 ^ 64)" using P(1) by simp
      then have "unat num * unat n < 2 ^ 64" by (simp only: of_nat_less_iff)
      then have "calloc_spec (thread_id s) num n ?a p (with_block p ?bs n ?k (thread_id s) ?a)"
        using n p by (intro calloc_spec.allocated) (simp_all add: allowed_abstract, simp add: abstract_def)
      moreover have "(abstract M ns ?s)\<lparr>usage := usage (abstract M ns ?s) + ?k, registry := registry (abstract M ns ?s) @
        [\<lparr>tb_data = p, tb_size = n, tb_tid = thread_id ?s, tb_id = 0\<rparr>]\<rparr> = with_block p ?bs n ?k (thread_id s) ?a"
        by (simp add: abstract_def with_block_def thread_id_def)
      ultimately have "ends (account_and_track p n ?k) ?s ?Q (\<lambda>h. h = Aborted)"
        by (intro ends_mono [OF account_and_track_ends [OF ok' roomD [OF assms], of p n ?k]])
          (auto simp: keeps_locks_def released_def)
      moreover have "sn_calloc num n s = account_and_track p n ?k ?s"
        using n can P p by (simp add: sn_calloc_def account_and_track_def)
      ultimately show ?thesis by (simp add: ends_def)
    qed
  qed
qed

section \<open>Writing an entry\<close>

lemma sn_ok_entry:
  assumes ok: "sn_ok s L M ns" and e: "nodes s p = Some e"
    and same: "e_previous e' = e_previous e" "e_next e' = e_next e" "e_isHead e' = e_isHead e" "e_mutex e' = e_mutex e"
    and cache: "e_data e' = e_data e \<or> (\<forall>c \<in> set (m_cache_list M). cp_value c \<noteq> p)"
  shows "sn_ok (s\<lparr>nodes := (nodes s)(p \<mapsto> e')\<rparr>) L M ns"
proof -
  note D = sn_okD [OF ok]
  have "cache_ok ((nodes s)(p \<mapsto> e')) ns (m_cache_list M)"
  proof (cases "e_data e' = e_data e")
    case True
    then show ?thesis using D(5) e unfolding cache_ok_def pair_ok_def by fastforce
  next
    case False
    then show ?thesis using D(5) cache by (intro cache_ok_remove [OF D(5), where p = p]) auto
  qed
  moreover have "split_ok (s\<lparr>nodes := (nodes s)(p \<mapsto> e')\<rparr>)"
    using D(6) by (rule split_ok_cong) (use e in auto)
  moreover have "list_ok (s\<lparr>nodes := (nodes s)(p \<mapsto> e')\<rparr>) (mem_list s) L ns"
    by (rule list_ok_upd_node [OF D(1) e same])
  ultimately show ?thesis using D(2-4,10) by (simp add: sn_ok_def manager_at_def mutexes_ok_def)
qed

text \<open>A setter on a tracked entry: the field changes, the list's mutex is released.\<close>

lemma entry_set_runs:
  assumes ok: "sn_ok s L M ns" and p: "p \<in> set ns" and e: "nodes s p = Some e" and f: "e_mutex (f e) = e_mutex e"
  shows "runs (entry_set f p) s (\<lambda>_ t. settled {} s (s\<lparr>nodes := (nodes s)(p \<mapsto> f e)\<rparr>) t)"
proof -
  note D = sn_okD [OF ok]
  have m: "e_mutex e = l_mutex L" using list_ok_node [OF D(1) p] e by auto
  have p0: "p \<noteq> NULL" using list_okD(5) [OF D(1)] p by auto
  let ?X = "s\<lparr>nodes := (nodes s)(p \<mapsto> f e)\<rparr>"
  have "settled {} s ?X (unlocked (l_mutex L) ?X)" using D(2) by (intro settled_after_lock) simp_all
  then show ?thesis using entry_set_Some [of s p e f] e p0 f m D(2) by (simp add: runs_def)
qed

lemma blocks_of_entry:
  assumes "distinct (map tb_data (blocks_of h ns))" "p \<in> set ns" "h p = Some e"
    and "\<And>b. b = block_of e \<Longrightarrow> block_of e' = g b"
  shows "blocks_of (h(p \<mapsto> e')) ns = map (\<lambda>b. if tb_data b = e_data e then g b else b) (blocks_of h ns)"
proof -
  have "block_of (the ((h(p \<mapsto> e')) q)) =
      (if e_data (the (h q)) = e_data e then g (block_of (the (h q))) else block_of (the (h q)))"
    if q: "q \<in> set ns" for q
  proof (cases "q = p")
    case True
    then show ?thesis using assms(3,4) by simp
  next
    case False
    then have "e_data (the (h q)) \<noteq> e_data e" using data_unique [OF assms(1) q assms(2)] assms(3) by auto
    then show ?thesis using False by simp
  qed
  then show ?thesis by (simp add: blocks_of_def)
qed


section \<open>realloc\<close>

lemma plat_realloc_cases:
  assumes "blocks s p = Some old"
  obtains (fail) rest where "plat_realloc p n s = Done NULL (s\<lparr>malloc_answers := rest\<rparr>)"
  | (ok) q bs rest where "q = p \<or> can_place s q n" "length bs = unat n"
      "take (min (length old) (unat n)) bs = take (unat n) old"
      "plat_realloc p n s = Done q (s\<lparr>malloc_answers := rest, blocks := (blocks s)(p := None, q \<mapsto> bs)\<rparr>)"
proof (cases "malloc_answers s")
  case Nil
  then show ?thesis using assms by (intro fail [of "[]"]) (simp add: plat_realloc_def)
next
  case (Cons a rest)
  obtain q junk where a: "a = (q, junk)" by (cases a)
  have "take (min (length old) (unat n)) (fresh_bytes n (old @ junk)) = take (unat n) old"
    by (simp add: fresh_bytes_def min_def)
  then show ?thesis using assms Cons a
    by (cases "q = p \<and> uint p + uint n \<le> 2 ^ 64 \<or> can_place s q n")
      (auto simp: plat_realloc_def intro: fail [of rest] ok [of q "fresh_bytes n (old @ junk)" rest])
qed

text \<open>The bookkeeping after a successful \<open>realloc\<close>.\<close>

definition note_resize :: "ptr \<Rightarrow> ptr \<Rightarrow> size_t \<Rightarrow> ptr lib" where
  "note_resize entry new_ptr new_size =
     bnd (load_node entry) (\<lambda>e.
     bnd (add_usage (- e_size e)) (\<lambda>_.
     bnd (add_usage new_size) (\<lambda>_.
     bnd (linked_list_entry_setData entry new_ptr) (\<lambda>_.
     bnd (linked_list_entry_setSize entry new_size) (\<lambda>_.
     ret new_ptr)))))"

lemma note_resize_runs:
  assumes ok: "sn_ok s L M ns" and p: "p \<in> set ns" and e: "nodes s p = Some e"
    and none: "\<forall>c \<in> set (m_cache_list M). cp_value c \<noteq> p"
    and dist: "distinct (map tb_data (blocks_of (nodes s) ns))"
  shows "runs (note_resize p q n) s (\<lambda>r t. r = q \<and> keeps_locks {} s t \<and>
    models t ((abstract M ns s)\<lparr>registry := resized (e_data e) q n (registry (abstract M ns s)),
      usage := usage (abstract M ns s) - e_size e + n\<rparr>))"
proof -
  note U = add_usage_eq [OF ok, of "- e_size e"]
  let ?M1 = "M\<lparr>m_global_memory_usage := m_global_memory_usage M + - e_size e\<rparr>"
  let ?s1 = "s\<lparr>managers := (managers s)(memory_manager s \<mapsto> ?M1)\<rparr>"
  let ?M2 = "?M1\<lparr>m_global_memory_usage := m_global_memory_usage ?M1 + n\<rparr>"
  let ?s2 = "?s1\<lparr>managers := (managers ?s1)(memory_manager ?s1 \<mapsto> ?M2)\<rparr>"
  note V = add_usage_eq [OF U(2), of n]
  have ok2: "sn_ok ?s2 L ?M2 ns" by (rule V(2))
  have e2: "nodes ?s2 p = Some e" using e by simp
  let ?e3 = "e\<lparr>e_data := q\<rparr>"
  obtain s3 where r3: "linked_list_entry_setData p q ?s2 = Done () s3"
    and t3: "settled {} ?s2 (?s2\<lparr>nodes := (nodes ?s2)(p \<mapsto> ?e3)\<rparr>) s3"
    using entry_set_runs [OF ok2 p e2, of "\<lambda>e. e\<lparr>e_data := q\<rparr>"]
    by (auto simp: runs_def linked_list_entry_setData_def)
  note L3 = lockeq_fields [OF settled_lockeq [OF t3]]
  have ok3: "sn_ok s3 L ?M2 ns"
    using sn_ok_lockeq [OF settled_lockeq [OF t3] sn_ok_entry [OF ok2 e2]] none by simp
  have n3: "nodes s3 p = Some ?e3" using L3(1) by simp
  let ?e4 = "?e3\<lparr>e_size := n\<rparr>"
  obtain t where r4: "linked_list_entry_setSize p n s3 = Done () t"
    and t4: "settled {} s3 (s3\<lparr>nodes := (nodes s3)(p \<mapsto> ?e4)\<rparr>) t"
    using entry_set_runs [OF ok3 p n3, of "\<lambda>e. e\<lparr>e_size := n\<rparr>"]
    by (auto simp: runs_def linked_list_entry_setSize_def)
  have ok4: "sn_ok t L ?M2 ns"
    using sn_ok_lockeq [OF settled_lockeq [OF t4] sn_ok_entry [OF ok3 n3]] by simp
  have "nodes t = (nodes s)(p \<mapsto> ?e4)"
    using lockeq_fields(1) [OF settled_lockeq [OF t4]] L3(1) by simp
  moreover have "blocks_of ((nodes s)(p \<mapsto> ?e4)) ns = resized (e_data e) q n (blocks_of (nodes s) ns)"
    using blocks_of_entry [OF dist p e, of ?e4 "\<lambda>b. b\<lparr>tb_data := q, tb_size := n\<rparr>"]
    by (simp add: resized_def block_of_def)
  ultimately have a: "abstract ?M2 ns t = (abstract M ns s)\<lparr>registry := resized (e_data e) q n (registry (abstract M ns s)),
      usage := usage (abstract M ns s) - e_size e + n\<rparr>"
    using lockeq_fields(4,15) [OF settled_lockeq [OF t4]] L3(4,15) by (simp add: abstract_def)
  have run: "note_resize p q n s = Done q t"
    using e U(1) V(1) r3 r4 by (simp add: note_resize_def ret_def)
  have "keeps_locks {} s t"
    using settled_keeps [OF t3] settled_keeps [OF t4] by (simp add: keeps_locks_def released_def)
  then show ?thesis using run ok4 a models_keeps [OF ok4 refl] by (simp add: runs_def)
qed


lemma realloc_refines:
  assumes ok: "sn_ok s L M ns" and owned: "owned (abstract M ns s)"
    and uncached: "\<forall>c \<in> set (m_cache_list M). cp_key c \<noteq> p"
  shows "runs (sn_realloc p n) s (\<lambda>r t. keeps_locks (leaks L ns) s t \<and>
    (\<exists>b. models t b \<and> realloc_spec p n (abstract M ns s) r b))" (is "runs _ _ ?Q")
proof -
  let ?a = "abstract M ns s"
  have err: "runs (sn_error e NULL) s' ?Q" if "sn_ok s' L' M ns" "abstract M ns s' = ?a"
      "keeps_locks (leaks L ns) s s'" "realloc_spec p n ?a NULL (failed e ?a)" for e s' L'
    by (rule runs_mono [OF error_ends [OF that(1), of e NULL]])
      (use that(2-4) in \<open>auto simp: keeps_locks_def\<close>)
  show ?thesis
  proof (cases "p = NULL")
    case True
    then have "realloc_spec p n ?a NULL (failed SN_ERR_NULL_PTR ?a)" by (rule realloc_spec.null)
    then show ?thesis using True err [OF ok refl] by (simp add: sn_realloc_def keeps_locks_def)
  next
    case p: False
    define q where "q = lookup (\<lambda>e. e_data e = p) (nodes s) ns"
    obtain t L' where g: "linked_list_getByPtr (mem_list s) p s = Done q t"
      and r: "reads (leaks L ns) (error_code s) s L M ns t L' M"
      using reads_getByPtr [OF ok p] by (auto simp: runs_def q_def)
    note R = readsD [OF r]
    have a: "abstract M ns t = ?a" using reads_abstract [OF ok r] by (simp add: abstract_def)
    have kl: "keeps_locks (leaks L ns) s t" by (rule reads_keeps [OF r])
    note err' = err [OF R(1) a kl]
    have find: "find_block p (registry ?a) = (if q = NULL then None else Some (block_of (the (nodes s q))))"
      using find_block_lookup [OF list_okD(5) [OF sn_okD(1) [OF ok]]] by (simp add: abstract_def Let_def q_def)
    show ?thesis
    proof (cases "q = NULL")
      case True
      then have "realloc_spec p n ?a NULL (failed SN_ERR_NO_ADDER_FOUND ?a)"
        using p find by (intro realloc_spec.untracked) simp_all
      then show ?thesis using err' True g p by (simp add: sn_realloc_def runs_def)
    next
      case q: False
      have q_ns: "q \<in> set ns" and dq: "e_data (the (nodes s q)) = p"
        using lookup_in [of "\<lambda>e. e_data e = p" "nodes s" ns] q by (simp_all add: q_def)
      obtain e where e: "nodes s q = Some e" using list_ok_node [OF sn_okD(1) [OF ok] q_ns] by blast
      obtain e' where e': "nodes t q = Some e'" "core e' = core e" using cores_Some [OF R(2) e] .
      have same: "e_data e' = p" "e_size e' = e_size e" using core_eqD(3,4) [OF e'(2)] e dq by auto
      have fb: "find_block p (registry ?a) = Some (block_of e)" using find q e by simp
      then obtain old where old: "blocks t p = Some old"
        using owned find_block_in [OF fb] R(4) by (fastforce simp: owned_def abstract_def)
      show ?thesis
      proof (cases "n = 0")
        case True
        then have "realloc_spec p n ?a NULL (failed SN_ERR_BAD_SIZE ?a)"
          using p fb by (intro realloc_spec.bad_size)
        then show ?thesis using err' True g p q by (simp add: sn_realloc_def runs_def)
      next
        case n: False
        let ?can = "n > e_size e \<longrightarrow> within_limit M (n - e_size e)"
        have can: "memman_canAllocateBasedOnLimitAndSize (memory_manager s) k t = Done (within_limit M k) t" for k
          using canAllocate_eq [OF sn_okD(8,9) [OF R(1)]] R(13) by simp
        show ?thesis
        proof (cases ?can)
          case False
          then have "realloc_spec p n ?a NULL (failed SN_ERR_ALLOC_LIMIT_HIT ?a)"
            using p fb by (intro realloc_spec.over_limit [of _ _ "block_of e"]) (simp_all add: allowed_abstract)
          moreover have "sn_realloc p n s = sn_error SN_ERR_ALLOC_LIMIT_HIT NULL t"
            using False g p q n e' same can R(13) by (simp add: sn_realloc_def)
          ultimately show ?thesis using err' by (simp add: runs_def)
        next
          case True
          show ?thesis
          proof (rule plat_realloc_cases [OF old, of n], goal_cases)
            case fail: (1 rest)
            have "realloc_spec p n ?a NULL (failed SN_ERR_BAD_ALLOC ?a)"
              using p fb n by (intro realloc_spec.no_memory)
            moreover have "sn_realloc p n s = sn_error SN_ERR_BAD_ALLOC NULL (t\<lparr>malloc_answers := rest\<rparr>)"
              using True g p q n e' same can R(13) fail by (simp add: sn_realloc_def)
            moreover have "runs (sn_error SN_ERR_BAD_ALLOC NULL) (t\<lparr>malloc_answers := rest\<rparr>) ?Q"
              by (rule err [OF sn_ok_answers [OF R(1)]])
                (use a kl calculation(1) in \<open>simp_all add: abstract_def keeps_locks_def released_def\<close>)
            ultimately show ?thesis by (simp add: runs_def)
          next
            case X: (2 x bs rest)
            let ?t = "t\<lparr>malloc_answers := rest, blocks := (blocks t)(p := None, x \<mapsto> bs)\<rparr>"
            have x0: "x \<noteq> NULL" using X(1) p can_place_dom(6) by auto
            have "dom ((blocks t)(p := None)) \<subseteq> dom (blocks t)" by auto
            then have "sn_ok (t\<lparr>blocks := (blocks t)(p := None)\<rparr>) L' M ns" by (rule sn_ok_blocks [OF R(1)])
            then have okx: "sn_ok ?t L' M ns"
              using X(1) old sn_ok_new_block [of "t\<lparr>blocks := (blocks t)(p := None)\<rparr>" L' M ns x n bs rest]
                sn_ok_blocks [OF sn_ok_answers [OF R(1)], of "(blocks t)(p \<mapsto> bs)" rest]
              by (auto simp: can_place_def live_def insert_absorb domI)
            have none: "\<forall>c \<in> set (m_cache_list M). cp_value c \<noteq> q"
              using uncached cache_okD(1) [OF sn_okD(5) [OF \<open>sn_ok s L M ns\<close>]] e dq q by fastforce
            have "blocks_of (nodes t) ns = blocks_of (nodes s) ns"
              using a by (simp add: abstract_def)
            then have dist: "distinct (map tb_data (blocks_of (nodes ?t) ns))"
              using owned by (simp add: owned_def abstract_def)
            have et: "nodes ?t q = Some e'" using e' by simp
            let ?b = "?a\<lparr>registry := resized p x n (registry ?a), usage := usage ?a - tb_size (block_of e) + n,
                memory := (memory ?a)(p := None, x \<mapsto> bs)\<rparr>"
            have spec: "realloc_spec p n ?a x ?b"
              using p fb n True X x0 old R(4) can_place_dom(2) [of t x n]
              by (intro realloc_spec.moved [where old = old]) (auto simp: allowed_abstract, auto simp: abstract_def)
            have b: "(abstract M ns ?t)\<lparr>registry := resized (e_data e') x n (registry (abstract M ns ?t)),
                usage := usage (abstract M ns ?t) - e_size e' + n\<rparr> = ?b"
              using a same by (simp add: abstract_def)
            have "runs (note_resize q x n) ?t ?Q"
              by (rule runs_mono [OF note_resize_runs [OF okx q_ns et none dist]])
                (use kl spec b in \<open>auto simp: keeps_locks_def released_def\<close>)
            moreover have "sn_realloc p n s = note_resize q x n ?t"
              using True g p q n e' same can R(13) X x0 by (simp add: sn_realloc_def note_resize_def)
            ultimately show ?thesis by (simp add: runs_def)
          qed
        qed
      qed
    qed
  qed
qed


section \<open>Filled blocks and the exit flag\<close>

lemma malloc_spec_block:
  assumes "malloc_spec z t n a r b" "r \<noteq> NULL"
  shows "\<exists>bs. b = with_block r bs n n t a \<and> length bs = unat n \<and> n \<noteq> 0 \<and> memory a r = None"
  using assms by cases auto

lemma malloc_pre_initialized_refines:
  assumes ok: "sn_ok s L M ns" and room: "room s"
  shows "ends (sn_malloc_pre_initialized n v) s (\<lambda>r t. keeps_locks {} s t \<and>
    (\<exists>b. malloc_spec (cfg_sanitize s) (thread_id s) n (abstract M ns s) r b \<and>
      models t (if r = NULL then b else b\<lparr>memory := (memory b)(r \<mapsto> replicate (unat n) v)\<rparr>)))
    (\<lambda>h. h = Aborted)"
  unfolding sn_malloc_pre_initialized_def
proof (rule ends_bnd [OF malloc_refines [OF assms]], elim conjE exE)
  fix r t b
  assume k: "keeps_locks {} s t" and m: "models t b"
    and spec: "malloc_spec (cfg_sanitize s) (thread_id s) n (abstract M ns s) r b"
  let ?Q = "\<lambda>r t. keeps_locks {} s t \<and>
    (\<exists>b. malloc_spec (cfg_sanitize s) (thread_id s) n (abstract M ns s) r b \<and>
      models t (if r = NULL then b else b\<lparr>memory := (memory b)(r \<mapsto> replicate (unat n) v)\<rparr>))"
  show "ends (if r = NULL then ret r else bnd (c_memset r v n) (\<lambda>_. ret r)) t ?Q (\<lambda>h. h = Aborted)"
  proof (cases "r = NULL")
    case True
    then show ?thesis using k m spec by auto
  next
    case False
    obtain bs where bs: "b = with_block r bs n n (thread_id s) (abstract M ns s)" "length bs = unat n" "n \<noteq> 0"
      using malloc_spec_block [OF spec False] by blast
    obtain L' M' ns' where t: "sn_ok t L' M' ns'" "b = abstract M' ns' t" using m by (auto simp: models_def)
    have b: "blocks t r = Some bs" using bs(1) t(2) by (simp add: abstract_def with_block_def)
    let ?t = "t\<lparr>blocks := (blocks t)(r \<mapsto> replicate (unat n) v)\<rparr>"
    have "sn_ok ?t L' M' ns'" using b by (intro sn_ok_blocks [OF t(1)]) auto
    then have "models ?t (b\<lparr>memory := (memory b)(r \<mapsto> replicate (unat n) v)\<rparr>)"
      by (rule models_keeps) (simp add: t(2) abstract_def)
    moreover have "keeps_locks {} s ?t" using k by (simp add: keeps_locks_def released_def)
    moreover have "c_memset r v n t = Done () ?t" using b bs(2,3) by (simp add: c_memset_def)
    ultimately show ?thesis using False spec by (auto simp: ends_def ret_def)
  qed
qed

lemma do_auto_free_eq:
  assumes "sn_ok s L M ns"
  shows "runs (sn_do_auto_free_at_exit v) s (\<lambda>_ t. doFree t = v \<and> settled {} s (s\<lparr>doFree := v\<rparr>) t)"
proof -
  note D = sn_okD [OF assms]
  have "settled {} s (s\<lparr>doFree := v\<rparr>) (unlocked (alloc_mutex s) (s\<lparr>doFree := v\<rparr>))"
    using D(7) by (intro settled_after_lock) simp_all
  moreover have "(locked (alloc_mutex s) s)\<lparr>doFree := v\<rparr> = locked (alloc_mutex s) (s\<lparr>doFree := v\<rparr>)"
    by (simp add: locked_def)
  ultimately show ?thesis using D(7)
    by (simp add: sn_do_auto_free_at_exit_def plat_mutex_lock_ready plat_mutex_unlock_ready ready_with_mutex
        runs_def)
qed

section \<open>Shared by the calls that look a block up\<close>

text \<open>\<open>looked_up a p\<close>: the abstract state after a lookup of \<open>p\<close> that only sets an error.\<close>

definition looked_up :: "ptr \<Rightarrow> sn_state \<Rightarrow> sn_state" where
  "looked_up p a = (if find_block p (registry a) = None then failed SN_ERR_NO_ADDER_FOUND a else a)"

lemma reads_models_error:
  assumes "sn_ok s L M ns" "reads A e s L M ns t L' M'"
    and "b = (abstract M ns s)\<lparr>last_error := e\<rparr>"
  shows "models t b"
  using reads_models [OF assms(1,2)] assms(3) by simp

lemma abstract_same_error: "(abstract M ns s)\<lparr>last_error := error_code s\<rparr> = abstract M ns s"
  by (simp add: abstract_def)

lemma error_after:
  assumes ok: "sn_ok s L M ns" and r: "reads A e0 s L M ns t L' M'"
  shows "runs (sn_error e v) t (\<lambda>r u. r = v \<and> keeps_locks A s u \<and> models u (failed e (abstract M ns s)))"
proof (rule runs_mono [OF reads_error [OF readsD(1) [OF r]]], elim conjE, intro conjI)
  fix u assume u: "reads {} (err_code e) t L' M' ns u L' M'"
  have r': "reads A (err_code e) s L M ns u L' M'" using reads_trans [OF r u] by simp
  show "keeps_locks A s u" by (rule reads_keeps [OF r'])
  show "models u (failed e (abstract M ns s))" by (rule reads_models_error [OF ok r']) (simp add: failed_def)
qed

text \<open>Writing a field of the manager that the invariant does not mention.\<close>

lemma manager_update_runs:
  assumes ok: "sn_ok s L M ns" and f: "m_cache_list (f M) = m_cache_list M" "m_mutex_ref (f M) = m_mutex_ref M"
  shows "runs (bnd (gets memory_manager) (\<lambda>m. upd_manager m f)) s (\<lambda>_ t. keeps_locks {} s t \<and>
    sn_ok t L (f M) ns \<and> t = s\<lparr>managers := (managers s)(memory_manager s \<mapsto> f M)\<rparr>)"
proof -
  let ?t = "s\<lparr>managers := (managers s)(memory_manager s \<mapsto> f M)\<rparr>"
  note D = sn_okD [OF ok]
  have "split_ok ?t" using D(6) by (rule split_ok_cong) (use D(8) in auto)
  then have "sn_ok ?t L (f M) ns" using f by (intro sn_ok_cong [OF ok]) simp_all
  then show ?thesis using D(8) by (simp add: runs_def keeps_locks_def released_def)
qed

end
