(* ===== verification/SN_Cache.thy ===== *)
theory SN_Cache
  imports SN_Allocator
begin

text \<open>
  \<open>sn_cache.c\<close>: the public calls that steer the lookup cache.
\<close>

definition sn_request_to_fast_cache :: "ptr \<Rightarrow> bool lib" where
  "sn_request_to_fast_cache ptr =
     (if ptr = NULL then sn_error SN_ERR_NULL_PTR False
      else
        bnd (gets mem_list) (\<lambda>l.
        bnd (linked_list_getByPtr l ptr) (\<lambda>entry.
        if entry = NULL then sn_error SN_ERR_NO_ADDER_FOUND False
        else
          bnd (gets memory_manager) (\<lambda>m.
          bnd (memman_tryCachePut m entry) (\<lambda>r.
          ret r)))))"

definition sn_lock_fast_cache :: "unit lib" where
  "sn_lock_fast_cache = bnd (gets memory_manager) (\<lambda>m. upd_manager m (\<lambda>M. M\<lparr>m_cache_lock := True\<rparr>))"

definition sn_unlock_fast_cache :: "unit lib" where
  "sn_unlock_fast_cache = bnd (gets memory_manager) (\<lambda>m. upd_manager m (\<lambda>M. M\<lparr>m_cache_lock := False\<rparr>))"

definition sn_do_fast_caching :: "bool \<Rightarrow> unit lib" where
  "sn_do_fast_caching val = bnd (gets memory_manager) (\<lambda>m. upd_manager m (\<lambda>M. M\<lparr>m_use_cache := val\<rparr>))"

definition sn_fast_cache_clear :: "unit lib" where
  "sn_fast_cache_clear = bnd (gets memory_manager) memman_cacheClear"

lemmas run_cache [run] =
  sn_request_to_fast_cache_def sn_lock_fast_cache_def sn_unlock_fast_cache_def
  sn_do_fast_caching_def sn_fast_cache_clear_def

section \<open>The cache switches\<close>

lemma lock_fast_cache_runs:
  assumes "sn_ok s L M ns"
  shows "runs sn_lock_fast_cache s (\<lambda>_ t. keeps_locks {} s t \<and> sn_ok t L (M\<lparr>m_cache_lock := True\<rparr>) ns \<and>
      models t (abstract M ns s))"
    "runs sn_unlock_fast_cache s (\<lambda>_ t. keeps_locks {} s t \<and> sn_ok t L (M\<lparr>m_cache_lock := False\<rparr>) ns \<and>
      models t (abstract M ns s))"
    "runs (sn_do_fast_caching v) s (\<lambda>_ t. keeps_locks {} s t \<and> sn_ok t L (M\<lparr>m_use_cache := v\<rparr>) ns \<and>
      models t (abstract M ns s))"
  unfolding sn_lock_fast_cache_def sn_unlock_fast_cache_def sn_do_fast_caching_def
  by (rule runs_mono [OF manager_update_runs [OF assms]], simp, simp,
      fastforce simp: abstract_def intro!: models_keeps)+

lemma fast_cache_clear_runs:
  assumes ok: "sn_ok s L M ns"
  shows "runs sn_fast_cache_clear s (\<lambda>_ t. keeps_locks {} s t \<and> models t (abstract M ns s) \<and>
    (\<exists>M'. sn_ok t L M' ns \<and> (\<forall>c \<in> set (m_cache_list M'). cp_key c = NULL)))"
proof -
  let ?P = "\<lambda>c. cp_key c \<noteq> NULL"
  have none: "\<forall>c \<in> set (m_cache_list (emptied ?P M)). cp_key c = NULL"
    by (auto simp: dropped_pairs_def zero_pair_def)
  obtain t where run: "memman_cacheClear (memory_manager s) s = Done () t"
    and r: "reads {} (error_code s) s L M ns t L (emptied ?P M)"
    using reads_cacheClear [OF ok] by (auto simp: runs_def)
  have "models t (abstract M ns s)" by (rule reads_models_error [OF ok r]) (simp add: abstract_same_error)
  then show ?thesis using run reads_keeps [OF r] readsD(1) [OF r] none
    by (auto simp: sn_fast_cache_clear_def runs_def simp del: emptied_fields)
qed

text \<open>Asking for a block to be cached: with a free slot the call answers whether the cache is
  open; when the counter says there is room and there is none, the program ends.\<close>

lemma request_runs:
  assumes ok: "sn_ok s L M ns" and p: "p \<noteq> NULL"
    and room: "m_cache_lock M \<or> \<not> m_use_cache M \<or> m_available_cache_slots M = 0 \<or>
      (\<exists>c \<in> set (m_cache_list M). free_slot c)"
  shows "runs (sn_request_to_fast_cache p) s (\<lambda>r t. keeps_locks (leaks L ns) s t \<and>
    models t (looked_up p (abstract M ns s)) \<and>
    (r \<longleftrightarrow> find_block p (registry (abstract M ns s)) \<noteq> None \<and>
       \<not> m_cache_lock M \<and> m_use_cache M \<and> m_available_cache_slots M \<noteq> 0))"
proof -
  let ?q = "lookup (\<lambda>e. e_data e = p) (nodes s) ns" and ?a = "abstract M ns s"
  obtain s1 L1 where g: "linked_list_getByPtr (mem_list s) p s = Done ?q s1"
    and r1: "reads (leaks L ns) (error_code s) s L M ns s1 L1 M"
    using reads_getByPtr [OF ok p] by (auto simp: runs_def)
  have find: "(find_block p (registry ?a) = None) = (?q = NULL)"
    using find_block_lookup [OF list_okD(5) [OF sn_okD(1) [OF ok]], of p "nodes s"]
    by (simp add: Let_def registry_abstract)
  show ?thesis
  proof (cases "?q = NULL")
    case True
    then show ?thesis using g p find error_after [OF ok r1, of SN_ERR_NO_ADDER_FOUND False]
      by (auto simp: sn_request_to_fast_cache_def runs_def looked_up_def)
  next
    case False
    obtain s2 M2 where t: "memman_tryCachePut (memory_manager s1) ?q s1 =
        Done (\<not> m_cache_lock M \<and> m_use_cache M \<and> m_available_cache_slots M \<noteq> 0) s2"
      and r2: "reads {} (error_code s1) s1 L1 M ns s2 L1 M2"
      using reads_tryCachePut [OF readsD(1) [OF r1] _ room, of ?q] lookup_in [OF False] by (auto simp: runs_def)
    have "reads (leaks L ns) (error_code s) s L M ns s2 L1 M2"
      using reads_trans [OF r1 r2] readsD(3) [OF r1] by simp
    then have "models s2 ?a" "keeps_locks (leaks L ns) s s2"
      using ok by (auto simp: abstract_same_error intro: reads_keeps reads_models_error)
    moreover have "sn_request_to_fast_cache p s =
        Done (\<not> m_cache_lock M \<and> m_use_cache M \<and> m_available_cache_slots M \<noteq> 0) s2"
      using g t False p by (simp add: sn_request_to_fast_cache_def ret_def bnd_def gets_def)
    ultimately show ?thesis using False find by (auto simp: runs_def looked_up_def)
  qed
qed

lemma request_crashes:
  assumes ok: "sn_ok s L M ns" and p: "p \<noteq> NULL" "find_block p (registry (abstract M ns s)) \<noteq> None"
    and full: "\<not> m_cache_lock M" "m_use_cache M" "m_available_cache_slots M \<noteq> 0"
      "\<forall>c \<in> set (m_cache_list M). \<not> free_slot c"
  shows "\<exists>t. sn_request_to_fast_cache p s = Halt (Exited 185) t \<and> models t (abstract M ns s)"
proof -
  let ?q = "lookup (\<lambda>e. e_data e = p) (nodes s) ns"
  obtain s1 L1 where g: "linked_list_getByPtr (mem_list s) p s = Done ?q s1"
    and r1: "reads (leaks L ns) (error_code s) s L M ns s1 L1 M"
    using reads_getByPtr [OF ok p(1)] by (auto simp: runs_def)
  have q: "?q \<noteq> NULL"
    using p(2) find_block_lookup [OF list_okD(5) [OF sn_okD(1) [OF ok]], of p "nodes s"]
    by (simp add: Let_def registry_abstract split: if_splits)
  note D = sn_okD [OF readsD(1) [OF r1]]
  obtain e where e: "nodes s1 ?q = Some e" using list_ok_node [OF D(1)] lookup_in [OF q] by blast
  have "memman_tryCachePut (memory_manager s1) ?q s1 = Halt (Exited 185) (locked (m_mutex_ref M) s1)"
    using tryCachePut_eq [OF D(3) _ e] D(5) full by (simp add: cache_ok_def)
  moreover have "models (locked (m_mutex_ref M) s1) (abstract M ns s)"
  proof (rule models_lockeq)
    show "lockeq s1 (locked (m_mutex_ref M) s1)" using D(4,7) by auto
    show "models s1 (abstract M ns s)" using reads_models [OF ok r1] by (simp add: abstract_same_error)
  qed
  ultimately show ?thesis using g q p(1) by (simp add: sn_request_to_fast_cache_def bnd_def gets_def)
qed

end
