(* ===== verification/SN_Metadata.thy ===== *)
theory SN_Metadata
  imports SN_Cache
begin

unbundle bit_operations_syntax

text \<open>
  \<open>sn_metadata.c\<close>: registration, queries, block ids, the checksum and the traversal with a
  user callback. Most of these calls run the cache pass first, look the block up in the
  cache, and fall back to the list; in that fallback the error macro is the unbraced body
  of an \<open>if\<close>, so the function returns its failure value whether or not the list had the
  block.
\<close>

section \<open>Registration and lookups\<close>

definition do_work :: "unit lib" where
  "do_work = bnd (gets memory_manager) (\<lambda>m. bnd (gets mem_list) (\<lambda>l. memman_work m l))"

text \<open>
  The lookup all the cache-first calls share: on a hit continue with the entry; on a miss
  search the list, set the error if that fails too, and return \<open>v\<close> in either case.
\<close>

definition cached_or_return :: "ptr \<Rightarrow> 'a \<Rightarrow> (ptr \<Rightarrow> 'a lib) \<Rightarrow> 'a lib" where
  "cached_or_return ptr v rest =
     bnd (gets memory_manager) (\<lambda>m.
     bnd (memman_TryCacheHit m ptr) (\<lambda>entry.
     if entry = MEMMAN_CACHE_MISS then
       bnd (gets mem_list) (\<lambda>l.
       bnd (linked_list_getByPtr l ptr) (\<lambda>entry.
       sn_error_unbraced (entry = NULL) SN_ERR_NO_ADDER_FOUND v))
     else rest entry))"

definition sn_register :: "ptr \<Rightarrow> ptr lib" where
  "sn_register ptr =
     bnd do_work (\<lambda>_.
     bnd (gets mem_list) (\<lambda>l.
     bnd plat_getTid (\<lambda>tid.
     bnd (linked_list_push l ptr 0 tid) (\<lambda>_.
     ret ptr))))"

definition sn_query_size :: "ptr \<Rightarrow> size_t lib" where
  "sn_query_size ptr =
     bnd do_work (\<lambda>_.
     if ptr = NULL then sn_error SN_ERR_NULL_PTR 0
     else
       bnd (gets mem_list) (\<lambda>l.
       bnd (linked_list_getByPtr l ptr) (\<lambda>entry.
       if entry = NULL then sn_error SN_ERR_NO_ADDER_FOUND 0
       else linked_list_entry_getSize entry)))"

text \<open>The inline helper of the header; a zero \<open>block_size\<close> is a division by zero.\<close>

definition sn_query_size_in_block_size :: "ptr \<Rightarrow> size_t \<Rightarrow> size_t lib" where
  "sn_query_size_in_block_size ptr block_size =
     bnd (sn_query_size ptr) (\<lambda>raw_size.
     if raw_size = 0 then ret 0
     else if block_size = 0 then halt UB
     else ret (raw_size div block_size))"

definition sn_query_tid :: "ptr \<Rightarrow> tid_t lib" where
  "sn_query_tid ptr =
     bnd do_work (\<lambda>_.
     if ptr = NULL then sn_error SN_ERR_NULL_PTR 0
     else cached_or_return ptr 0 linked_list_entry_getTid)"

definition sn_register_size :: "ptr \<Rightarrow> size_t \<Rightarrow> ptr lib" where
  "sn_register_size ptr sz =
     bnd do_work (\<lambda>_.
     if ptr = NULL then sn_error SN_ERR_NULL_PTR NULL
     else if sz = 0 then sn_error SN_ERR_BAD_SIZE NULL
     else
       bnd (gets mem_list) (\<lambda>l.
       bnd (linked_list_hasPtr l ptr) (\<lambda>has.
       if has then ret ptr
       else
         bnd plat_getTid (\<lambda>tid.
         bnd (linked_list_push l ptr sz tid) (\<lambda>_.
         ret ptr)))))"

definition sn_is_tracked_block :: "ptr \<Rightarrow> bool lib" where
  "sn_is_tracked_block ptr =
     bnd do_work (\<lambda>_.
     if ptr = NULL then sn_error SN_ERR_NULL_PTR False
     else
       bnd (gets memory_manager) (\<lambda>m.
       bnd (memman_TryCacheHit m ptr) (\<lambda>r.
       let not_has_entry = (r = MEMMAN_CACHE_MISS) in
       if not_has_entry then ret not_has_entry
       else bnd (gets mem_list) (\<lambda>l. linked_list_hasPtr l ptr))))"

definition sn_set_block_id :: "ptr \<Rightarrow> block_id_t \<Rightarrow> unit lib" where
  "sn_set_block_id block bid =
     bnd do_work (\<lambda>_.
     if block = NULL then sn_error SN_ERR_NULL_PTR ()
     else if bid \<le> 20 then sn_error SN_ERR_BAD_BLOCK_ID ()
     else cached_or_return block () (\<lambda>entry. linked_list_entry_setBlockId entry bid))"

definition sn_get_block_id :: "ptr \<Rightarrow> block_id_t lib" where
  "sn_get_block_id block =
     bnd do_work (\<lambda>_.
     if block = NULL then sn_error SN_ERR_NULL_PTR 0
     else cached_or_return block 0 linked_list_entry_getBlockId)"

definition sn_query_block_id :: "block_id_t \<Rightarrow> ptr lib" where
  "sn_query_block_id bid =
     bnd do_work (\<lambda>_.
     if bid = 0 then sn_error SN_ERR_BAD_BLOCK_ID NULL
     else
       bnd (gets memory_manager) (\<lambda>m.
       bnd (memman_TryCacheHitById m bid) (\<lambda>entry.
       if entry = MEMMAN_CACHE_MISS then
         bnd (gets mem_list) (\<lambda>l.
         bnd (linked_list_getById l bid) (\<lambda>entry.
         sn_error_unbraced (entry = NULL) SN_ERR_NO_ADDER_FOUND NULL))
       else linked_list_entry_getData entry)))"

text \<open>The view handed out is the address of the entry's \<open>data\<close> field, at offset 8.\<close>

definition metadata_offset :: ptr where "metadata_offset = 8"

definition sn_query_metadata :: "ptr \<Rightarrow> ptr lib" where
  "sn_query_metadata ptr =
     bnd do_work (\<lambda>_.
     if ptr = NULL then sn_error SN_ERR_NULL_PTR NULL
     else cached_or_return ptr NULL (\<lambda>entry. ret (entry + metadata_offset)))"

section \<open>The copied view\<close>

text \<open>
  \<open>sn_mem_metadata_t\<close> and the 32 bytes of an entry it overlays: the fields from \<open>data\<close> to
  \<open>_weight\<close> in little-endian order, with the padding the constructor zeroed.
\<close>

record sn_mem_metadata_t =
  md_data :: ptr
  md_size :: size_t
  md_tid :: tid_t
  md_cached :: bool
  md_block_id :: block_id_t

definition le_bytes :: "nat \<Rightarrow> 'a::len word \<Rightarrow> byte list" where
  "le_bytes n w = map (\<lambda>i. ucast (drop_bit (8 * i) w)) [0..<n]"

definition bool_byte :: "bool \<Rightarrow> byte" where
  "bool_byte b = (if b then 1 else 0)"

definition metadata_bytes :: "linked_list_entry_t \<Rightarrow> byte list" where
  "metadata_bytes e =
     le_bytes 8 (e_data e) @ le_bytes 8 (e_size e) @ le_bytes 8 (e_tid e) @
     [bool_byte (e_cached e), 0] @ le_bytes 2 (e_block_id e) @
     [bool_byte (e_isHead e), e_weight e, 0, 0]"

text \<open>\<open>memcpy(dst, view, 32)\<close> from a view of an entry into a raw block.\<close>

definition memcpy_metadata :: "ptr \<Rightarrow> ptr \<Rightarrow> unit lib" where
  "memcpy_metadata dst view =
     bnd (load_node (view - metadata_offset)) (\<lambda>e s.
     case blocks s dst of
       Some bs \<Rightarrow>
         (if unat sizeof_sn_mem_metadata_t \<le> length bs
          then Done () (s\<lparr>blocks := (blocks s)(dst \<mapsto>
                 metadata_bytes e @ drop (unat sizeof_sn_mem_metadata_t) bs)\<rparr>)
          else Halt UB s)
     | None \<Rightarrow> Halt UB s)"

definition sn_query_static_metadata :: "ptr \<Rightarrow> ptr lib" where
  "sn_query_static_metadata ptr =
     bnd do_work (\<lambda>_.
     bnd (sn_query_metadata ptr) (\<lambda>mem_metadata.
     if mem_metadata = NULL then ret NULL
     else
       bnd (sn_malloc sizeof_sn_mem_metadata_t) (\<lambda>copy.
       if copy = NULL then ret NULL
       else
         bnd (memcpy_metadata copy mem_metadata) (\<lambda>_.
         ret copy))))"

section \<open>Limits and totals\<close>

definition sn_set_alloc_limit :: "size_t \<Rightarrow> unit lib" where
  "sn_set_alloc_limit limit =
     bnd (gets memory_manager) (\<lambda>m. upd_manager m (\<lambda>M. M\<lparr>m_alloc_limit := limit\<rparr>))"

text \<open>The callback's argument: the thread asked for and the running total.\<close>

type_synonym pri_tid_size_t = "tid_t \<times> size_t"

definition search_for_tid :: "pri_tid_size_t worker" where
  "search_for_tid self ctx index arg =
     bnd (load_node ctx) (\<lambda>e.
     ret (NULL, if e_tid e = fst arg then (fst arg, snd arg + e_size e) else arg))"

definition sn_query_thread_memory_usage :: "tid_t \<Rightarrow> size_t lib" where
  "sn_query_thread_memory_usage tid =
     bnd do_work (\<lambda>_.
     bnd (gets mem_list) (\<lambda>l.
     bnd (linked_list_forEach l search_for_tid (tid, 0)) (\<lambda>(_, arg).
     ret (snd arg))))"

definition sn_query_total_memory_usage :: "size_t lib" where
  "sn_query_total_memory_usage =
     bnd (gets memory_manager) (\<lambda>m. bnd (load_manager m) (\<lambda>M. ret (m_global_memory_usage M)))"

section \<open>The checksum\<close>

text \<open>One step of the loop. The operands are bytes promoted to \<open>int\<close>; the counter
  contributes its lowest byte (little-endian).\<close>

definition checksum_term :: "byte \<Rightarrow> byte \<Rightarrow> byte \<Rightarrow> size_t \<Rightarrow> byte \<Rightarrow> int" where
  "checksum_term mixer mid_value last_value i d =
     (uint (d XOR mixer) + uint mid_value) * uint last_value + uint (ucast i :: byte)"

primrec checksum_loop :: "byte \<Rightarrow> byte \<Rightarrow> byte \<Rightarrow> byte list \<Rightarrow> size_t \<Rightarrow> 64 word \<Rightarrow> 64 word" where
  "checksum_loop mixer mid_value last_value [] i acc = acc"
| "checksum_loop mixer mid_value last_value (d # ds) i acc =
     checksum_loop mixer mid_value last_value ds (i + 1) (word_of_int (checksum_term mixer mid_value last_value i d) XOR acc)"

definition checksum_bytes :: "byte list \<Rightarrow> 64 word" where
  "checksum_bytes data =
     (let n = length data;
          first_value = data ! 0;
          last_value = data ! (n - 1);
          mid_value = data ! (n div 2);
          mixer = NOT (first_value XOR last_value) XOR mid_value
      in checksum_loop mixer mid_value last_value data 0 0)"

text \<open>Reading \<open>n\<close> bytes at a raw block.\<close>

definition read_bytes :: "ptr \<Rightarrow> size_t \<Rightarrow> byte list lib" where
  "read_bytes p n s = (case blocks s p of
     Some bs \<Rightarrow> (if unat n \<le> length bs then Done (take (unat n) bs) s else Halt UB s)
   | None \<Rightarrow> Halt UB s)"

definition sn_calculate_checksum :: "ptr \<Rightarrow> 64 word lib" where
  "sn_calculate_checksum block =
     bnd do_work (\<lambda>_.
     if block = NULL then sn_error SN_ERR_NULL_PTR 0
     else cached_or_return block 0 (\<lambda>entry.
       bnd (linked_list_entry_getSize entry) (\<lambda>n.
       bnd (load_node entry) (\<lambda>e.
       if e_size e = 0 then sn_error SN_ERR_BAD_SIZE 0
       else if n = 1 then bnd (read_bytes block 1) (\<lambda>data. ret (ucast (data ! 0 XOR 255)))
       else bnd (read_bytes block n) (\<lambda>data. ret (checksum_bytes data))))))"

section \<open>Traversal with a user callback\<close>

text \<open>
  The callback gets the view of each entry, its index and a generic pointer. The pointer it
  gets is \<open>frame\<close>, the address of the library's own bookkeeping struct on the stack, not the
  caller's argument, which the struct holds and nothing reads. The struct is passed through the
  traversal by value and result, with the local \<open>out\<close> it points at as its field.
\<close>

type_synonym sn_metadata_for_each_worker_f = "ptr \<Rightarrow> size_t \<Rightarrow> ptr \<Rightarrow> ptr lib"

record sn_mem_metadata_for_each_data_t =
  fe_real_generic_arg :: ptr
  fe_worker :: sn_metadata_for_each_worker_f
  fe_out :: ptr

definition mem_metadata_for_each :: "ptr \<Rightarrow> sn_mem_metadata_for_each_data_t worker" where
  "mem_metadata_for_each generic_arg self ctx index real_arg =
     bnd (fe_worker real_arg (ctx + metadata_offset) index generic_arg) (\<lambda>rt.
     if rt \<noteq> NULL then ret (LIST_FOR_EACH_LOOP_BRAKE, real_arg\<lparr>fe_out := rt\<rparr>) else ret (NULL, real_arg))"

definition sn_mem_metadata_for_each :: "sn_metadata_for_each_worker_f \<Rightarrow> ptr \<Rightarrow> ptr \<Rightarrow> ptr lib" where
  "sn_mem_metadata_for_each worker generic_arg frame =
     bnd (gets mem_list) (\<lambda>l.
     bnd (linked_list_forEach l (mem_metadata_for_each frame)
       \<lparr>fe_real_generic_arg = generic_arg, fe_worker = worker, fe_out = NULL\<rparr>) (\<lambda>(temp, data).
     if temp = LIST_FOR_EACH_LOOP_BRAKE then ret (fe_out data) else ret NULL))"

lemmas run_metadata [run] =
  do_work_def cached_or_return_def sn_register_def sn_query_size_def sn_query_size_in_block_size_def
  sn_query_tid_def
  sn_register_size_def sn_is_tracked_block_def sn_set_block_id_def sn_get_block_id_def
  sn_query_block_id_def metadata_offset_def sn_query_metadata_def memcpy_metadata_def
  sn_query_static_metadata_def sn_set_alloc_limit_def search_for_tid_def
  sn_query_thread_memory_usage_def sn_query_total_memory_usage_def read_bytes_def
  sn_calculate_checksum_def mem_metadata_for_each_def sn_mem_metadata_for_each_def

section \<open>The lookup behind the queries\<close>

text \<open>The state every query works on: the caching pass has run.\<close>

lemma do_work_runs:
  assumes "sn_ok s L M ns"
  shows "runs do_work s (\<lambda>_ t. reads (leaks L ns) (error_code s) s L M ns t L (worked_manager M ns s))"
  using reads_work [OF assms] by (simp add: do_work_def runs_def)

text \<open>
  The cache-first lookup: on a hit the rest runs on the cached entry; on a miss the failure
  value is returned, and the error is set exactly when the block is not in the list either.
\<close>

lemma cached_or_return_hit:
  assumes ok: "sn_ok s L M ns" and hit: "cached_entry M p \<noteq> MEMMAN_CACHE_MISS"
  shows "\<exists>t. reads {} (error_code s) s L M ns t L M \<and>
    cached_or_return p v rest s = rest (cached_entry M p) t"
proof -
  obtain t where "memman_TryCacheHit (memory_manager s) p s = Done (cached_entry M p) t"
    and "reads {} (error_code s) s L M ns t L M"
    using reads_TryCacheHit [OF ok, of p] by (auto simp: runs_def)
  then show ?thesis using hit by (auto simp: cached_or_return_def)
qed

lemma cached_or_return_miss:
  assumes ok: "sn_ok s L M ns" and miss: "cached_entry M p = MEMMAN_CACHE_MISS" and p: "p \<noteq> NULL"
  shows "runs (cached_or_return p v rest) s (\<lambda>r t. r = v \<and>
    (\<exists>L'. reads (leaks L ns) (if find_block p (blocks_of (nodes s) ns) = None
       then err_code SN_ERR_NO_ADDER_FOUND else error_code s) s L M ns t L' M))"
proof -
  obtain s1 where c: "memman_TryCacheHit (memory_manager s) p s = Done MEMMAN_CACHE_MISS s1"
    and r1: "reads {} (error_code s) s L M ns s1 L M"
    using reads_TryCacheHit [OF ok, of p] miss by (auto simp: runs_def)
  let ?q = "lookup (\<lambda>e. e_data e = p) (nodes s) ns"
  have q: "lookup (\<lambda>e. e_data e = p) (nodes s1) ns = ?q"
    using lookup_cores [OF readsD(2) [OF r1] sn_ok_dom [OF ok]] .
  obtain s2 L2 where g: "linked_list_getByPtr (mem_list s) p s1 = Done ?q s2"
    and r2: "reads (leaks L ns) (error_code s1) s1 L M ns s2 L2 M"
    using reads_getByPtr [OF readsD(1) [OF r1] p] q readsD(11) [OF r1] by (auto simp: runs_def)
  have r12: "reads (leaks L ns) (error_code s) s L M ns s2 L2 M"
    using reads_trans [OF r1 r2] readsD(3) [OF r1] by simp
  have find: "(find_block p (blocks_of (nodes s) ns) = None) = (?q = NULL)"
    using find_block_lookup [OF list_okD(5) [OF sn_okD(1) [OF ok]], of p "nodes s"] by (simp add: Let_def)
  have run: "cached_or_return p v rest s = sn_error_unbraced (?q = NULL) SN_ERR_NO_ADDER_FOUND v s2"
    using c g by (simp add: cached_or_return_def readsD(11) [OF r1])
  show ?thesis
  proof (cases "?q = NULL")
    case False
    then show ?thesis using run r12 find by (auto simp: runs_def sn_error_unbraced_def ret_def)
  next
    case True
    obtain t where "sn_error SN_ERR_NO_ADDER_FOUND v s2 = Done v t"
      and r3: "reads {} (err_code SN_ERR_NO_ADDER_FOUND) s2 L2 M ns t L2 M"
      using reads_error [OF readsD(1) [OF r12], of SN_ERR_NO_ADDER_FOUND v] by (auto simp: runs_def)
    then have "cached_or_return p v rest s = Done v t" using run True
      by (simp add: sn_error_unbraced_def sn_error_def)
    then show ?thesis using reads_trans [OF r12 r3] True find by (auto simp: runs_def)
  qed
qed

text \<open>What the lookup yields on a hit: the entry of the tracked block, which is in the registry.\<close>

lemma cached_entry_block:
  assumes ok: "sn_ok s L M ns" and dist: "distinct (map tb_data (blocks_of (nodes s) ns))"
    and hit: "cached_entry M p \<noteq> MEMMAN_CACHE_MISS"
  shows "\<exists>e. nodes s (cached_entry M p) = Some e \<and> e_data e = p \<and>
    find_block p (blocks_of (nodes s) ns) = Some (block_of e)"
proof -
  obtain e where e: "nodes s (cached_entry M p) = Some e" "e_data e = p"
    using cached_entry_hit [OF sn_okD(5) [OF ok] hit] by blast
  have "lookup (\<lambda>e. e_data e = p) (nodes s) ns = cached_entry M p" by (rule cached_is_lookup [OF ok dist hit])
  then show ?thesis
    using e hit find_block_lookup [OF list_okD(5) [OF sn_okD(1) [OF ok]], of p "nodes s"]
    by (simp add: Let_def MEMMAN_CACHE_MISS_def)
qed

section \<open>Queries\<close>

definition query_cached :: "machine \<Rightarrow> alloc_manager_t \<Rightarrow> ptr list \<Rightarrow> ptr \<Rightarrow> bool" where
  "query_cached s M ns p \<longleftrightarrow> cached_entry (worked_manager M ns s) p \<noteq> MEMMAN_CACHE_MISS"

text \<open>\<open>sn_query_size\<close> searches the list.\<close>

lemma query_size_runs:
  assumes ok: "sn_ok s L M ns" and p: "p \<noteq> NULL"
  shows "runs (sn_query_size p) s (\<lambda>r t. keeps_locks (leaks L ns) s t \<and>
    r = (case find_block p (registry (abstract M ns s)) of None \<Rightarrow> 0 | Some b \<Rightarrow> tb_size b) \<and>
    models t (looked_up p (abstract M ns s)))"
proof -
  obtain s1 where w: "do_work s = Done () s1"
    and r1: "reads (leaks L ns) (error_code s) s L M ns s1 L (worked_manager M ns s)"
    using do_work_runs [OF ok] by (auto simp: runs_def)
  let ?q = "lookup (\<lambda>e. e_data e = p) (nodes s) ns"
  have q: "lookup (\<lambda>e. e_data e = p) (nodes s1) ns = ?q"
    using lookup_cores [OF readsD(2) [OF r1] sn_ok_dom [OF ok]] .
  obtain s2 L2 where g: "linked_list_getByPtr (mem_list s) p s1 = Done ?q s2"
    and r2: "reads (leaks L ns) (error_code s1) s1 L (worked_manager M ns s) ns s2 L2 (worked_manager M ns s)"
    using reads_getByPtr [OF readsD(1) [OF r1] p] q readsD(11) [OF r1] by (auto simp: runs_def)
  have r12: "reads (leaks L ns) (error_code s) s L M ns s2 L2 (worked_manager M ns s)"
    using reads_trans [OF r1 r2] readsD(3) [OF r1] by simp
  have find: "find_block p (registry (abstract M ns s)) = (if ?q = NULL then None else Some (block_of (the (nodes s ?q))))"
    using find_block_lookup [OF list_okD(5) [OF sn_okD(1) [OF ok]], of p "nodes s"]
    by (simp add: Let_def registry_abstract)
  show ?thesis
  proof (cases "?q = NULL")
    case True
    obtain t where "sn_error SN_ERR_NO_ADDER_FOUND 0 s2 = Done (0 :: size_t) t"
      and r3: "reads {} (err_code SN_ERR_NO_ADDER_FOUND) s2 L2 (worked_manager M ns s) ns t L2 (worked_manager M ns s)"
      using reads_error [OF readsD(1) [OF r12], of SN_ERR_NO_ADDER_FOUND "0 :: size_t"] by (auto simp: runs_def)
    then have "sn_query_size p s = Done 0 t" using w g True p readsD(11) [OF r1] by (simp add: sn_query_size_def)
    then show ?thesis using reads_trans [OF r12 r3] True find ok
      by (auto simp: runs_def looked_up_def failed_def intro: reads_keeps reads_models_error)
  next
    case False
    have q_ns: "?q \<in> set ns" using lookup_in [OF False] by blast
    obtain e where e: "nodes s ?q = Some e" using list_ok_node [OF sn_okD(1) [OF ok] q_ns] by blast
    obtain e' where e': "nodes s2 ?q = Some e'" "core e' = core e" using cores_Some [OF readsD(2) [OF r12] e] .
    have "sn_query_size p s = Done (e_size e) s2"
      using w g False p readsD(11) [OF r1] e'(1) core_eqD(4) [OF e'(2)]
      by (simp add: sn_query_size_def linked_list_entry_getSize_def)
    then show ?thesis using r12 False find e ok
      by (auto simp: runs_def looked_up_def abstract_same_error intro: reads_keeps reads_models_error)
  qed
qed


text \<open>Getters that look in the cache first: right on a hit, the failure value on a miss.\<close>

definition cached_query :: "ptr \<Rightarrow> 'a \<Rightarrow> (ptr \<Rightarrow> 'a lib) \<Rightarrow> 'a lib" where
  "cached_query p v rest =
     bnd do_work (\<lambda>_. if p = NULL then sn_error SN_ERR_NULL_PTR v else cached_or_return p v rest)"

lemma cached_query_null:
  assumes ok: "sn_ok s L M ns"
  shows "runs (cached_query NULL v rest) s (\<lambda>r t. r = v \<and> keeps_locks (leaks L ns) s t \<and>
    models t (failed SN_ERR_NULL_PTR (abstract M ns s)))"
proof -
  obtain s1 where w: "do_work s = Done () s1"
    and r1: "reads (leaks L ns) (error_code s) s L M ns s1 L (worked_manager M ns s)"
    using do_work_runs [OF ok] by (auto simp: runs_def)
  show ?thesis using w error_after [OF ok r1, of SN_ERR_NULL_PTR v] by (simp add: runs_def cached_query_def)
qed

lemma cached_query_miss:
  assumes ok: "sn_ok s L M ns" and p: "p \<noteq> NULL" and miss: "\<not> query_cached s M ns p"
  shows "runs (cached_query p v rest) s (\<lambda>r t. r = v \<and> keeps_locks (leaks L ns) s t \<and>
    models t (looked_up p (abstract M ns s)))"
proof -
  let ?M = "worked_manager M ns s"
  obtain s1 where w: "do_work s = Done () s1"
    and r1: "reads (leaks L ns) (error_code s) s L M ns s1 L ?M"
    using do_work_runs [OF ok] by (auto simp: runs_def)
  have bs: "blocks_of (nodes s1) ns = blocks_of (nodes s) ns"
    by (rule blocks_of_cores [OF readsD(2) [OF r1] sn_ok_dom [OF ok]])
  have m: "cached_entry ?M p = MEMMAN_CACHE_MISS" using miss by (simp add: query_cached_def)
  obtain t L' where "cached_or_return p v rest s1 = Done v t" and r2: "reads (leaks L ns)
      (if find_block p (blocks_of (nodes s1) ns) = None then err_code SN_ERR_NO_ADDER_FOUND else error_code s1)
      s1 L ?M ns t L' ?M"
    using cached_or_return_miss [OF readsD(1) [OF r1] m p, of v rest] by (auto simp: runs_def)
  then show ?thesis using w p reads_trans [OF r1 r2] ok bs readsD(3) [OF r1]
    by (auto simp: runs_def cached_query_def looked_up_def failed_def registry_abstract abstract_same_error
        intro: reads_keeps reads_models_error)
qed

lemma cached_query_hit:
  assumes ok: "sn_ok s L M ns" and p: "p \<noteq> NULL" and hit: "query_cached s M ns p"
    and dist: "distinct (map tb_data (blocks_of (nodes s) ns))"
  shows "\<exists>q e t. q \<in> set ns \<and> nodes s q = Some e \<and> e_data e = p \<and>
    find_block p (registry (abstract M ns s)) = Some (block_of e) \<and>
    reads (leaks L ns) (error_code s) s L M ns t L (worked_manager M ns s) \<and>
    cached_query p v rest s = rest q t"
proof -
  let ?M = "worked_manager M ns s"
  obtain s1 where w: "do_work s = Done () s1"
    and r1: "reads (leaks L ns) (error_code s) s L M ns s1 L ?M"
    using do_work_runs [OF ok] by (auto simp: runs_def)
  have bs: "blocks_of (nodes s1) ns = blocks_of (nodes s) ns"
    by (rule blocks_of_cores [OF readsD(2) [OF r1] sn_ok_dom [OF ok]])
  let ?q = "cached_entry ?M p"
  have h: "?q \<noteq> MEMMAN_CACHE_MISS" using hit by (simp add: query_cached_def)
  obtain t where "reads {} (error_code s1) s1 L ?M ns t L ?M" and c: "cached_or_return p v rest s1 = rest ?q t"
    using cached_or_return_hit [OF readsD(1) [OF r1] h, of v rest] by blast
  then have r: "reads (leaks L ns) (error_code s) s L M ns t L ?M"
    using reads_trans [OF r1] readsD(3) [OF r1] by fastforce
  obtain e1 where e1: "nodes s1 ?q = Some e1" "e_data e1 = p" "find_block p (blocks_of (nodes s1) ns) = Some (block_of e1)"
    using cached_entry_block [OF readsD(1) [OF r1] _ h] dist bs by auto
  have q: "?q \<in> set ns" using cached_entry_hit [OF sn_okD(5) [OF readsD(1) [OF r1]] h] by blast
  obtain e where e: "nodes s ?q = Some e" using list_ok_node [OF sn_okD(1) [OF ok] q] by blast
  have "core e1 = core e" using cores_Some [OF readsD(2) [OF r1] e] e1(1) by auto
  then have "block_of e1 = block_of e" by (metis block_of_core)
  then show ?thesis using q e e1 r w c p bs
    by (intro exI [of _ ?q] exI [of _ e] exI [of _ t])
      (auto simp: cached_query_def registry_abstract dest: arg_cong [of _ _ tb_data])
qed

lemma cached_getter_runs:
  assumes ok: "sn_ok s L M ns" and p: "p \<noteq> NULL"
    and dist: "distinct (map tb_data (blocks_of (nodes s) ns))"
    and g: "\<And>e. g (block_of e) = f e"
  shows "runs (cached_query p v (entry_get d f)) s (\<lambda>r t. keeps_locks (leaks L ns) s t \<and>
    r = (if query_cached s M ns p then g (the (find_block p (registry (abstract M ns s)))) else v) \<and>
    models t (looked_up p (abstract M ns s)))"
proof (cases "query_cached s M ns p")
  case False
  then show ?thesis using cached_query_miss [OF ok p False, of v "entry_get d f"] by (auto simp: runs_def)
next
  case True
  obtain q e t where Q: "q \<in> set ns" "nodes s q = Some e" "e_data e = p"
      "find_block p (registry (abstract M ns s)) = Some (block_of e)"
      and r: "reads (leaks L ns) (error_code s) s L M ns t L (worked_manager M ns s)"
      and c: "cached_query p v (entry_get d f) s = entry_get d f q t"
    using cached_query_hit [OF ok p True dist, of v "entry_get d f"] by blast
  obtain e' where e': "nodes t q = Some e'" "core e' = core e" using cores_Some [OF readsD(2) [OF r] Q(2)] .
  have "q \<noteq> NULL" using Q(1) list_okD(5) [OF sn_okD(1) [OF ok]] by auto
  then have "cached_query p v (entry_get d f) s = Done (f e') t" using c e'(1) by simp
  moreover have "f e' = g (block_of e)" using e'(2) g by (metis block_of_core)
  ultimately show ?thesis using True Q(4) r ok
    by (auto simp: runs_def looked_up_def abstract_same_error intro: reads_keeps reads_models_error)
qed

lemma query_tid_cached: "sn_query_tid p = cached_query p 0 (entry_get 0 e_tid)"
  unfolding sn_query_tid_def cached_query_def linked_list_entry_getTid_def ..

lemma get_block_id_cached: "sn_get_block_id p = cached_query p 0 (entry_get 0 e_block_id)"
  unfolding sn_get_block_id_def cached_query_def linked_list_entry_getBlockId_def ..

lemma query_metadata_cached: "sn_query_metadata p = cached_query p NULL (\<lambda>q. ret (q + metadata_offset))"
  unfolding sn_query_metadata_def cached_query_def ..


section \<open>Block ids\<close>

definition with_id :: "ptr \<Rightarrow> block_id_t \<Rightarrow> tracked_block list \<Rightarrow> tracked_block list" where
  "with_id p i bs = map (\<lambda>b. if tb_data b = p then b\<lparr>tb_id := i\<rparr> else b) bs"

lemma set_block_id_hit:
  assumes ok: "sn_ok s L M ns" and p: "p \<noteq> NULL" and i: "20 < i" and hit: "query_cached s M ns p"
    and dist: "distinct (map tb_data (blocks_of (nodes s) ns))"
  shows "runs (sn_set_block_id p i) s (\<lambda>_ t. keeps_locks (leaks L ns) s t \<and>
    models t ((abstract M ns s)\<lparr>registry := with_id p i (registry (abstract M ns s))\<rparr>))"
proof -
  let ?set = "\<lambda>q. linked_list_entry_setBlockId q i" and ?M = "worked_manager M ns s"
  obtain q e t where Q: "q \<in> set ns" "nodes s q = Some e" "e_data e = p"
      and r: "reads (leaks L ns) (error_code s) s L M ns t L ?M"
      and c: "cached_query p () ?set s = ?set q t"
    using cached_query_hit [OF ok p hit dist, of "()" ?set] by blast
  have eq: "sn_set_block_id p i s = cached_query p () ?set s"
    using p i unfolding sn_set_block_id_def cached_query_def by (simp add: bnd_def not_le [symmetric] split: outcome.split)
  obtain e' where e': "nodes t q = Some e'" "core e' = core e" using cores_Some [OF readsD(2) [OF r] Q(2)] .
  have okt: "sn_ok t L ?M ns" by (rule readsD(1) [OF r])
  let ?e = "e'\<lparr>e_block_id := i\<rparr>"
  obtain u where run: "?set q t = Done () u" and u: "settled {} t (t\<lparr>nodes := (nodes t)(q \<mapsto> ?e)\<rparr>) u"
    using entry_set_runs [OF okt Q(1) e'(1), of "\<lambda>e. e\<lparr>e_block_id := i\<rparr>"]
    by (auto simp: runs_def linked_list_entry_setBlockId_def)
  have oku: "sn_ok u L ?M ns"
    using sn_ok_lockeq [OF settled_lockeq [OF u] sn_ok_entry [OF okt e'(1)]] by simp
  have bs: "blocks_of (nodes t) ns = blocks_of (nodes s) ns"
    by (rule blocks_of_cores [OF readsD(2) [OF r] sn_ok_dom [OF ok]])
  have "blocks_of ((nodes t)(q \<mapsto> ?e)) ns = with_id p i (blocks_of (nodes s) ns)"
    using blocks_of_entry [of "nodes t" ns q e' ?e "\<lambda>b. b\<lparr>tb_id := i\<rparr>"] dist Q(1,3) e' core_eqD(3) [OF e'(2)] bs
    by (simp add: with_id_def block_of_def)
  then have "abstract ?M ns u = (abstract M ns s)\<lparr>registry := with_id p i (registry (abstract M ns s))\<rparr>"
    using lockeq_fields(1,4,15) [OF settled_lockeq [OF u]] readsD(3,4) [OF r] by (simp add: abstract_def)
  then have "models u ((abstract M ns s)\<lparr>registry := with_id p i (registry (abstract M ns s))\<rparr>)"
    using models_keeps [OF oku] by metis
  moreover have "keeps_locks (leaks L ns) s u"
    using reads_keeps [OF r] settled_keeps [OF u] by (simp add: keeps_locks_def)
  ultimately show ?thesis using eq c run by (simp add: runs_def)
qed

lemma set_block_id_miss:
  assumes ok: "sn_ok s L M ns" and p: "p \<noteq> NULL" and i: "20 < i" and miss: "\<not> query_cached s M ns p"
  shows "runs (sn_set_block_id p i) s (\<lambda>_ t. keeps_locks (leaks L ns) s t \<and>
    models t (looked_up p (abstract M ns s)))"
proof -
  have "sn_set_block_id p i s = cached_query p () (\<lambda>q. linked_list_entry_setBlockId q i) s"
    using p i unfolding sn_set_block_id_def cached_query_def by (simp add: bnd_def not_le [symmetric] split: outcome.split)
  then show ?thesis using cached_query_miss [OF ok p miss, of "()" "\<lambda>q. linked_list_entry_setBlockId q i"]
    by (simp add: runs_def)
qed

section \<open>Is a block tracked\<close>

text \<open>The answer is yes for every pointer but null: a cache miss is reported as yes.\<close>

lemma is_tracked_runs:
  assumes ok: "sn_ok s L M ns" and p: "p \<noteq> NULL" and dist: "distinct (map tb_data (blocks_of (nodes s) ns))"
  shows "runs (sn_is_tracked_block p) s (\<lambda>r t. r \<and> keeps_locks (leaks L ns) s t \<and> models t (abstract M ns s))"
proof -
  let ?M = "worked_manager M ns s" and ?q = "lookup (\<lambda>e. e_data e = p) (nodes s) ns"
  obtain s1 where w: "do_work s = Done () s1" and r1: "reads (leaks L ns) (error_code s) s L M ns s1 L ?M"
    using do_work_runs [OF ok] by (auto simp: runs_def)
  obtain s2 where c: "memman_TryCacheHit (memory_manager s1) p s1 = Done (cached_entry ?M p) s2"
    and r2: "reads {} (error_code s1) s1 L ?M ns s2 L ?M"
    using reads_TryCacheHit [OF readsD(1) [OF r1], of p] by (auto simp: runs_def)
  have r12: "reads (leaks L ns) (error_code s) s L M ns s2 L ?M"
    using reads_trans [OF r1 r2] readsD(3) [OF r1] by simp
  show ?thesis
  proof (cases "cached_entry ?M p = MEMMAN_CACHE_MISS")
    case True
    then have "sn_is_tracked_block p s = Done True s2"
      using w c p by (simp add: sn_is_tracked_block_def Let_def ret_def)
    then show ?thesis using r12 ok
      by (auto simp: runs_def abstract_same_error intro: reads_keeps reads_models_error)
  next
    case False
    have bs: "blocks_of (nodes s1) ns = blocks_of (nodes s) ns"
      by (rule blocks_of_cores [OF readsD(2) [OF r1] sn_ok_dom [OF ok]])
    have "lookup (\<lambda>e. e_data e = p) (nodes s1) ns = cached_entry ?M p"
      using cached_is_lookup [OF readsD(1) [OF r1] _ False] dist bs by simp
    then have q: "lookup (\<lambda>e. e_data e = p) (nodes s2) ns \<noteq> NULL"
      using lookup_cores [OF readsD(2) [OF r2] sn_ok_dom [OF readsD(1) [OF r1]]] False
      by (simp add: MEMMAN_CACHE_MISS_def)
    obtain t L' where "linked_list_hasPtr (mem_list s2) p s2 = Done True t"
      and r3: "reads {} (error_code s2) s2 L ?M ns t L' ?M"
      using reads_hasPtr [OF readsD(1) [OF r12] p] q by (auto simp: runs_def)
    then have "sn_is_tracked_block p s = Done True t"
      using w c p False readsD(11) [OF r2] by (simp add: sn_is_tracked_block_def Let_def)
    then show ?thesis using reads_trans [OF r12 r3] readsD(3) [OF r12] ok
      by (auto simp: runs_def abstract_same_error intro: reads_keeps reads_models_error)
  qed
qed


section \<open>Registration\<close>

text \<open>A block handed over without a size check is tracked whatever it is; nothing is accounted.\<close>

lemma worked_push:
  assumes ok: "sn_ok s L M ns" and room: "l_len L \<noteq> - 1"
    and r: "reads A (error_code s) s L M ns s1 L1 M1"
  shows "ends (bnd (linked_list_push (mem_list s) d n t) (\<lambda>_. ret v)) s1 (\<lambda>r u. r = v \<and> keeps_locks A s u \<and>
      models u ((abstract M ns s)\<lparr>registry := registry (abstract M ns s) @
        [\<lparr>tb_data = d, tb_size = n, tb_tid = t, tb_id = 0\<rparr>]\<rparr>)) (\<lambda>h. h = Aborted)"
proof (rule ends_bnd)
  have "l_len L1 \<noteq> - 1" using room reads_list(2) [OF r] by simp
  then show "ends (linked_list_push (mem_list s) d n t) s1 (\<lambda>_ u. (\<exists>L' q. sn_ok u L' M1 (ns @ [q]) \<and>
      abstract M1 (ns @ [q]) u = (abstract M1 ns s1)\<lparr>registry := registry (abstract M1 ns s1) @
        [\<lparr>tb_data = d, tb_size = n, tb_tid = t, tb_id = 0\<rparr>]\<rparr>) \<and>
      keeps_locks {} s1 u) (\<lambda>h. h = Aborted)"
    using push_ends [OF readsD(1) [OF r], of d n t] readsD(11) [OF r] by simp
next
  fix a u
  assume u: "(\<exists>L' q. sn_ok u L' M1 (ns @ [q]) \<and>
      abstract M1 (ns @ [q]) u = (abstract M1 ns s1)\<lparr>registry := registry (abstract M1 ns s1) @
        [\<lparr>tb_data = d, tb_size = n, tb_tid = t, tb_id = 0\<rparr>]\<rparr>) \<and>
      keeps_locks {} s1 u"
  have "abstract M1 ns s1 = abstract M ns s"
    using reads_abstract [OF ok r] by (simp add: abstract_same_error)
  moreover have "keeps_locks A s u" using u reads_keeps [OF r] by (simp add: keeps_locks_def)
  ultimately show "ends (ret v) u (\<lambda>r u. r = v \<and> keeps_locks A s u \<and>
      models u ((abstract M ns s)\<lparr>registry := registry (abstract M ns s) @
        [\<lparr>tb_data = d, tb_size = n, tb_tid = t, tb_id = 0\<rparr>]\<rparr>)) (\<lambda>h. h = Aborted)"
    using u unfolding models_def by fastforce
qed

lemma register_ends:
  assumes ok: "sn_ok s L M ns" and room: "room s"
  shows "ends (sn_register p) s (\<lambda>r u. r = p \<and> keeps_locks (leaks L ns) s u \<and>
      models u ((abstract M ns s)\<lparr>registry := registry (abstract M ns s) @
        [\<lparr>tb_data = p, tb_size = 0, tb_tid = thread_id s, tb_id = 0\<rparr>]\<rparr>)) (\<lambda>h. h = Aborted)"
proof -
  obtain s1 where w: "do_work s = Done () s1"
    and r1: "reads (leaks L ns) (error_code s) s L M ns s1 L (worked_manager M ns s)"
    using do_work_runs [OF ok] by (auto simp: runs_def)
  have "thread_id s1 = thread_id s" using readsD(8,9) [OF r1] by (simp add: thread_id_def)
  then have "sn_register p s = bnd (linked_list_push (mem_list s) p 0 (thread_id s)) (\<lambda>_. ret p) s1"
    using w readsD(11) [OF r1] by (simp add: sn_register_def)
  then show ?thesis using worked_push [OF ok roomD [OF ok room] r1, of p 0 "thread_id s" p] by (simp add: ends_def)
qed

text \<open>With a size, a tracked block is left as it is.\<close>

definition register_spec :: "tid_t \<Rightarrow> ptr \<Rightarrow> size_t \<Rightarrow> sn_state \<Rightarrow> ptr \<times> sn_state" where
  "register_spec t p n a =
     (if p = NULL then (NULL, failed SN_ERR_NULL_PTR a)
      else if n = 0 then (NULL, failed SN_ERR_BAD_SIZE a)
      else if find_block p (registry a) \<noteq> None then (p, a)
      else (p, a\<lparr>registry := registry a @ [\<lparr>tb_data = p, tb_size = n, tb_tid = t, tb_id = 0\<rparr>]\<rparr>))"

lemma register_size_ends:
  assumes ok: "sn_ok s L M ns" and room: "room s"
  shows "ends (sn_register_size p n) s (\<lambda>r u. keeps_locks (leaks L ns) s u \<and>
      r = fst (register_spec (thread_id s) p n (abstract M ns s)) \<and>
      models u (snd (register_spec (thread_id s) p n (abstract M ns s)))) (\<lambda>h. h = Aborted)"
    (is "ends _ _ ?Q _")
proof -
  let ?M = "worked_manager M ns s" and ?a = "abstract M ns s"
  obtain s1 where w: "do_work s = Done () s1" and r1: "reads (leaks L ns) (error_code s) s L M ns s1 L ?M"
    using do_work_runs [OF ok] by (auto simp: runs_def)
  note err = error_after [OF ok r1]
  show ?thesis
  proof (cases "p = NULL \<or> n = 0")
    case True
    then show ?thesis using w err [of SN_ERR_NULL_PTR NULL] err [of SN_ERR_BAD_SIZE NULL]
      by (auto simp: sn_register_size_def register_spec_def ends_def runs_def)
  next
    case False
    let ?q = "lookup (\<lambda>e. e_data e = p) (nodes s) ns"
    have q: "lookup (\<lambda>e. e_data e = p) (nodes s1) ns = ?q"
      using lookup_cores [OF readsD(2) [OF r1] sn_ok_dom [OF ok]] .
    obtain s2 L2 where h: "linked_list_hasPtr (mem_list s) p s1 = Done (?q \<noteq> NULL) s2"
      and r2: "reads {} (error_code s1) s1 L ?M ns s2 L2 ?M"
      using reads_hasPtr [OF readsD(1) [OF r1], of p] False q readsD(11) [OF r1] by (auto simp: runs_def)
    have r12: "reads (leaks L ns) (error_code s) s L M ns s2 L2 ?M"
      using reads_trans [OF r1 r2] readsD(3) [OF r1] by simp
    have find: "(find_block p (registry ?a) = None) = (?q = NULL)"
      using find_block_lookup [OF list_okD(5) [OF sn_okD(1) [OF ok]], of p "nodes s"]
      by (simp add: Let_def registry_abstract)
    show ?thesis
    proof (cases "?q = NULL")
      case q: False
      then have "sn_register_size p n s = Done p s2"
        using w h False readsD(11) [OF r1] by (simp add: sn_register_size_def ret_def)
      then show ?thesis using r12 ok q find False
        by (auto simp: ends_def register_spec_def abstract_same_error intro: reads_keeps reads_models_error)
    next
      case q: True
      have "thread_id s2 = thread_id s" using readsD(8,9) [OF r12] by (simp add: thread_id_def)
      then have "sn_register_size p n s = bnd (linked_list_push (mem_list s) p n (thread_id s)) (\<lambda>_. ret p) s2"
        using w h False q readsD(11) [OF r1] by (simp add: sn_register_size_def bnd_def gets_def)
      then show ?thesis using worked_push [OF ok roomD [OF ok room] r12, of p n "thread_id s" p] find q False
        by (simp add: ends_def register_spec_def split: outcome.splits)
    qed
  qed
qed

section \<open>Memory totals\<close>

text \<open>The sum a thread's query returns, over the abstract registry.\<close>

definition thread_usage :: "tid_t \<Rightarrow> tracked_block list \<Rightarrow> size_t" where
  "thread_usage t bs = sum_list (map tb_size (filter (\<lambda>b. tb_tid b = t) bs))"

lemma thread_usage_simps [simp]:
  "thread_usage t [] = 0"
  "thread_usage t (bs @ cs) = thread_usage t bs + thread_usage t cs"
  "thread_usage t (b # bs) = (if tb_tid b = t then tb_size b else 0) + thread_usage t bs"
  by (simp_all add: thread_usage_def)

definition add_usage_of :: "tid_t \<times> size_t \<Rightarrow> ptr \<Rightarrow> linked_list_entry_t \<Rightarrow> tid_t \<times> size_t" where
  "add_usage_of g p e = (if e_tid e = fst g then (fst g, snd g + e_size e) else g)"

interpretation tid_summer: folder search_for_tid add_usage_of
  by unfold_locales (simp add: search_for_tid_def add_usage_of_def ret_def)

lemma fold_thread_usage:
  "fold_entries add_usage_of h ns (t, n) = (t, n + thread_usage t (blocks_of h ns))"
  by (induction ns arbitrary: n) (simp_all add: add_usage_of_def)

lemma summing_walk:
  assumes ok: "list_ok s l L ns" and rdy: "ready (l_mutex L) s"
  shows "linked_list_forEach l search_for_tid (t, 0) s =
    Done (NULL, t, thread_usage t (blocks_of (nodes s) ns)) (after_walk L ns s)"
  using tid_summer.forEach_folds [OF ok rdy, of "(t, 0)"] by (simp add: fold_thread_usage)

lemma thread_usage_runs:
  assumes ok: "sn_ok s L M ns"
  shows "runs (sn_query_thread_memory_usage t) s (\<lambda>r u. keeps_locks (leaks L ns) s u \<and>
    r = thread_usage t (registry (abstract M ns s)) \<and> models u (abstract M ns s))"
proof -
  let ?M = "worked_manager M ns s"
  obtain s1 where w: "do_work s = Done () s1" and r1: "reads (leaks L ns) (error_code s) s L M ns s1 L ?M"
    using do_work_runs [OF ok] by (auto simp: runs_def)
  have bs: "blocks_of (nodes s1) ns = blocks_of (nodes s) ns"
    by (rule blocks_of_cores [OF readsD(2) [OF r1] sn_ok_dom [OF ok]])
  note D = sn_okD [OF readsD(1) [OF r1]]
  have "sn_query_thread_memory_usage t s = Done (thread_usage t (blocks_of (nodes s) ns)) (after_walk L ns s1)"
    using w summing_walk [OF D(1,2), of t] bs by (simp add: sn_query_thread_memory_usage_def ret_def)
  then show ?thesis using reads_trans [OF r1 reads_after_walk [OF readsD(1) [OF r1]]] readsD(3) [OF r1] ok
    by (auto simp: runs_def abstract_same_error registry_abstract intro: reads_keeps reads_models_error)
qed

section \<open>The value of the checksum\<close>

text \<open>The loop as a sum over the bytes: order matters only through the index byte.\<close>

fun xor_terms :: "byte \<Rightarrow> byte \<Rightarrow> byte \<Rightarrow> byte list \<Rightarrow> size_t \<Rightarrow> 64 word" where
  "xor_terms mixer m l [] i = 0"
| "xor_terms mixer m l (d # ds) i = word_of_int (checksum_term mixer m l i d) XOR xor_terms mixer m l ds (i + 1)"

lemma checksum_loop_xor: "checksum_loop mixer m l ds i acc = xor_terms mixer m l ds i XOR acc"
  by (induction ds arbitrary: i acc) (simp_all add: ac_simps)

lemma uint_byte: "0 \<le> uint (b :: byte)" "uint (b :: byte) \<le> 255"
  using uint_bounded [of b] by simp_all

text \<open>No intermediate value leaves the range of \<open>int\<close>, and a term has at most 17 bits.\<close>

lemma checksum_term_bounds:
  "0 \<le> checksum_term mixer m l i d" "checksum_term mixer m l i d \<le> 130305"
proof -
  let ?a = "uint (d XOR mixer) + uint m"
  have a: "0 \<le> ?a" "?a \<le> 510" using uint_byte [of "d XOR mixer"] uint_byte [of m] by linarith+
  have "?a * uint l \<le> 510 * 255" using a uint_byte [of l] by (intro mult_mono) simp_all
  then show "checksum_term mixer m l i d \<le> 130305"
    using uint_byte [of "ucast i"] by (simp add: checksum_term_def)
  show "0 \<le> checksum_term mixer m l i d"
    using a uint_byte [of l] uint_byte [of "ucast i"] by (simp add: checksum_term_def)
qed

lemma small_word_bits: "(w :: 64 word) < 2 ^ 17 \<longleftrightarrow> take_bit 17 (uint w) = uint w"
proof -
  have "w < 2 ^ 17 \<longleftrightarrow> uint w < 2 ^ 17" by (rule word_2p_lem) (simp add: word_size)
  then show ?thesis by (simp add: take_bit_int_eq_self_iff)
qed

lemma term_word_small: "(word_of_int (checksum_term mixer m l i d) :: 64 word) < 2 ^ 17"
proof -
  have "uint (word_of_int (checksum_term mixer m l i d) :: 64 word) = checksum_term mixer m l i d"
    using checksum_term_bounds [of mixer m l i d] by (simp add: uint_word_of_int)
  then show ?thesis using checksum_term_bounds(2) [of mixer m l i d] by (simp add: word_less_def)
qed

lemma xor_small: "(a :: 64 word) < 2 ^ 17 \<Longrightarrow> b < 2 ^ 17 \<Longrightarrow> a XOR b < 2 ^ 17"
  unfolding small_word_bits by (simp add: unsigned_xor_eq take_bit_xor)

lemma xor_terms_small: "xor_terms mixer m l ds i < 2 ^ 17"
  by (induction ds arbitrary: i) (simp_all only: xor_terms.simps xor_small term_word_small, simp)

lemma checksum_bytes_small: "checksum_bytes data < 2 ^ 17"
  using xor_terms_small by (simp add: checksum_bytes_def Let_def checksum_loop_xor)

text \<open>What the call computes on a block found in the cache.\<close>

definition block_checksum :: "size_t \<Rightarrow> byte list \<Rightarrow> 64 word" where
  "block_checksum n bs =
     (if n = 1 then ucast (bs ! 0 XOR 255) else checksum_bytes (take (unat n) bs))"

lemma checksum_hit:
  assumes ok: "sn_ok s L M ns" and owned: "owned (abstract M ns s)" and p: "p \<noteq> NULL"
    and hit: "query_cached s M ns p"
  shows "\<exists>b bs. find_block p (registry (abstract M ns s)) = Some b \<and> blocks s p = Some bs \<and>
    runs (sn_calculate_checksum p) s (\<lambda>r t. keeps_locks (leaks L ns) s t \<and>
      (if tb_size b = 0 then r = 0 \<and> models t (failed SN_ERR_BAD_SIZE (abstract M ns s))
       else r = block_checksum (tb_size b) bs \<and> models t (abstract M ns s)))"
proof -
  let ?rest = "\<lambda>entry. bnd (linked_list_entry_getSize entry) (\<lambda>n.
       bnd (load_node entry) (\<lambda>e.
       if e_size e = 0 then sn_error SN_ERR_BAD_SIZE 0
       else if n = 1 then bnd (read_bytes p 1) (\<lambda>data. ret (ucast (data ! 0 XOR 255)))
       else bnd (read_bytes p n) (\<lambda>data. ret (checksum_bytes data)) :: 64 word lib))"
  have dist: "distinct (map tb_data (blocks_of (nodes s) ns))" using owned by (simp add: owned_def abstract_def)
  obtain q e t where Q: "q \<in> set ns" "nodes s q = Some e" "e_data e = p"
      and fb: "find_block p (registry (abstract M ns s)) = Some (block_of e)"
      and r: "reads (leaks L ns) (error_code s) s L M ns t L (worked_manager M ns s)"
      and c: "cached_query p 0 ?rest s = ?rest q t"
    using cached_query_hit [OF ok p hit dist, of 0 ?rest] by blast
  have eq: "sn_calculate_checksum p = cached_query p 0 ?rest"
    unfolding sn_calculate_checksum_def cached_query_def ..
  obtain bs where bs: "blocks s p = Some bs" "unat (e_size e) \<le> length bs"
    using owned find_block_in [OF fb] by (fastforce simp: owned_def abstract_def)
  obtain e' where e': "nodes t q = Some e'" "core e' = core e" using cores_Some [OF readsD(2) [OF r] Q(2)] .
  have sz: "e_size e' = e_size e" using core_eqD(4) [OF e'(2)] .
  have q0: "q \<noteq> NULL" using Q(1) list_okD(5) [OF sn_okD(1) [OF ok]] by auto
  have m: "models t (abstract M ns s)" "keeps_locks (leaks L ns) s t"
    using r ok by (auto simp: abstract_same_error intro: reads_keeps reads_models_error)
  have run: "?rest q t = (if e_size e = 0 then sn_error SN_ERR_BAD_SIZE 0 t
      else Done (block_checksum (e_size e) bs) t)"
  proof (cases "e_size e = 0")
    case True
    then show ?thesis using e' q0 sz by (simp add: linked_list_entry_getSize_def)
  next
    case False
    then have "1 \<le> unat (e_size e)" by (metis One_nat_def Suc_leI unat_gt_0)
    then have "1 \<le> length bs" using bs(2) by linarith
    then show ?thesis using False e' q0 sz bs readsD(4) [OF r]
      by (simp add: linked_list_entry_getSize_def read_bytes_def block_checksum_def ret_def)
  qed
  have "runs (sn_calculate_checksum p) s (\<lambda>r t. keeps_locks (leaks L ns) s t \<and>
      (if tb_size (block_of e) = 0 then r = 0 \<and> models t (failed SN_ERR_BAD_SIZE (abstract M ns s))
       else r = block_checksum (tb_size (block_of e)) bs \<and> models t (abstract M ns s)))"
    using eq c run m error_after [OF ok r, of SN_ERR_BAD_SIZE "0 :: 64 word"]
    by (cases "e_size e = 0") (simp_all add: runs_def)
  then show ?thesis using fb bs(1) by blast
qed

section \<open>The traversal returns null\<close>

text \<open>\<open>linked_list_forEach\<close> never hands out the loop-break sentinel.\<close>

lemma walk_not_brake: "walk worker l p i g s = Done (r, g') t \<Longrightarrow> r \<noteq> LIST_FOR_EACH_LOOP_BRAKE"
proof (induction worker l p i g s rule: walk.induct)
  case (1 worker self entry i g s)
  have null: "NULL \<noteq> LIST_FOR_EACH_LOOP_BRAKE" by (simp add: LIST_FOR_EACH_LOOP_BRAKE_def)
  consider "entry = NULL" | "entry \<noteq> NULL" "i \<noteq> - 1"
    using "1.prems" by (subst (asm) walk.simps) (auto split: if_splits)
  then show ?case
  proof cases
    case 1
    then show ?thesis using "1.prems" null
      by (auto simp: walk_NULL bnd_def ret_def split: outcome.splits)
  next
    case 2
    show ?thesis
    proof (cases "walk_step worker self entry i g s")
      case (Halt h s')
      then show ?thesis using 2 "1.prems" by (simp add: walk.simps [of worker self entry])
    next
      case (Done a s')
      obtain nxt temp g1 where a: "a = (nxt, temp, g1)" by (cases a)
      show ?thesis
      proof (cases "temp = NULL")
        case True
        then have "walk worker self nxt (i + 1) g1 s' = Done (r, g') t"
          using 2 "1.prems" Done a by (simp add: walk.simps [of worker self entry])
        then show ?thesis using "1.IH" [OF 2 Done] a True by simp
      next
        case False
        then show ?thesis using 2 "1.prems" Done a null
          by (auto simp: walk.simps [of worker self entry] bnd_def ret_def split: outcome.splits if_splits)
      qed
    qed
  qed
qed

lemma forEach_not_brake:
  assumes "linked_list_forEach l worker g s = Done (r, g') t"
  shows "r \<noteq> LIST_FOR_EACH_LOOP_BRAKE"
proof -
  have null: "NULL \<noteq> LIST_FOR_EACH_LOOP_BRAKE" by (simp add: LIST_FOR_EACH_LOOP_BRAKE_def)
  show ?thesis using assms null
    by (auto simp: linked_list_forEach_def bnd_def ret_def dest: walk_not_brake split: outcome.splits if_splits)
qed

lemma for_each_null: "sn_mem_metadata_for_each worker arg frame s = Done r t \<Longrightarrow> r = NULL"
  using forEach_not_brake
  by (fastforce simp: sn_mem_metadata_for_each_def bnd_def gets_def ret_def split: outcome.splits if_splits)

text \<open>A callback that only computes: the walk stops at the first entry it answers something for,
  releases the lock and hands out null.\<close>

lemma for_each_walks:
  assumes pure: "\<And>md i u. worker md i frame u = Done (f md i) u" and L: "lists s l = Some L" "ready (l_mutex L) s"
  shows "\<lbrakk>seg (nodes s) prv rest NULL; NULL \<notin> set rest; unat i + length rest < 2 ^ 64; s = locked (l_mutex L) s; fe_worker g = worker\<rbrakk> \<Longrightarrow>
    \<exists>g'. walk (mem_metadata_for_each frame) l (hd_or NULL rest) i g s = Done (NULL, g') (unlocked (l_mutex L) s)"
proof (induction rest arbitrary: i prv)
  case Nil
  with L show ?case by (simp add: walk_NULL list_unlock_ok ret_def)
next
  case (Cons p rest)
  from Cons.prems obtain e where p: "p \<noteq> NULL" "nodes s p = Some e" "e_next e = hd_or NULL rest"
    and seg: "seg (nodes s) p rest NULL" by auto
  have i: "i \<noteq> - 1" using counter_not_max [of i "Suc (length rest)"] Cons.prems(3) by simp
  let ?r = "f (p + metadata_offset) i"
  have step: "walk_step (mem_metadata_for_each frame) l p i g s = Done (hd_or NULL rest,
      if ?r \<noteq> NULL then LIST_FOR_EACH_LOOP_BRAKE else NULL, if ?r \<noteq> NULL then g\<lparr>fe_out := ?r\<rparr> else g) s"
    using p L Cons.prems(4,5) pure by (simp add: walk_step_def mem_metadata_for_each_def plat_mutex_lock_ready ret_def)
  show ?case
  proof (cases "?r = NULL")
    case True
    have "unat (i + 1) + length rest < 2 ^ 64" using Cons.prems(3) unat_Suc_word [OF i] by simp
    then show ?thesis using True p i step Cons.IH [OF seg] Cons.prems
      by (simp add: walk.simps [of "mem_metadata_for_each frame" l p])
  next
    case False
    moreover have "LIST_FOR_EACH_LOOP_BRAKE \<noteq> NULL" by (simp add: LIST_FOR_EACH_LOOP_BRAKE_def)
    ultimately show ?thesis using p i step L
      by (simp add: walk.simps [of "mem_metadata_for_each frame" l p] list_unlock_ok ret_def)
  qed
qed

lemma for_each_returns:
  assumes pure: "\<And>md i u. worker md i frame u = Done (f md i) u" and ok: "list_ok s (mem_list s) L ns" and rdy: "ready (l_mutex L) s"
  shows "sn_mem_metadata_for_each worker arg frame s = Done NULL (after_walk L ns s)"
proof -
  note O = list_okD [OF ok]
  let ?g = "\<lparr>fe_real_generic_arg = arg, fe_worker = worker, fe_out = NULL\<rparr>"
  have "\<exists>g'. linked_list_forEach (mem_list s) (mem_metadata_for_each frame) ?g s = Done (NULL, g') (after_walk L ns s)"
  proof (cases ns)
    case Nil
    then show ?thesis using forEach_empty [of s "mem_list s" L "mem_metadata_for_each frame"] ok rdy by simp
  next
    case (Cons p ps)
    from list_ok_node [OF ok, of p] Cons obtain e where e: "nodes s p = Some e" "\<not> e_isHead e" by auto
    have "linked_list_forEach (mem_list s) (mem_metadata_for_each frame) ?g s =
        walk (mem_metadata_for_each frame) (mem_list s) (hd_or NULL ns) 0 ?g (locked (l_mutex L) s)"
      using ok rdy Cons e O list_ok_len_pos [of s "mem_list s" L p ps]
      by (simp add: linked_list_forEach_def list_lock_ok linked_list_entry_pri_isHead_def)
    moreover have "\<exists>g'. walk (mem_metadata_for_each frame) (mem_list s) (hd_or NULL ns) 0 ?g (locked (l_mutex L) s) =
        Done (NULL, g') (unlocked (l_mutex L) (locked (l_mutex L) s))"
      using for_each_walks [of worker frame f "locked (l_mutex L) s" "mem_list s" L "l_head L" ns 0 ?g] pure O rdy
        list_ok_length [OF ok] ready_with_mutex [OF rdy]
      by (simp del: seg.simps) (simp)
    ultimately show ?thesis using Cons by (auto simp: after_walk_def)
  qed
  then show ?thesis by (auto simp: sn_mem_metadata_for_each_def ret_def LIST_FOR_EACH_LOOP_BRAKE_def)
qed

section \<open>The view and its bytes\<close>

text \<open>Reading little-endian bytes back.\<close>

primrec from_le :: "byte list \<Rightarrow> 64 word" where
  "from_le [] = 0"
| "from_le (b # bs) = ucast b OR push_bit 8 (from_le bs)"

definition md_of_bytes :: "byte list \<Rightarrow> sn_mem_metadata_t" where
  "md_of_bytes bs = \<lparr>md_data = from_le (take 8 bs), md_size = from_le (take 8 (drop 8 bs)),
     md_tid = from_le (take 8 (drop 16 bs)), md_cached = (bs ! 24 \<noteq> 0),
     md_block_id = ucast (from_le (take 2 (drop 26 bs)))\<rparr>"

lemma length_le_bytes [simp]: "length (le_bytes n w) = n"
  by (simp add: le_bytes_def)

lemma le_bytes_Suc: "le_bytes (Suc n) w = ucast w # le_bytes n (drop_bit 8 w)"
  by (simp add: le_bytes_def upt_conv_Cons map_Suc_upt [symmetric] drop_bit_drop_bit comp_def add.commute del: upt_Suc)

lemma from_le_bytes: "from_le (le_bytes n (w :: 64 word)) = take_bit (8 * n) w"
proof (induction n arbitrary: w)
  case 0
  then show ?case by (simp add: le_bytes_def)
next
  case (Suc n)
  show ?case unfolding le_bytes_Suc from_le.simps Suc.IH
    by (rule bit_word_eqI) (auto simp: bit_simps)
qed

lemma le_bytes_ucast16: "le_bytes 2 (w :: 16 word) = le_bytes 2 (ucast w :: 64 word)"
proof -
  have b: "(ucast (drop_bit k w) :: byte) = ucast (drop_bit k (ucast w :: 64 word))" if "k \<le> 8" for k
    by (rule bit_word_eqI) (use that in \<open>auto simp: bit_simps\<close>)
  show ?thesis using b [of 0] b [of 8] by (simp add: le_bytes_def numeral_2_eq_2)
qed

lemma metadata_roundtrip:
  "md_of_bytes (metadata_bytes e) = \<lparr>md_data = e_data e, md_size = e_size e, md_tid = e_tid e,
     md_cached = e_cached e, md_block_id = e_block_id e\<rparr>"
proof -
  have 8: "from_le (le_bytes 8 w) = w" for w by (simp add: from_le_bytes take_bit_word_eq_self)
  have 2: "(ucast (from_le (le_bytes 2 v)) :: 16 word) = v" for v :: "16 word"
    unfolding le_bytes_ucast16 from_le_bytes by (rule bit_word_eqI) (auto simp: bit_simps)
  show ?thesis
    by (simp add: md_of_bytes_def metadata_bytes_def nth_append bool_byte_def 8 2)
qed

lemma length_metadata_bytes [simp]: "length (metadata_bytes e) = 32"
  by (simp add: metadata_bytes_def)

section \<open>Setting the limit, reading the total\<close>

lemma set_alloc_limit_runs:
  assumes "sn_ok s L M ns"
  shows "runs (sn_set_alloc_limit n) s (\<lambda>_ t. keeps_locks {} s t \<and> models t ((abstract M ns s)\<lparr>cap := n\<rparr>))"
  unfolding sn_set_alloc_limit_def
  by (rule runs_mono [OF manager_update_runs [OF assms]])
    (auto simp: abstract_def intro!: models_keeps)

lemma total_usage_eq:
  assumes "sn_ok s L M ns"
  shows "sn_query_total_memory_usage s = Done (usage (abstract M ns s)) s"
  using sn_okD(8) [OF assms] by (simp add: sn_query_total_memory_usage_def ret_def abstract_def)

end
