(* ===== verification/SN_File_Work.thy ===== *)
theory SN_File_Work
  imports SN_Metadata
begin

text \<open>
  \<open>sn_file_work.c\<close>: writing a tracked block to a file and loading a file into a tracked
  block. Files are byte lists by path. Each C library call reads the environment's next
  answer: 0 makes an \<open>fopen\<close> or \<open>ftell\<close> fail, a number bounds the bytes an \<open>fread\<close> or
  \<open>fwrite\<close> transfers, and an empty queue means no interference.
\<close>

section \<open>The C library calls\<close>

definition next_io :: "nat option lib" where
  "next_io s = (case io_answers s of [] \<Rightarrow> Done None s | a # rest \<Rightarrow> Done (Some a) (s\<lparr>io_answers := rest\<rparr>))"

definition fopen_rb :: "string \<Rightarrow> bool lib" where
  "fopen_rb path = bnd next_io (\<lambda>a. bnd (gets files) (\<lambda>fs. ret (a \<noteq> Some 0 \<and> fs path \<noteq> None)))"

definition fopen_wb :: "string \<Rightarrow> bool lib" where
  "fopen_wb path =
     bnd next_io (\<lambda>a.
     if a = Some 0 then ret False
     else bnd (modify (\<lambda>s. s\<lparr>files := (files s)(path \<mapsto> [])\<rparr>)) (\<lambda>_. ret True))"

definition transfer :: "nat option \<Rightarrow> nat \<Rightarrow> nat" where
  "transfer a n = (case a of None \<Rightarrow> n | Some k \<Rightarrow> min k n)"

definition c_fwrite :: "string \<Rightarrow> byte list \<Rightarrow> size_t lib" where
  "c_fwrite path bs =
     bnd next_io (\<lambda>a.
     let k = transfer a (length bs) in
     bnd (modify (\<lambda>s. s\<lparr>files := (files s)(path \<mapsto>
            (case files s path of None \<Rightarrow> [] | Some old \<Rightarrow> old) @ take k bs)\<rparr>)) (\<lambda>_.
     ret (of_nat k)))"

text \<open>\<open>(size_t) ftell(f)\<close> at the end of the file: \<open>-1\<close> when it fails.\<close>

definition ftell_end :: "string \<Rightarrow> size_t lib" where
  "ftell_end path =
     bnd next_io (\<lambda>a.
     bnd (gets files) (\<lambda>fs.
     ret (if a = Some 0 then - 1 else case fs path of None \<Rightarrow> - 1 | Some bs \<Rightarrow> of_nat (length bs))))"

definition c_fread :: "ptr \<Rightarrow> size_t \<Rightarrow> string \<Rightarrow> size_t lib" where
  "c_fread buffer n path =
     bnd next_io (\<lambda>a.
     bnd (gets files) (\<lambda>fs s.
     let content = (case fs path of None \<Rightarrow> [] | Some bs \<Rightarrow> bs);
         k = transfer a (min (unat n) (length content))
     in case blocks s buffer of
          None \<Rightarrow> Halt UB s
        | Some old \<Rightarrow>
            (if k \<le> length old
             then Done (of_nat k) (s\<lparr>blocks := (blocks s)(buffer \<mapsto> take k content @ drop k old)\<rparr>)
             else Halt UB s)))"

section \<open>The calls\<close>

definition file_exists :: "string \<Rightarrow> bool lib" where
  "file_exists path = bnd (fopen_rb path) (\<lambda>f. if f then ret True else ret False)"

text \<open>A null path is \<open>None\<close>.\<close>

definition sn_dump_to_file :: "string option \<Rightarrow> ptr \<Rightarrow> bool lib" where
  "sn_dump_to_file file block =
     (case file of
        None \<Rightarrow> sn_error SN_ERR_NULL_PTR False
      | Some path \<Rightarrow>
        if block = NULL then sn_error SN_ERR_NULL_PTR False
        else
          bnd (file_exists path) (\<lambda>ex.
          if ex then sn_error SN_ERR_FILE_PRE_EXIST False
          else
            cached_or_return block False (\<lambda>entry.
            bnd (fopen_wb path) (\<lambda>f.
            if \<not> f then sn_error SN_ERR_FILE_IO False
            else
              bnd (linked_list_entry_getSize entry) (\<lambda>n.
              bnd (if n = 0 then ret [] else read_bytes block n) (\<lambda>bs.
              bnd (c_fwrite path bs) (\<lambda>written.
              bnd (linked_list_entry_getSize entry) (\<lambda>n.
              if written \<noteq> n then sn_error SN_ERR_FILE_IO False
              else ret True))))))))"

definition sn_mount_file_to_ram :: "string option \<Rightarrow> ptr lib" where
  "sn_mount_file_to_ram file =
     (case file of
        None \<Rightarrow> sn_error SN_ERR_NULL_PTR NULL
      | Some path \<Rightarrow>
        bnd (file_exists path) (\<lambda>ex.
        if \<not> ex then sn_error SN_ERR_FILE_NOT_EXIST NULL
        else
          bnd (fopen_rb path) (\<lambda>f.
          if \<not> f then sn_error SN_ERR_FILE_IO NULL
          else
            bnd (ftell_end path) (\<lambda>filesize.
            if filesize \<le> 0 then sn_error SN_ERR_BAD_SIZE NULL
            else
              bnd (sn_malloc filesize) (\<lambda>buffer.
              if buffer = NULL then sn_crash SN_ERR_BAD_ALLOC
              else
                bnd (c_fread buffer filesize path) (\<lambda>read.
                if read \<noteq> filesize then
                  bnd (sn_free buffer) (\<lambda>_.
                  sn_error SN_ERR_FILE_IO NULL)
                else ret buffer))))))"

lemmas run_files [run] =
  next_io_def fopen_rb_def fopen_wb_def transfer_def c_fwrite_def ftell_end_def c_fread_def
  file_exists_def sn_dump_to_file_def sn_mount_file_to_ram_def

end
