(* ===== verification/SN_Setup.thy ===== *)
theory SN_Setup
  imports SN_File_Work
begin

text \<open>
  \<open>setup.c\<close>: what runs when the library is loaded and unloaded.
\<close>

definition freeOnListFree :: "unit worker" where
  "freeOnListFree self ctx index arg =
     bnd (gets doFree) (\<lambda>on.
     if \<not> on then ret (NULL, arg)
     else
       bnd (gets cfg_sanitize) (\<lambda>z.
       bnd (if_do z (bnd (load_node ctx) (\<lambda>e. c_memset (e_data e) 0 (e_size e)))) (\<lambda>_.
       bnd (load_node ctx) (\<lambda>e.
       bnd (plat_free (e_data e)) (\<lambda>_.
       ret (NULL, arg))))))"

definition doexit :: "unit lib" where
  "doexit =
     bnd (gets mem_list) (\<lambda>l.
     bnd (linked_list_getSize l) (\<lambda>n.
     bnd (if_do (n \<noteq> 0) (bnd (linked_list_forEach l freeOnListFree ()) (\<lambda>_. ret ()))) (\<lambda>_.
     bnd (gets alloc_mutex) (\<lambda>am.
     bnd (plat_mutex_destroy am) (\<lambda>_.
     bnd (linked_list_destroy l) (\<lambda>_.
     bnd (gets memory_manager) (\<lambda>m.
     memman_destroy m)))))))"

definition doinit :: "unit lib" where
  "doinit =
     bnd linked_list_new (\<lambda>l.
     bnd (modify (\<lambda>s. s\<lparr>mem_list := l\<rparr>)) (\<lambda>_.
     bnd plat_mutex_new (\<lambda>am.
     bnd (modify (\<lambda>s. s\<lparr>alloc_mutex := am\<rparr>)) (\<lambda>_.
     bnd (gets alloc_mutex) (\<lambda>am.
     bnd (memman_new am) (\<lambda>m.
     modify (\<lambda>s. s\<lparr>memory_manager := m\<rparr>)))))))"

definition library_init :: "unit lib" where "library_init = doinit"

definition library_cleanup :: "unit lib" where "library_cleanup = doexit"

text \<open>The entry point of the Windows build, called by the loader with the reason 1 when a process
  attaches and 0 when it detaches; \<open>reserved\<close> is null unless the process is terminating.\<close>

definition DllMain :: "32 word \<Rightarrow> ptr \<Rightarrow> bool lib" where
  "DllMain reason reserved =
     (if reason = 1 then bnd doinit (\<lambda>_. ret True)
      else if reason = 0 then
        (if reserved \<noteq> NULL then ret True
         else bnd doexit (\<lambda>_. ret True))
      else ret True)"

lemmas run_setup [run] =
  freeOnListFree_def doexit_def doinit_def library_init_def library_cleanup_def DllMain_def

section \<open>Loading the library\<close>

text \<open>Allocating a struct: a fresh address, or the null the caller turns into an abort.\<close>

lemma split_ok_fresh:
  assumes "split_ok s" "can_place s p n"
  shows "split_ok (s\<lparr>malloc_answers := r, lists := (lists s)(p \<mapsto> L)\<rparr>)"
    "split_ok (s\<lparr>malloc_answers := r, nodes := (nodes s)(p \<mapsto> e)\<rparr>)"
    "split_ok (s\<lparr>malloc_answers := r, managers := (managers s)(p \<mapsto> M)\<rparr>)"
    "split_ok (s\<lparr>malloc_answers := r, mutexes := (mutexes s)(p \<mapsto> x)\<rparr>)"
  using assms(1) can_place_dom [OF assms(2)] unfolding split_ok_def by auto

lemma mutex_new_cases:
  obtains (none) r i where "plat_mutex_new s = Done NULL (s\<lparr>malloc_answers := r, mutex_init_answers := i\<rparr>)"
  | (new) p r i where "can_place s p (sizeof_plat_mutex_t (cfg_mutex s))" "plat_mutex_new s =
      Done p (s\<lparr>malloc_answers := r, mutex_init_answers := i, mutexes := (mutexes s)(p \<mapsto> free_mutex)\<rparr>)"
proof (cases rule: plat_malloc_cases [of "sizeof_plat_mutex_t (cfg_mutex s)" s])
  case (fail rest)
  then have "plat_mutex_new s = Done NULL (s\<lparr>malloc_answers := rest, mutex_init_answers := mutex_init_answers s\<rparr>)"
    by (simp add: plat_mutex_new_def ret_def)
  then show ?thesis by (rule none)
next
  case (ok p junk rest)
  note D = can_place_dom [OF ok(2)]
  let ?s = "s\<lparr>malloc_answers := rest, mutexes := (mutexes s)(p \<mapsto> free_mutex)\<rparr>"
  have z: "zero_mutex_at p (s\<lparr>malloc_answers := rest, blocks := (blocks s)(p \<mapsto> fresh_bytes (sizeof_plat_mutex_t (cfg_mutex s)) junk)\<rparr>) = Done () ?s"
    using D by (simp add: zero_mutex_at_def drop_block_def fun_upd_idem)
  have f: "plat_free p (?s\<lparr>mutex_init_answers := i\<rparr>) = Done () (s\<lparr>malloc_answers := rest, mutex_init_answers := i\<rparr>)" for i
    using D by (simp add: plat_free_def live_def fun_upd_idem)
  have "(\<not> cfg_mutex s) \<or> (cfg_mutex s \<and> (\<exists>i. pthread_mutex_init ?s = Done True (?s\<lparr>mutex_init_answers := i\<rparr>)))
      \<or> (cfg_mutex s \<and> (\<exists>i. pthread_mutex_init ?s = Done False (?s\<lparr>mutex_init_answers := i\<rparr>)))"
  proof (cases "mutex_init_answers s")
    case Nil
    then have "pthread_mutex_init ?s = Done True (?s\<lparr>mutex_init_answers := []\<rparr>)"
      by (simp add: pthread_mutex_init_def)
    then show ?thesis by blast
  next
    case (Cons a as)
    then have "pthread_mutex_init ?s = Done a (?s\<lparr>mutex_init_answers := as\<rparr>)"
      by (simp add: pthread_mutex_init_def)
    then show ?thesis by (cases "cfg_mutex s"; cases a) (simp_all, blast+)
  qed
  then consider (off) "\<not> cfg_mutex s" | (yes) i where "cfg_mutex s" "pthread_mutex_init ?s = Done True (?s\<lparr>mutex_init_answers := i\<rparr>)"
    | (no) i where "cfg_mutex s" "pthread_mutex_init ?s = Done False (?s\<lparr>mutex_init_answers := i\<rparr>)"
    by blast
  then show ?thesis
  proof cases
    case off
    then have "plat_mutex_new s = Done p (s\<lparr>malloc_answers := rest, mutex_init_answers := mutex_init_answers s,
        mutexes := (mutexes s)(p \<mapsto> free_mutex)\<rparr>)"
      using ok z D(6) by (simp add: plat_mutex_new_def ret_def)
    then show ?thesis by (rule new [OF ok(2)])
  next
    case yes
    then have "plat_mutex_new s = Done p (s\<lparr>malloc_answers := rest, mutex_init_answers := i,
        mutexes := (mutexes s)(p \<mapsto> free_mutex)\<rparr>)"
      using ok z D(6) by (simp add: plat_mutex_new_def ret_def)
    then show ?thesis by (rule new [OF ok(2)])
  next
    case no
    then have "plat_mutex_new s = Done NULL (s\<lparr>malloc_answers := rest, mutex_init_answers := i\<rparr>)"
      using ok z D(6) f by (simp add: plat_mutex_new_def ret_def)
    then show ?thesis by (rule none)
  qed
qed

definition fresh_mutex_in :: "machine \<Rightarrow> ptr \<Rightarrow> machine \<Rightarrow> bool" where
  "fresh_mutex_in s m t \<longleftrightarrow> (\<exists>r i. t = s\<lparr>malloc_answers := r, mutex_init_answers := i,
     mutexes := (if m = NULL then mutexes s else (mutexes s)(m \<mapsto> free_mutex))\<rparr>) \<and>
     (m \<noteq> NULL \<longrightarrow> can_place s m (sizeof_plat_mutex_t (cfg_mutex s)))"

lemma mutex_new_runs: "runs plat_mutex_new s (\<lambda>m t. fresh_mutex_in s m t)"
proof (cases rule: mutex_new_cases [of s])
  case (none r i)
  have "s\<lparr>malloc_answers := r, mutex_init_answers := i\<rparr> =
      s\<lparr>malloc_answers := r, mutex_init_answers := i, mutexes := mutexes s\<rparr>" by simp
  then show ?thesis using none unfolding runs_def fresh_mutex_in_def by auto
next
  case (new p r i)
  then show ?thesis using can_place_dom(6) [OF new(1)] unfolding runs_def fresh_mutex_in_def by auto
qed

lemma split_ok_fresh_mutex:
  assumes sp: "split_ok s" and f: "fresh_mutex_in s m t"
  shows "split_ok t"
proof (cases "m = NULL")
  case True
  show ?thesis by (rule split_ok_cong [OF sp]) (use f True in \<open>auto simp: fresh_mutex_in_def\<close>)
next
  case False
  then have "can_place s m (sizeof_plat_mutex_t (cfg_mutex s))" using f by (simp add: fresh_mutex_in_def)
  note S = split_ok_fresh(4) [OF sp this, of free_mutex "malloc_answers s"]
  show ?thesis by (rule split_ok_cong [OF S]) (use f False in \<open>auto simp: fresh_mutex_in_def\<close>)
qed

lemma linked_list_new_ends:
  assumes sp: "split_ok s"
  shows "ends linked_list_new s (\<lambda>l t. \<exists>h m t1 r. can_place s l sizeof_linked_list_t \<and>
      fresh_mutex_in (s\<lparr>malloc_answers := r, nodes := (nodes s)(h \<mapsto> fresh_head (thread_id s)),
        lists := (lists s)(l \<mapsto> fresh_list h NULL)\<rparr>) m t1 \<and> h \<noteq> NULL \<and> nodes s h = None \<and>
      t = t1\<lparr>lists := (lists s)(l \<mapsto> fresh_list h m)\<rparr> \<and> split_ok t) (\<lambda>h. h = Aborted)" (is "ends _ _ ?Q _")
proof (cases rule: plat_malloc_cases [of sizeof_linked_list_t s])
  case (fail rest)
  then show ?thesis by (simp add: linked_list_new_def ends_def)
next
  case (ok l junk rest)
  note D = can_place_dom [OF ok(2)]
  let ?s1 = "s\<lparr>malloc_answers := rest, lists := (lists s)(l \<mapsto> zero_list)\<rparr>"
  have z: "zero_list_at l (s\<lparr>malloc_answers := rest, blocks := (blocks s)(l \<mapsto> fresh_bytes sizeof_linked_list_t junk)\<rparr>) = Done () ?s1"
    using D by (simp add: zero_list_at_def drop_block_def fun_upd_idem)
  have sp1: "split_ok ?s1" by (rule split_ok_fresh(1) [OF sp ok(2)])
  have tid: "thread_id ?s1 = thread_id s" by (simp add: thread_id_def)
  show ?thesis
  proof (cases rule: plat_malloc_cases [of sizeof_linked_list_entry_t ?s1])
    case fail: (fail rest2)
    then have "linked_list_entry_new NULL NULL 0 (thread_id s) ?s1 = Done NULL (?s1\<lparr>malloc_answers := rest2\<rparr>)"
      by (simp add: linked_list_entry_new_def ret_def)
    then show ?thesis using ok z D(6) tid by (simp add: linked_list_new_def ends_def)
  next
    case h: (ok h junk2 rest2)
    note H = can_place_dom [OF h(2)]
    have e: "linked_list_entry_new NULL NULL 0 (thread_id s) ?s1 = Done h (?s1\<lparr>malloc_answers := rest2,
        nodes := (nodes s)(h \<mapsto> new_entry NULL NULL 0 (thread_id s))\<rparr>)"
      using linked_list_entry_new_ok [OF h(1,2), of NULL _ NULL 0 "thread_id s"] by simp
    let ?s2 = "s\<lparr>malloc_answers := rest2, nodes := (nodes s)(h \<mapsto> fresh_head (thread_id s)),
        lists := (lists s)(l \<mapsto> fresh_list h NULL)\<rparr>"
    obtain m t where m: "plat_mutex_new ?s2 = Done m t" and f: "fresh_mutex_in ?s2 m t"
      using mutex_new_runs [of ?s2] by (auto simp: runs_def)
    have fl: "lists t = (lists s)(l \<mapsto> fresh_list h NULL)" using f by (auto simp: fresh_mutex_in_def)
    have "split_ok (?s1\<lparr>malloc_answers := rest2, nodes := (nodes ?s1)(h \<mapsto> fresh_head (thread_id s))\<rparr>)"
      by (rule split_ok_fresh(2) [OF sp1 h(2)])
    then have "split_ok ?s2" by (rule split_ok_cong) auto
    then have "split_ok t" using f by (rule split_ok_fresh_mutex)
    then have "split_ok (t\<lparr>lists := (lists s)(l \<mapsto> fresh_list h m)\<rparr>)"
      by (rule split_ok_cong) (auto simp: fl)
    moreover have "linked_list_new s = Done l (t\<lparr>lists := (lists s)(l \<mapsto> fresh_list h m)\<rparr>)"
      using ok z D(6) tid e H(6) m fl
      by (simp add: linked_list_new_def ret_def fresh_list_def fresh_head_def zero_list_def)
    ultimately show ?thesis using ok(2) f H(1,6) by (auto simp: ends_def)
  qed
qed


text \<open>The manager object.\<close>

definition fresh_manager :: "ptr \<Rightarrow> alloc_manager_t" where
  "fresh_manager x = \<lparr>m_cache_list = replicate MEMMAN_MAX_CACHE_SLOTS zero_pair,
     m_available_cache_slots = of_nat MEMMAN_MAX_CACHE_SLOTS, m_cache_lock = False, m_use_cache = True,
     m_alloc_limit = 0, m_global_memory_usage = 0, m_mutex_ref = x\<rparr>"

lemma memman_new_ends:
  "ends (memman_new x) s (\<lambda>m t. can_place s m sizeof_alloc_manager_t \<and>
     (\<exists>r. t = s\<lparr>malloc_answers := r, managers := (managers s)(m \<mapsto> fresh_manager x)\<rparr>)) (\<lambda>h. h = Aborted)"
proof (cases rule: plat_malloc_cases [of sizeof_alloc_manager_t s])
  case (fail rest)
  then show ?thesis by (simp add: memman_new_def ends_def)
next
  case (ok p junk rest)
  note D = can_place_dom [OF ok(2)]
  have "zero_manager_at p (s\<lparr>malloc_answers := rest, blocks := (blocks s)(p \<mapsto> fresh_bytes sizeof_alloc_manager_t junk)\<rparr>)
      = Done () (s\<lparr>malloc_answers := rest, managers := (managers s)(p \<mapsto> zero_manager)\<rparr>)"
    using D by (simp add: zero_manager_at_def drop_block_def fun_upd_idem)
  then have "memman_new x s = Done p (s\<lparr>malloc_answers := rest, managers := (managers s)(p \<mapsto> fresh_manager x)\<rparr>)"
    using ok D(6) by (simp add: memman_new_def ret_def fresh_manager_def zero_manager_def MEMMAN_NO_ALLOC_LIMIT_def)
  then show ?thesis using ok(2) by (auto simp: ends_def)
qed

text \<open>Loading leaves an empty registry, no limit, and released mutexes.\<close>

definition loaded :: "machine \<Rightarrow> sn_state" where
  "loaded s = \<lparr>registry = [], usage = 0, cap = 0, last_error = error_code s, memory = blocks s\<rparr>"

lemma fresh_ready: "\<lbrakk>mutexes s m = Some free_mutex \<or> m = NULL; current s \<noteq> 0\<rbrakk> \<Longrightarrow> ready m s"
  by (auto simp: ready_def)

lemma cache_ok_fresh: "cache_ok h ns (m_cache_list (fresh_manager x))"
  by (simp add: cache_ok_def fresh_manager_def)

lemma doinit_ends:
  assumes sp: "split_ok s" and thread: "current s \<noteq> 0"
  shows "ends doinit s (\<lambda>_ t. models t (loaded s) \<and> room t \<and>
    (\<forall>L. lists t (mem_list t) = Some L \<longrightarrow> released (l_mutex L) t) \<and> released (alloc_mutex t) t) (\<lambda>h. h = Aborted)"
    (is "ends _ _ ?Q _")
  unfolding doinit_def
proof (rule ends_bnd [OF linked_list_new_ends [OF sp]], elim exE conjE)
  fix l t h m t1 r
  let ?s0 = "s\<lparr>malloc_answers := r, nodes := (nodes s)(h \<mapsto> fresh_head (thread_id s)),
        lists := (lists s)(l \<mapsto> fresh_list h NULL)\<rparr>"
  assume l: "can_place s l sizeof_linked_list_t" and f: "fresh_mutex_in ?s0 m t1" and h: "h \<noteq> NULL" "nodes s h = None"
    and t: "t = t1\<lparr>lists := (lists s)(l \<mapsto> fresh_list h m)\<rparr>" and spt: "split_ok t"
  let ?t = "t\<lparr>mem_list := l\<rparr>"
  obtain am t2 where am: "plat_mutex_new ?t = Done am t2" and g: "fresh_mutex_in ?t am t2"
    using mutex_new_runs [of ?t] by (auto simp: runs_def)
  have "split_ok ?t" using spt by (simp add: split_ok_def)
  then have sp2: "split_ok t2" using split_ok_fresh_mutex [OF _ g] by blast
  let ?t2 = "t2\<lparr>alloc_mutex := am\<rparr>"
  have sp2': "split_ok ?t2" using sp2 by (simp add: split_ok_def)
  have Q: "?Q () (u\<lparr>memory_manager := mm\<rparr>)" if mm: "can_place ?t2 mm sizeof_alloc_manager_t"
      and u: "u = ?t2\<lparr>malloc_answers := r', managers := (managers ?t2)(mm \<mapsto> fresh_manager am)\<rparr>" for u mm r'
  proof -
    let ?u = "u\<lparr>memory_manager := mm\<rparr>"
    have "split_ok u" unfolding u by (rule split_ok_fresh(3) [OF sp2' mm])
    then have sp: "split_ok ?u" by (simp add: split_ok_def)
    have N: "nodes ?u = (nodes s)(h \<mapsto> fresh_head (thread_id s))" "lists ?u = (lists s)(l \<mapsto> fresh_list h m)"
      "managers ?u mm = Some (fresh_manager am)" "blocks ?u = blocks s" "mem_list ?u = l" "alloc_mutex ?u = am"
      "error_code ?u = error_code s" "current ?u = current s" "memory_manager ?u = mm"
      using f g by (auto simp: u t fresh_mutex_in_def)
    have mx: "mutexes ?u am = Some free_mutex \<or> am = NULL" "mutexes ?u m = Some free_mutex \<or> m = NULL"
      "m = am \<longrightarrow> m = NULL"
    proof -
      have 1: "mutexes t1 = (if m = NULL then mutexes s else (mutexes s)(m \<mapsto> free_mutex))"
        using f by (auto simp: fresh_mutex_in_def)
      have 2: "mutexes ?u = (if am = NULL then mutexes t1 else (mutexes t1)(am \<mapsto> free_mutex))"
        using g by (auto simp: fresh_mutex_in_def u t)
      have 3: "am \<noteq> NULL \<Longrightarrow> mutexes t1 am = None"
        using g can_place_dom(5) [of ?t am "sizeof_plat_mutex_t (cfg_mutex ?t)"] by (simp add: fresh_mutex_in_def t)
      show "mutexes ?u am = Some free_mutex \<or> am = NULL" "mutexes ?u m = Some free_mutex \<or> m = NULL"
        "m = am \<longrightarrow> m = NULL"
        using 1 2 3 by (cases "m = NULL"; cases "am = NULL"; auto)+
    qed
    have rdy: "ready am ?u" "ready m ?u" using mx thread N(8) by (auto intro: fresh_ready)
    have "list_ok ?u l (fresh_list h m) []"
      using N(1,2) h can_place_dom(6) [OF l] by (intro list_ok_fresh [where t = "thread_id s"]) simp_all
    then have ok: "sn_ok ?u (fresh_list h m) (fresh_manager am) []"
      using N mx rdy sp can_place_dom(6) [OF mm] cache_ok_fresh
      by (auto simp: sn_ok_def manager_at_def mutexes_ok_def fresh_list_def fresh_manager_def)
    have "abstract (fresh_manager am) [] ?u = loaded s"
      using N by (simp add: abstract_def loaded_def fresh_manager_def)
    then have "models ?u (loaded s)" using ok by (metis models_keeps)
    moreover have "room ?u" using N(2,5) by (simp add: room_def fresh_list_def zero_list_def)
    moreover have "released m ?u" "released am ?u" using mx by (auto simp: released_def)
    ultimately show ?thesis using N(2,5,6) by (simp add: fresh_list_def)
  qed
  have "ends (bnd (memman_new am) (\<lambda>m. modify (\<lambda>s. s\<lparr>memory_manager := m\<rparr>))) ?t2 ?Q (\<lambda>h. h = Aborted)"
    by (rule ends_bnd [OF memman_new_ends]) (use Q in \<open>auto simp: ends_def modify_def\<close>)
  then show "ends (bnd (modify (\<lambda>s. s\<lparr>mem_list := l\<rparr>)) (\<lambda>_. bnd plat_mutex_new (\<lambda>am.
      bnd (modify (\<lambda>s. s\<lparr>alloc_mutex := am\<rparr>)) (\<lambda>_. bnd (gets alloc_mutex) (\<lambda>am. bnd (memman_new am)
        (\<lambda>m. modify (\<lambda>s. s\<lparr>memory_manager := m\<rparr>))))))) t ?Q (\<lambda>h. h = Aborted)"
    using am by (simp add: ends_def)
qed

section \<open>Unloading\<close>

text \<open>The sweep that frees the tracked blocks: those behind the walk are gone.\<close>

definition data_of :: "(ptr \<rightharpoonup> linked_list_entry_t) \<Rightarrow> ptr list \<Rightarrow> ptr list" where
  "data_of h ns = map (\<lambda>p. e_data (the (h p))) ns"

definition released_blocks :: "machine \<Rightarrow> ptr list \<Rightarrow> ptr \<rightharpoonup> byte list" where
  "released_blocks s ns = (if doFree s then blocks s |` (- set (data_of (nodes s) ns)) else blocks s)"

definition entries_live :: "machine \<Rightarrow> ptr list \<Rightarrow> bool" where
  "entries_live s ns \<longleftrightarrow> distinct (data_of (nodes s) ns) \<and>
     (\<forall>p \<in> set ns. \<forall>e. nodes s p = Some e \<longrightarrow> e_data e \<noteq> NULL \<and>
        (\<exists>bs. blocks s (e_data e) = Some bs \<and> unat (e_size e) \<le> length bs))"

definition freeing :: "ptr \<Rightarrow> ptr \<Rightarrow> machine \<Rightarrow> ptr list \<Rightarrow> ptr list \<Rightarrow> size_t \<Rightarrow> unit \<Rightarrow> machine \<Rightarrow> bool" where
  "freeing l m s0 ns rest i g s \<longleftrightarrow>
     (\<exists>L gone. list_ok s0 l L ns \<and> l_mutex L = m \<and> ready m s0 \<and> split_ok s0 \<and> entries_live s0 ns \<and>
        ns = gone @ rest \<and> s = locked m (s0\<lparr>blocks := released_blocks s0 gone\<rparr>))"

lemma data_of_simps [simp]:
  "data_of h [] = []" "data_of h (p # ps) = e_data (the (h p)) # data_of h ps"
  "data_of h (ps @ qs) = data_of h ps @ data_of h qs"
  by (simp_all add: data_of_def)

lemma split_ok_fewer_blocks: "split_ok s \<Longrightarrow> dom B \<subseteq> dom (blocks s) \<Longrightarrow> split_ok (s\<lparr>blocks := B\<rparr>)"
  by (rule split_ok_cong) simp_all

lemma free_one:
  assumes sp: "split_ok s0" and rdy: "ready m s0" and e: "nodes s0 p = Some e" and B: "dom B \<subseteq> dom (blocks s0)"
    and d: "e_data e \<noteq> NULL" "B (e_data e) = Some bs" "unat (e_size e) \<le> length bs"
  shows "freeOnListFree l p i g (locked m (s0\<lparr>blocks := B\<rparr>)) =
    Done (NULL, g) (locked m (s0\<lparr>blocks := if doFree s0 then B(e_data e := None) else B\<rparr>))"
proof (cases "doFree s0")
  case True
  let ?d = "e_data e"
  let ?S = "\<lambda>C. locked m (s0\<lparr>blocks := C\<rparr>)"
  let ?z = "replicate (unat (e_size e)) 0 @ drop (unat (e_size e)) bs"
  have free: "plat_free ?d (?S C) = Done () (?S (B(?d := None)))"
    if C: "C ?d = Some cs" "dom C \<subseteq> dom (blocks s0)" "C(?d := None) = B(?d := None)" for C cs
  proof -
    have "split_ok (?S C)" using split_ok_fewer_blocks [OF sp C(2)] rdy by (simp add: split_ok_locks)
    then show ?thesis using plat_free_block [of "?S C" ?d cs] C d(1) by simp
  qed
  have "?d \<in> dom (blocks s0)" using d(2) B by blast
  then have z: "plat_free ?d (?S (B(?d \<mapsto> ?z))) = Done () (?S (B(?d := None)))"
    using B by (intro free [of _ ?z]) auto
  have o: "plat_free ?d (?S B) = Done () (?S (B(?d := None)))" using B d(2) by (intro free) auto
  have "c_memset ?d 0 (e_size e) (?S B) = Done () (?S (if e_size e = 0 then B else B(?d \<mapsto> ?z)))"
    using d by (simp add: c_memset_def)
  then show ?thesis using True e z o
    by (cases "cfg_sanitize s0"; cases "e_size e = 0") (simp_all add: freeOnListFree_def ret_def)
next
  case False
  then show ?thesis by (simp add: freeOnListFree_def ret_def)
qed


lemma released_blocks_snoc:
  assumes "doFree s0"
  shows "(released_blocks s0 gone)(e_data (the (nodes s0 p)) := None) = released_blocks s0 (gone @ [p])"
  using assms by (auto simp: released_blocks_def restrict_map_def fun_eq_iff)

interpretation block_freer: visitor freeOnListFree l m "freeing l m s0 ns" for l m s0 ns
proof unfold_locales
  fix p rest i g s
  assume "freeing l m s0 ns (p # rest) i g s"
  then obtain L gone where I: "list_ok s0 l L (gone @ p # rest)" "l_mutex L = m" "ready m s0" "split_ok s0"
      "entries_live s0 (gone @ p # rest)" "ns = gone @ p # rest"
      "s = locked m (s0\<lparr>blocks := released_blocks s0 gone\<rparr>)"
    unfolding freeing_def by blast
  obtain e where e: "nodes s0 p = Some e" "e_next e = hd_or NULL rest" using list_ok_suffix(1) [OF I(1)] by blast
  show "p \<noteq> NULL \<and> (\<exists>e. nodes s p = Some e \<and> e_next e = hd_or NULL rest)"
    using list_ok_suffix(2) [OF I(1)] e I(7) by simp
  let ?B = "released_blocks s0 gone"
  obtain bs where d: "e_data e \<noteq> NULL" "blocks s0 (e_data e) = Some bs" "unat (e_size e) \<le> length bs"
    using I(5) e(1) by (auto simp: entries_live_def)
  have notin: "e_data e \<notin> set (data_of (nodes s0) gone)" using I(5) e(1) by (auto simp: entries_live_def)
  have B: "dom ?B \<subseteq> dom (blocks s0)" "?B (e_data e) = Some bs"
    using notin d(2) by (auto simp: released_blocks_def restrict_map_def split: if_splits)
  have "freeOnListFree l p i g s = Done (NULL, g) (locked m (s0\<lparr>blocks := released_blocks s0 (gone @ [p])\<rparr>))"
    using free_one [OF I(4,3) e(1) B(1) d(1) B(2) d(3)] released_blocks_snoc [of s0 gone p] e(1) I(7)
    by (simp add: released_blocks_def)
  moreover have "freeing l m s0 ns rest (i + 1) g (locked m (s0\<lparr>blocks := released_blocks s0 (gone @ [p])\<rparr>))"
    unfolding freeing_def using I by (intro exI [of _ L] exI [of _ "gone @ [p]"]) simp
  ultimately show "runs (freeOnListFree l p i g) s (\<lambda>(t, g') s'. t = NULL \<and> ready m s' \<and>
      (\<exists>L. lists s' l = Some L \<and> l_mutex L = m) \<and> freeing l m s0 ns rest (i + 1) g' (locked m s'))"
    using I list_okD(2) [OF I(1)] by (auto simp: runs_def ready_with_mutex)
next
  fix i g s
  assume "freeing l m s0 ns [] i g s"
  then show "ready m s \<and> (\<exists>L. lists s l = Some L \<and> l_mutex L = m)"
    by (auto simp: freeing_def ready_with_mutex dest: list_okD(2))
qed

text \<open>The sweep, with the two cases of an empty list.\<close>

lemma free_sweep:
  assumes ok: "list_ok s l L ns" and rdy: "ready (l_mutex L) s" and sp: "split_ok s" and live: "entries_live s ns"
  shows "bnd (linked_list_getSize l) (\<lambda>n. if_do (n \<noteq> 0) (bnd (linked_list_forEach l freeOnListFree ()) (\<lambda>_. ret ()))) s =
    Done () (after_walk L ns (s\<lparr>blocks := released_blocks s ns\<rparr>))"
proof (cases "ns = []")
  case True
  then show ?thesis using forEach_empty [of s l L freeOnListFree "()"] ok rdy list_okD(2) [OF ok]
    by (simp add: linked_list_getSize_def if_do_def ret_def released_blocks_def after_walk_def restrict_map_def)
next
  case False
  then have "l_len L \<noteq> 0" using list_ok_len_pos [of s l L] ok by (cases ns) auto
  moreover have "freeing l (l_mutex L) s ns ns 0 () (locked (l_mutex L) s)"
    using assms by (auto simp: freeing_def released_blocks_def intro!: exI [of _ L] exI [of _ "[]"])
  from block_freer.forEach_visits [OF ok False refl rdy this]
  have "linked_list_forEach l freeOnListFree () s = Done (NULL, ()) (after_walk L ns (s\<lparr>blocks := released_blocks s ns\<rparr>))"
    using False by (auto simp: runs_def freeing_def after_walk_def)
  ultimately show ?thesis using list_okD(2) [OF ok] by (simp add: linked_list_getSize_def if_do_def ret_def)
qed


definition all_freed :: "machine \<Rightarrow> linked_list_t \<Rightarrow> ptr list \<Rightarrow> machine \<Rightarrow> bool" where
  "all_freed s L ns t \<longleftrightarrow>
     blocks t = released_blocks s ns \<and>
     nodes t = nodes s |` (- set (l_head L # ns)) \<and>
     lists t = (lists s)(mem_list s := None) \<and>
     managers t = (managers s)(memory_manager s := None) \<and>
     dom (mutexes t) = dom (mutexes s) - ({l_mutex L, alloc_mutex s} - {NULL})"

lemma dom_without: "dom (mutexes (without_mutex m s)) = (if m = NULL then dom (mutexes s) else dom (mutexes s) - {m})"
  by (auto simp: without_mutex_def split: if_splits)

lemma without_mutex_fields [simp]:
  "nodes (without_mutex m s) = nodes s" "lists (without_mutex m s) = lists s" "blocks (without_mutex m s) = blocks s"
  "managers (without_mutex m s) = managers s" "mem_list (without_mutex m s) = mem_list s"
  "memory_manager (without_mutex m s) = memory_manager s" "current (without_mutex m s) = current s"
  "cfg_mutex (without_mutex m s) = cfg_mutex s" "alloc_mutex (without_mutex m s) = alloc_mutex s"
  by (simp_all add: without_mutex_def)

lemma without_mutex_split: "split_ok s \<Longrightarrow> split_ok (without_mutex m s)"
  by (rule split_ok_cong) (auto simp: without_mutex_def)

lemma without_mutex_ready: "ready m s \<Longrightarrow> m \<noteq> x \<or> m = NULL \<Longrightarrow> ready m (without_mutex x s)"
  by (auto simp: ready_def without_mutex_def)

lemma doexit_runs:
  assumes ok: "sn_ok s L M ns" and live: "entries_live s ns"
  shows "runs doexit s (\<lambda>_ t. all_freed s L ns t)"
proof -
  note D = sn_okD [OF ok]
  let ?l = "mem_list s" and ?am = "alloc_mutex s" and ?m = "l_mutex L"
  let ?s1 = "after_walk L ns (s\<lparr>blocks := released_blocks s ns\<rparr>)"
  have "dom (released_blocks s ns) \<subseteq> dom (blocks s)" by (auto simp: released_blocks_def restrict_map_def split: if_splits)
  then have sp1: "split_ok ?s1" using split_ok_fewer_blocks [OF D(6)] D(2) by (intro after_walk_split) simp_all
  have dm: "dom (mutexes ?s1) = dom (mutexes s)"
    using D(2,10) by (auto simp: after_walk_def locked_def unlocked_def with_mutex_def mutexes_ok_def)
  have mx: "?m \<noteq> NULL \<Longrightarrow> ?m \<in> dom (mutexes s)" "?am \<noteq> NULL \<Longrightarrow> ?am \<in> dom (mutexes s)" "?m = ?am \<Longrightarrow> ?m = NULL"
    using D(10) by (auto simp: mutexes_ok_def)
  let ?s2 = "without_mutex ?am ?s1"
  have g: "mem_list ?s1 = ?l" "alloc_mutex ?s1 = ?am" "memory_manager ?s1 = memory_manager s"
    by (simp_all add: after_walk_def)
  have 1: "plat_mutex_destroy ?am ?s1 = Done () ?s2"
    by (rule mutex_destroy_eq [OF sp1]) (use mx(2) dm in blast)
  have sp2: "split_ok ?s2" by (rule without_mutex_split [OF sp1])
  have ok2: "list_ok ?s2 ?l L ns" by (rule list_ok_cong [OF D(1)]) simp_all
  have rdy2: "ready ?m ?s2" using D(2) mx(3) by (intro without_mutex_ready after_walk_ready) auto
  have mx2: "?m \<noteq> NULL \<Longrightarrow> mutexes ?s2 ?m \<noteq> None"
    using mx dm dom_without [of ?am ?s1] by (metis Diff_iff domIff empty_iff insert_iff)
  let ?s3 = "without_mutex ?m (?s2\<lparr>nodes := (nodes ?s2) |` (- set (l_head L # ns)), lists := (lists ?s2)(?l := None)\<rparr>)"
  have 2: "linked_list_destroy ?l ?s2 = Done () ?s3" by (rule destroy_eq [OF ok2 rdy2 sp2 mx2])
  have "split_ok ?s3"
    by (intro without_mutex_split split_ok_cong [OF sp2]) (auto simp: restrict_map_def split: if_splits)
  then have 3: "memman_destroy (memory_manager s) ?s3 =
      Done () (?s3\<lparr>managers := (managers ?s3)(memory_manager s := None)\<rparr>)"
    using plat_free_manager [of ?s3 "memory_manager s" M] D(8,9) by (simp add: memman_destroy_def)
  have "doexit s = bnd (bnd (linked_list_getSize ?l) (\<lambda>n.
      if_do (n \<noteq> 0) (bnd (linked_list_forEach ?l freeOnListFree ()) (\<lambda>_. ret ())))) (\<lambda>_.
      bnd (gets alloc_mutex) (\<lambda>am. bnd (plat_mutex_destroy am) (\<lambda>_. bnd (linked_list_destroy ?l) (\<lambda>_.
      bnd (gets memory_manager) (\<lambda>m. memman_destroy m))))) s"
    by (simp add: doexit_def)
  also have "\<dots> = bnd (gets alloc_mutex) (\<lambda>am. bnd (plat_mutex_destroy am) (\<lambda>_. bnd (linked_list_destroy ?l) (\<lambda>_.
      bnd (gets memory_manager) (\<lambda>m. memman_destroy m)))) ?s1"
    unfolding bnd_def [of "bnd (linked_list_getSize ?l) _"] free_sweep [OF D(1,2,6) live] by simp
  also have "\<dots> = Done () (?s3\<lparr>managers := (managers ?s3)(memory_manager s := None)\<rparr>)"
    using 1 2 3 g by simp
  finally have "doexit s = Done () (?s3\<lparr>managers := (managers ?s3)(memory_manager s := None)\<rparr>)" .
  moreover have "all_freed s L ns (?s3\<lparr>managers := (managers ?s3)(memory_manager s := None)\<rparr>)"
    using dm by (auto simp: all_freed_def dom_without)
  ultimately show ?thesis by (simp add: runs_def)
qed

end
