(* ===== verification/Api_Contract.thy ===== *)
theory Api_Contract
  imports SN_Setup
begin

text \<open>
  The public calls on the abstract state. \<open>serves m s a R\<close>: started in \<open>s\<close>, which shows the
  abstract state \<open>a\<close>, the call returns some \<open>r\<close> in a state that shows some \<open>b\<close> with
  \<open>R r b\<close>, or ends the program with \<open>abort\<close>; \<open>answers m s a R\<close> is the same without the
  \<open>abort\<close>. Neither allows undefined behaviour, an endless loop or a wait for a lock, and
  every lock that was free is free again, up to the one a walk over an emptied list leaves.
\<close>

section \<open>Contracts\<close>

definition list_mutex :: "machine \<Rightarrow> ptr" where
  "list_mutex s = (case lists s (mem_list s) of None \<Rightarrow> NULL | Some L \<Rightarrow> l_mutex L)"

definition may_leak :: "machine \<Rightarrow> sn_state \<Rightarrow> ptr set" where
  "may_leak s a = (if registry a = [] then {list_mutex s} else {})"

definition serves :: "'a lib \<Rightarrow> machine \<Rightarrow> sn_state \<Rightarrow> ('a \<Rightarrow> sn_state \<Rightarrow> bool) \<Rightarrow> bool" where
  "serves m s a R \<longleftrightarrow> ends m s (\<lambda>r t. keeps_locks (may_leak s a) s t \<and> (\<exists>b. models t b \<and> R r b)) (\<lambda>h. h = Aborted)"

definition answers :: "'a lib \<Rightarrow> machine \<Rightarrow> sn_state \<Rightarrow> ('a \<Rightarrow> sn_state \<Rightarrow> bool) \<Rightarrow> bool" where
  "answers m s a R \<longleftrightarrow> runs m s (\<lambda>r t. keeps_locks (may_leak s a) s t \<and> (\<exists>b. models t b \<and> R r b))"

lemma answers_serves: "answers m s a R \<Longrightarrow> serves m s a R"
  unfolding answers_def serves_def by (rule runs_ends)

lemma serves_mono: "serves m s a R \<Longrightarrow> (\<And>r b. R r b \<Longrightarrow> S r b) \<Longrightarrow> serves m s a S"
  unfolding serves_def by (erule ends_mono) blast+

lemma answers_mono: "answers m s a R \<Longrightarrow> (\<And>r b. R r b \<Longrightarrow> S r b) \<Longrightarrow> answers m s a S"
  unfolding answers_def by (erule runs_mono) blast

lemma models_cases:
  assumes "models s a"
  obtains L M ns where "sn_ok s L M ns" "a = abstract M ns s" "leaks L ns \<subseteq> may_leak s a"
proof -
  obtain L M ns where ok: "sn_ok s L M ns" "a = abstract M ns s" using assms by (auto simp: models_def)
  have "lists s (mem_list s) = Some L" using list_okD(2) [OF sn_okD(1) [OF ok(1)]] .
  then have "leaks L ns \<subseteq> may_leak s a"
    by (simp add: leaks_def may_leak_def ok(2) abstract_def blocks_of_def list_mutex_def)
  then show ?thesis using ok that by blast
qed

lemma keeps_locks_sub: "keeps_locks A s t \<Longrightarrow> A \<subseteq> B \<Longrightarrow> keeps_locks B s t"
  unfolding keeps_locks_def by blast

lemma answersI:
  assumes "runs m s (\<lambda>r t. keeps_locks A s t \<and> (\<exists>b. models t b \<and> R r b))" "A \<subseteq> may_leak s a"
  shows "answers m s a R"
  unfolding answers_def by (rule runs_mono [OF assms(1)]) (use keeps_locks_sub [OF _ assms(2)] in blast)

lemma servesI:
  assumes "ends m s (\<lambda>r t. keeps_locks A s t \<and> (\<exists>b. models t b \<and> R r b)) (\<lambda>h. h = Aborted)" "A \<subseteq> may_leak s a"
  shows "serves m s a R"
  unfolding serves_def by (rule ends_mono [OF assms(1)]) (use keeps_locks_sub [OF _ assms(2)] in blast)+

section \<open>Allocation and release\<close>

lemma malloc_serves:
  assumes "models s a" "room s"
  shows "serves (sn_malloc n) s a (malloc_spec (cfg_sanitize s) (thread_id s) n a)"
  using assms(1)
proof (rule models_cases)
  fix L M ns assume "sn_ok s L M ns" and a: "a = abstract M ns s"
  then show ?thesis unfolding a by (intro servesI [OF malloc_refines [OF _ assms(2)]]) simp_all
qed

lemma calloc_serves:
  assumes "models s a" "room s"
  shows "serves (sn_calloc num n) s a (calloc_spec (thread_id s) num n a)"
  using assms(1)
proof (rule models_cases)
  fix L M ns assume "sn_ok s L M ns" and a: "a = abstract M ns s"
  then show ?thesis unfolding a by (intro servesI [OF calloc_refines [OF _ assms(2)]]) simp_all
qed

definition filled :: "ptr \<Rightarrow> size_t \<Rightarrow> byte \<Rightarrow> sn_state \<Rightarrow> sn_state" where
  "filled r n v b = (if r = NULL then b else b\<lparr>memory := (memory b)(r \<mapsto> replicate (unat n) v)\<rparr>)"

lemma malloc_pre_initialized_serves:
  assumes "models s a" "room s"
  shows "serves (sn_malloc_pre_initialized n v) s a
    (\<lambda>r c. \<exists>b. malloc_spec (cfg_sanitize s) (thread_id s) n a r b \<and> c = filled r n v b)"
  using assms(1)
proof (rule models_cases)
  fix L M ns assume ok: "sn_ok s L M ns" and a: "a = abstract M ns s"
  show ?thesis unfolding a filled_def
    by (rule servesI [of _ _ "{}"], rule ends_mono [OF malloc_pre_initialized_refines [OF ok assms(2)]]) blast+
qed

lemma free_answers:
  assumes "models s a" "owned a"
  shows "answers (sn_free p) s a (\<lambda>_ b. b = free_spec p a)"
  using assms(1)
proof (rule models_cases)
  fix L M ns assume ok: "sn_ok s L M ns" and a: "a = abstract M ns s" and l: "leaks L ns \<subseteq> may_leak s a"
  show ?thesis by (rule answersI [OF _ l], rule runs_mono [OF free_refines [OF ok]]) (use assms(2) a in auto)
qed

text \<open>\<open>realloc\<close> is only safe for a block that is not in the cache.\<close>

definition uncached :: "machine \<Rightarrow> ptr \<Rightarrow> bool" where
  "uncached s p \<longleftrightarrow> (\<forall>M. managers s (memory_manager s) = Some M \<longrightarrow> (\<forall>c \<in> set (m_cache_list M). cp_key c \<noteq> p))"

lemma realloc_answers:
  assumes "models s a" "owned a" "uncached s p"
  shows "answers (sn_realloc p n) s a (realloc_spec p n a)"
  using assms(1)
proof (rule models_cases)
  fix L M ns assume ok: "sn_ok s L M ns" and a: "a = abstract M ns s" and l: "leaks L ns \<subseteq> may_leak s a"
  have "\<forall>c \<in> set (m_cache_list M). cp_key c \<noteq> p" using assms(3) sn_okD(8) [OF ok] by (simp add: uncached_def)
  then show ?thesis using realloc_refines [OF ok] assms(2) l unfolding a by (intro answersI) auto
qed

section \<open>Registration\<close>

definition registered :: "ptr \<Rightarrow> size_t \<Rightarrow> tid_t \<Rightarrow> sn_state \<Rightarrow> sn_state" where
  "registered p n t a = a\<lparr>registry := registry a @ [\<lparr>tb_data = p, tb_size = n, tb_tid = t, tb_id = 0\<rparr>]\<rparr>"

lemma register_serves:
  assumes "models s a" "room s"
  shows "serves (sn_register p) s a (\<lambda>r b. r = p \<and> b = registered p 0 (thread_id s) a)"
  using assms(1)
proof (rule models_cases)
  fix L M ns assume ok: "sn_ok s L M ns" and a: "a = abstract M ns s" and l: "leaks L ns \<subseteq> may_leak s a"
  show ?thesis by (rule servesI [OF _ l], rule ends_mono [OF register_ends [OF ok assms(2)]])
      (auto simp: a registered_def)
qed

lemma register_size_serves:
  assumes "models s a" "room s"
  shows "serves (sn_register_size p n) s a (\<lambda>r b. (r, b) = register_spec (thread_id s) p n a)"
  using assms(1)
proof (rule models_cases)
  fix L M ns assume ok: "sn_ok s L M ns" and a: "a = abstract M ns s" and l: "leaks L ns \<subseteq> may_leak s a"
  show ?thesis by (rule servesI [OF _ l], rule ends_mono [OF register_size_ends [OF ok assms(2)]])
      (auto simp: a prod_eq_iff)
qed

section \<open>Queries\<close>

text \<open>The concrete data behind an abstract state is determined by the machine.\<close>

lemma seg_unique:
  "\<lbrakk>seg h p ns NULL; seg h p ms NULL; NULL \<notin> set ns; NULL \<notin> set ms; hd_or NULL ns = hd_or NULL ms\<rbrakk> \<Longrightarrow> ns = ms"
proof (induction ns arbitrary: p ms)
  case Nil
  then show ?case by (cases ms) (auto simp: hd_or_def)
next
  case (Cons n ns)
  then obtain m ms' where ms: "ms = m # ms'" by (cases ms) (auto simp: hd_or_def)
  then have [simp]: "m = n" using Cons.prems(5) by (simp add: hd_or_def)
  have "hd_or NULL ns = hd_or NULL ms'" using Cons.prems(1,2) ms by auto
  then show ?case using Cons.IH [of n ms'] Cons.prems ms by simp
qed

lemma sn_ok_unique:
  assumes "sn_ok s L M ns" "sn_ok s L' M' ns'"
  shows "L' = L" "M' = M" "ns' = ns"
proof -
  note D = list_okD [OF sn_okD(1) [OF assms(1)]] and E = list_okD [OF sn_okD(1) [OF assms(2)]]
  show L: "L' = L" using D(2) E(2) by simp
  show "M' = M" using sn_okD(8) [OF assms(1)] sn_okD(8) [OF assms(2)] by simp
  have 1: "seg (nodes s) NULL (l_head L # ns) NULL" by (rule D(3))
  have 2: "seg (nodes s) NULL (l_head L # ns') NULL" using E(3) by (simp only: L)
  have "hd_or NULL ns = hd_or NULL ns'" using 1 2 by auto
  moreover have "seg (nodes s) (l_head L) ns NULL" "seg (nodes s) (l_head L) ns' NULL" using 1 2 by simp_all
  ultimately show "ns' = ns" using seg_unique [of "nodes s" "l_head L" ns ns'] D(5) E(5) by simp
qed

lemma models_unique: "models s a \<Longrightarrow> models s b \<Longrightarrow> a = b"
  unfolding models_def by (elim exE conjE, frule (1) sn_ok_unique(2), drule (1) sn_ok_unique(3)) simp

text \<open>\<open>cached s p\<close>: after the cache pass the calls start with, \<open>p\<close> is in the cache.\<close>

definition cached :: "machine \<Rightarrow> ptr \<Rightarrow> bool" where
  "cached s p \<longleftrightarrow> (\<exists>L M ns. sn_ok s L M ns \<and> query_cached s M ns p)"

text \<open>What a lookup of \<open>p\<close> does to the abstract state, null pointer included.\<close>

definition queried :: "ptr \<Rightarrow> sn_state \<Rightarrow> sn_state" where
  "queried p a = (if p = NULL then failed SN_ERR_NULL_PTR a else looked_up p a)"

lemma query_size_null:
  assumes ok: "sn_ok s L M ns"
  shows "runs (sn_query_size NULL) s (\<lambda>r t. r = 0 \<and> keeps_locks (leaks L ns) s t \<and>
    models t (failed SN_ERR_NULL_PTR (abstract M ns s)))"
proof -
  obtain s1 where w: "do_work s = Done () s1"
    and r1: "reads (leaks L ns) (error_code s) s L M ns s1 L (worked_manager M ns s)"
    using do_work_runs [OF ok] by (auto simp: runs_def)
  show ?thesis using error_after [OF ok r1, of SN_ERR_NULL_PTR "0 :: size_t"] w
    by (simp add: sn_query_size_def runs_def)
qed

lemma query_size_answers:
  assumes "models s a"
  shows "answers (sn_query_size p) s a (\<lambda>r b. b = queried p a \<and>
    r = (if p = NULL then 0 else case find_block p (registry a) of None \<Rightarrow> 0 | Some b \<Rightarrow> tb_size b))"
  using assms(1)
proof (rule models_cases)
  fix L M ns assume ok: "sn_ok s L M ns" and a: "a = abstract M ns s" and l: "leaks L ns \<subseteq> may_leak s a"
  show ?thesis
  proof (cases "p = NULL")
    case True
    show ?thesis by (rule answersI [OF _ l], rule runs_mono, unfold True, rule query_size_null [OF ok])
        (auto simp: a queried_def)
  next
    case False
    show ?thesis by (rule answersI [OF _ l], rule runs_mono [OF query_size_runs [OF ok False]])
        (use False in \<open>auto simp: a queried_def\<close>)
  qed
qed

text \<open>
  The cache-first queries: the recorded value when the block is cached, the failure value
  otherwise, even for a tracked block, and then with no error set.
\<close>

lemma owned_distinct: "owned (abstract M ns s) \<Longrightarrow> distinct (map tb_data (blocks_of (nodes s) ns))"
  by (simp add: owned_def abstract_def)

lemma cached_iff: "sn_ok s L M ns \<Longrightarrow> cached s p = query_cached s M ns p"
  unfolding cached_def by (auto dest: sn_ok_unique)

lemma cached_tracked:
  assumes "sn_ok s L M ns" "p \<noteq> NULL" "query_cached s M ns p" "distinct (map tb_data (blocks_of (nodes s) ns))"
  shows "\<exists>x. find_block p (registry (abstract M ns s)) = Some x"
proof -
  have "\<exists>q e t. q \<in> set ns \<and> nodes s q = Some e \<and> e_data e = p \<and>
    find_block p (registry (abstract M ns s)) = Some (block_of e) \<and>
    reads (leaks L ns) (error_code s) s L M ns t L (worked_manager M ns s) \<and>
    cached_query p () (\<lambda>_. ret ()) s = ret () t"
    by (rule cached_query_hit [OF assms])
  then show ?thesis by (elim exE conjE) simp
qed

lemma cached_getter_answers:
  assumes "models s a" "owned a" and g: "\<And>e. g (block_of e) = f e"
  shows "answers (cached_query p v (entry_get d f)) s a (\<lambda>r b. b = queried p a \<and>
    (if p \<noteq> NULL \<and> cached s p then \<exists>x. find_block p (registry a) = Some x \<and> r = g x else r = v))"
  using assms(1)
proof (rule models_cases)
  fix L M ns assume ok: "sn_ok s L M ns" and a: "a = abstract M ns s" and l: "leaks L ns \<subseteq> may_leak s a"
  have dist: "distinct (map tb_data (blocks_of (nodes s) ns))" using assms(2) a by (simp add: owned_distinct)
  show ?thesis
  proof (cases "p = NULL")
    case True
    show ?thesis by (rule answersI [OF _ l], rule runs_mono, unfold True, rule cached_query_null [OF ok])
        (auto simp: a queried_def)
  next
    case False
    have "\<exists>x. find_block p (registry a) = Some x" if "cached s p"
      using cached_tracked [OF ok False _ dist] that by (simp add: a cached_iff [OF ok])
    then show ?thesis
      by (intro answersI [OF _ l] runs_mono [OF cached_getter_runs [where g = g, OF ok False dist]])
        (auto simp: a queried_def False cached_iff [OF ok] g)
  qed
qed

lemma query_tid_answers:
  assumes "models s a" "owned a"
  shows "answers (sn_query_tid p) s a (\<lambda>r b. b = queried p a \<and>
    (if p \<noteq> NULL \<and> cached s p then \<exists>x. find_block p (registry a) = Some x \<and> r = tb_tid x else r = 0))"
  unfolding query_tid_cached by (rule cached_getter_answers [OF assms]) simp

lemma get_block_id_answers:
  assumes "models s a" "owned a"
  shows "answers (sn_get_block_id p) s a (\<lambda>r b. b = queried p a \<and>
    (if p \<noteq> NULL \<and> cached s p then \<exists>x. find_block p (registry a) = Some x \<and> r = tb_id x else r = 0))"
  unfolding get_block_id_cached by (rule cached_getter_answers [OF assms]) simp

section \<open>Block ids\<close>

lemma null_or_low_id:
  assumes ok: "sn_ok s L M ns" and bad: "p = NULL \<or> i \<le> 20"
  shows "runs (sn_set_block_id p i) s (\<lambda>_ t. keeps_locks (leaks L ns) s t \<and>
    models t (failed (if p = NULL then SN_ERR_NULL_PTR else SN_ERR_BAD_BLOCK_ID) (abstract M ns s)))"
proof -
  obtain s1 where w: "do_work s = Done () s1"
    and r1: "reads (leaks L ns) (error_code s) s L M ns s1 L (worked_manager M ns s)"
    using do_work_runs [OF ok] by (auto simp: runs_def)
  show ?thesis using w bad error_after [OF ok r1, of SN_ERR_NULL_PTR "()"]
      error_after [OF ok r1, of SN_ERR_BAD_BLOCK_ID "()"]
    by (cases "p = NULL") (simp_all add: sn_set_block_id_def runs_def)
qed

text \<open>The id is recorded when the block is cached; otherwise nothing happens, without an
  error if the block is tracked.\<close>

definition set_id_spec :: "bool \<Rightarrow> ptr \<Rightarrow> block_id_t \<Rightarrow> sn_state \<Rightarrow> sn_state" where
  "set_id_spec c p i a =
     (if p = NULL then failed SN_ERR_NULL_PTR a
      else if i \<le> 20 then failed SN_ERR_BAD_BLOCK_ID a
      else if c then a\<lparr>registry := with_id p i (registry a)\<rparr>
      else looked_up p a)"

lemma set_block_id_answers:
  assumes "models s a" "owned a"
  shows "answers (sn_set_block_id p i) s a (\<lambda>_ b. b = set_id_spec (cached s p) p i a)"
  using assms(1)
proof (rule models_cases)
  fix L M ns assume ok: "sn_ok s L M ns" and a: "a = abstract M ns s" and l: "leaks L ns \<subseteq> may_leak s a"
  have dist: "distinct (map tb_data (blocks_of (nodes s) ns))" using assms(2) a by (simp add: owned_distinct)
  consider (bad) "p = NULL \<or> i \<le> 20" | (hit) "p \<noteq> NULL" "20 < i" "query_cached s M ns p"
    | (miss) "p \<noteq> NULL" "20 < i" "\<not> query_cached s M ns p" by (metis not_le)
  then show ?thesis
  proof cases
    case bad
    show ?thesis by (rule answersI [OF runs_mono [OF null_or_low_id [OF ok bad]] l])
        (use bad in \<open>auto simp: set_id_spec_def a\<close>)
  next
    case hit
    show ?thesis by (rule answersI [OF runs_mono [OF set_block_id_hit [OF ok hit dist]] l])
        (use hit in \<open>auto simp: set_id_spec_def a cached_iff [OF ok] not_le\<close>)
  next
    case miss
    show ?thesis by (rule answersI [OF runs_mono [OF set_block_id_miss [OF ok miss]] l])
        (use miss in \<open>auto simp: set_id_spec_def a cached_iff [OF ok] not_le\<close>)
  qed
qed

text \<open>Searching by id answers with the data of a block with that id, or null.\<close>

definition has_id :: "block_id_t \<Rightarrow> sn_state \<Rightarrow> bool" where
  "has_id i a \<longleftrightarrow> (\<exists>x \<in> set (registry a). tb_id x = i)"

lemma query_block_id_miss:
  assumes ok: "sn_ok s L M ns" and i: "i \<noteq> 0" and w: "do_work s = Done () s1"
    and r1: "reads (leaks L ns) (error_code s) s L M ns s1 L (worked_manager M ns s)"
    and miss: "cached_id (nodes s1) (worked_manager M ns s) i = MEMMAN_CACHE_MISS"
  shows "runs (sn_query_block_id i) s (\<lambda>r t. r = NULL \<and> keeps_locks (if ns = [] then {l_mutex L} else {}) s t \<and>
    models t (if has_id i (abstract M ns s) then abstract M ns s
      else failed SN_ERR_NO_ADDER_FOUND (abstract M ns s)))"
proof -
  let ?M = "worked_manager M ns s" and ?A = "if ns = [] then {l_mutex L} else {}"
  have sub: "leaks L ns \<subseteq> ?A" by (simp add: leaks_def)
  obtain s2 where c: "memman_TryCacheHitById (memory_manager s1) i s1 = Done MEMMAN_CACHE_MISS s2"
    and r2: "reads {} (error_code s1) s1 L ?M ns s2 L ?M"
    using reads_TryCacheHitById [OF readsD(1) [OF r1], of i] miss by (auto simp: runs_def)
  let ?q = "lookup (\<lambda>e. e_block_id e = i) (nodes s2) ns"
  obtain s3 L3 where g: "linked_list_getById (mem_list s2) i s2 = Done ?q s3"
    and r3: "reads ?A (error_code s2) s2 L ?M ns s3 L3 ?M"
    using reads_getById [OF readsD(1) [OF r2], of i] by (auto simp: runs_def)
  have r12: "reads ?A (error_code s) s L M ns s2 L ?M"
    using reads_mono [OF reads_trans [OF r1 r2], of ?A] sub readsD(3) [OF r1] by simp
  have r: "reads ?A (error_code s) s L M ns s3 L3 ?M"
    using reads_trans [OF r12 r3] readsD(3) [OF r12] by simp
  have bs: "blocks_of (nodes s2) ns = blocks_of (nodes s) ns"
    by (rule blocks_of_cores [OF readsD(2) [OF r12] sn_ok_dom [OF ok]])
  have "?q = NULL \<longleftrightarrow> (\<forall>p \<in> set ns. e_block_id (the (nodes s2 p)) \<noteq> i)"
    by (rule lookup_NULL_iff) (use list_okD(5) [OF sn_okD(1) [OF ok]] in simp)
  also have "\<dots> \<longleftrightarrow> \<not> has_id i (abstract M ns s)"
    unfolding has_id_def registry_abstract bs [symmetric] by (auto simp: blocks_of_def)
  finally have q: "?q = NULL \<longleftrightarrow> \<not> has_id i (abstract M ns s)" .
  have eq: "sn_query_block_id i s = sn_error_unbraced (?q = NULL) SN_ERR_NO_ADDER_FOUND NULL s3"
    using w c g i readsD(11) [OF r2] by (simp add: sn_query_block_id_def)
  show ?thesis
  proof (cases "?q = NULL")
    case True
    then have "sn_query_block_id i s = sn_error SN_ERR_NO_ADDER_FOUND NULL s3"
      using eq by (simp add: sn_error_unbraced_def sn_error_def bnd_def)
    then show ?thesis using error_after [OF ok r, of SN_ERR_NO_ADDER_FOUND NULL] q True by (simp add: runs_def)
  next
    case False
    then have "sn_query_block_id i s = Done NULL s3" using eq by (simp add: sn_error_unbraced_def ret_def)
    moreover have "models s3 (abstract M ns s)" by (rule reads_models_error [OF ok r]) (simp add: abstract_same_error)
    ultimately show ?thesis using reads_keeps [OF r] q False by (simp add: runs_def)
  qed
qed

lemma query_block_id_hit:
  assumes ok: "sn_ok s L M ns" and i: "i \<noteq> 0" and w: "do_work s = Done () s1"
    and r1: "reads (leaks L ns) (error_code s) s L M ns s1 L (worked_manager M ns s)"
    and hit: "cached_id (nodes s1) (worked_manager M ns s) i \<noteq> MEMMAN_CACHE_MISS"
  shows "runs (sn_query_block_id i) s (\<lambda>r t. keeps_locks (leaks L ns) s t \<and> models t (abstract M ns s) \<and>
    (\<exists>x \<in> set (registry (abstract M ns s)). tb_id x = i \<and> tb_data x = r))"
proof -
  let ?M = "worked_manager M ns s" and ?v = "cached_id (nodes s1) (worked_manager M ns s) i"
  obtain s2 where c: "memman_TryCacheHitById (memory_manager s1) i s1 = Done ?v s2"
    and r2: "reads {} (error_code s1) s1 L ?M ns s2 L ?M"
    using reads_TryCacheHitById [OF readsD(1) [OF r1], of i] by (auto simp: runs_def)
  have r12: "reads (leaks L ns) (error_code s) s L M ns s2 L ?M"
    using reads_trans [OF r1 r2] readsD(3) [OF r1] by simp
  obtain e1 where v: "?v \<in> set ns" "nodes s1 ?v = Some e1" "e_block_id e1 = i"
    using cached_id_hit [OF sn_okD(5) [OF readsD(1) [OF r1]] hit] by blast
  obtain e2 where e2: "nodes s2 ?v = Some e2" "core e2 = core e1" using cores_Some [OF readsD(2) [OF r2] v(2)] .
  have "sn_query_block_id i s = Done (e_data e1) s2"
    using w c hit i e2 core_eqD(3) [OF e2(2)]
    by (simp add: sn_query_block_id_def linked_list_entry_getData_def MEMMAN_CACHE_MISS_def)
  moreover have "block_of e1 \<in> set (blocks_of (nodes s1) ns)" using v by (force simp: blocks_of_def)
  then have "block_of e1 \<in> set (registry (abstract M ns s))"
    using blocks_of_cores [OF readsD(2) [OF r1] sn_ok_dom [OF ok]] by (simp add: registry_abstract)
  moreover have "models s2 (abstract M ns s)"
    by (rule reads_models_error [OF ok r12]) (simp add: abstract_same_error)
  ultimately show ?thesis using v(3) reads_keeps [OF r12] by (force simp: runs_def)
qed

text \<open>\<open>i_found\<close>: found in the cache; a block only the list has is not reported.\<close>

lemma query_block_id_answers:
  assumes "models s a"
  shows "answers (sn_query_block_id i) s a (\<lambda>r b.
    if i = 0 then r = NULL \<and> b = failed SN_ERR_BAD_BLOCK_ID a
    else (\<exists>x \<in> set (registry a). tb_id x = i \<and> tb_data x = r) \<and> b = a \<or>
      r = NULL \<and> b = (if has_id i a then a else failed SN_ERR_NO_ADDER_FOUND a))"
  using assms
proof (rule models_cases)
  fix L M ns assume ok: "sn_ok s L M ns" and a: "a = abstract M ns s" and l: "leaks L ns \<subseteq> may_leak s a"
  obtain s1 where w: "do_work s = Done () s1"
    and r1: "reads (leaks L ns) (error_code s) s L M ns s1 L (worked_manager M ns s)"
    using do_work_runs [OF ok] by (auto simp: runs_def)
  have l': "(if ns = [] then {l_mutex L} else {}) \<subseteq> may_leak s a"
    using sn_ok_lists [OF ok] by (simp add: may_leak_def a abstract_def blocks_of_def list_mutex_def)
  consider "i = 0" | "i \<noteq> 0" "cached_id (nodes s1) (worked_manager M ns s) i = MEMMAN_CACHE_MISS"
    | "i \<noteq> 0" "cached_id (nodes s1) (worked_manager M ns s) i \<noteq> MEMMAN_CACHE_MISS" by blast
  then show ?thesis
  proof cases
    case 1
    then have "runs (sn_query_block_id i) s (\<lambda>r t. r = NULL \<and> keeps_locks (leaks L ns) s t \<and>
        models t (failed SN_ERR_BAD_BLOCK_ID a))"
      using w error_after [OF ok r1, of SN_ERR_BAD_BLOCK_ID NULL] by (simp add: sn_query_block_id_def runs_def a)
    then show ?thesis by (intro answersI [OF _ l], elim runs_mono) (use 1 in auto)
  next
    case 2
    show ?thesis by (rule answersI [OF runs_mono [OF query_block_id_miss [OF ok 2(1) w r1 2(2)]] l'])
        (use 2 a in auto)
  next
    case 3
    show ?thesis by (rule answersI [OF runs_mono [OF query_block_id_hit [OF ok 3(1) w r1 3(2)]] l])
        (use 3 a in auto)
  qed
qed

section \<open>The other queries\<close>

lemma is_tracked_null:
  assumes ok: "sn_ok s L M ns"
  shows "runs (sn_is_tracked_block NULL) s (\<lambda>r t. r = False \<and> keeps_locks (leaks L ns) s t \<and>
    models t (failed SN_ERR_NULL_PTR (abstract M ns s)))"
proof -
  obtain s1 where w: "do_work s = Done () s1"
    and r1: "reads (leaks L ns) (error_code s) s L M ns s1 L (worked_manager M ns s)"
    using do_work_runs [OF ok] by (auto simp: runs_def)
  show ?thesis using error_after [OF ok r1, of SN_ERR_NULL_PTR False] w
    by (simp add: sn_is_tracked_block_def runs_def)
qed

lemma is_tracked_answers:
  assumes "models s a" "owned a"
  shows "answers (sn_is_tracked_block p) s a
    (\<lambda>r b. r = (p \<noteq> NULL) \<and> b = (if p = NULL then failed SN_ERR_NULL_PTR a else a))"
  using assms(1)
proof (rule models_cases)
  fix L M ns assume ok: "sn_ok s L M ns" and a: "a = abstract M ns s" and l: "leaks L ns \<subseteq> may_leak s a"
  have dist: "distinct (map tb_data (blocks_of (nodes s) ns))" using assms(2) a by (simp add: owned_distinct)
  show ?thesis
  proof (cases "p = NULL")
    case True
    show ?thesis by (rule answersI [OF _ l], rule runs_mono, unfold True, rule is_tracked_null [OF ok])
        (simp add: a)
  next
    case False
    show ?thesis by (rule answersI [OF runs_mono [OF is_tracked_runs [OF ok False dist]] l]) (use False a in auto)
  qed
qed

lemma thread_usage_answers:
  assumes "models s a"
  shows "answers (sn_query_thread_memory_usage t) s a (\<lambda>r b. r = thread_usage t (registry a) \<and> b = a)"
  using assms
proof (rule models_cases)
  fix L M ns assume ok: "sn_ok s L M ns" and a: "a = abstract M ns s" and l: "leaks L ns \<subseteq> may_leak s a"
  show ?thesis by (rule answersI [OF runs_mono [OF thread_usage_runs [OF ok]] l]) (use a in auto)
qed

lemma keeps_locks_refl [simp]: "keeps_locks A s s"
  by (simp add: keeps_locks_def)

lemma total_usage_answers:
  assumes "models s a"
  shows "answers sn_query_total_memory_usage s a (\<lambda>r b. r = usage a \<and> b = a)"
  using assms
proof (rule models_cases)
  fix L M ns assume ok: "sn_ok s L M ns" and a: "a = abstract M ns s"
  show ?thesis using total_usage_eq [OF ok] assms by (auto simp: answers_def runs_def a)
qed

lemma for_each_answers:
  assumes m: "models s a" and pure: "\<And>md i u. worker md i frame u = Done (f md i) u"
  shows "answers (sn_mem_metadata_for_each worker arg frame) s a (\<lambda>r b. r = NULL \<and> b = a)"
  using m
proof (rule models_cases)
  fix L M ns assume ok: "sn_ok s L M ns" and a: "a = abstract M ns s" and l: "leaks L ns \<subseteq> may_leak s a"
  note r = reads_after_walk [OF ok]
  have "models (after_walk L ns s) a" using reads_models [OF ok r] by (simp add: a abstract_def)
  then show ?thesis using for_each_returns [of worker frame f, OF pure sn_okD(1,2) [OF ok]] reads_keeps [OF r]
    by (intro answersI [OF _ l]) (auto simp: runs_def)
qed

lemma checksum_cached: "sn_calculate_checksum p = cached_query p 0 (\<lambda>entry.
    bnd (linked_list_entry_getSize entry) (\<lambda>n.
    bnd (load_node entry) (\<lambda>e.
    if e_size e = 0 then sn_error SN_ERR_BAD_SIZE 0
    else if n = 1 then bnd (read_bytes p 1) (\<lambda>data. ret (ucast (data ! 0 XOR 255)))
    else bnd (read_bytes p n) (\<lambda>data. ret (checksum_bytes data)))))"
  unfolding sn_calculate_checksum_def cached_query_def ..

lemma checksum_answers:
  assumes "models s a" "owned a"
  shows "answers (sn_calculate_checksum p) s a (\<lambda>r b.
    if p \<noteq> NULL \<and> cached s p
    then \<exists>x bs. find_block p (registry a) = Some x \<and> memory a p = Some bs \<and>
      (if tb_size x = 0 then r = 0 \<and> b = failed SN_ERR_BAD_SIZE a else r = block_checksum (tb_size x) bs \<and> b = a)
    else r = 0 \<and> b = queried p a)"
  using assms(1)
proof (rule models_cases)
  fix L M ns assume ok: "sn_ok s L M ns" and a: "a = abstract M ns s" and l: "leaks L ns \<subseteq> may_leak s a"
  consider (null) "p = NULL" | (hit) "p \<noteq> NULL" "query_cached s M ns p" | (miss) "p \<noteq> NULL" "\<not> query_cached s M ns p"
    by blast
  then show ?thesis
  proof cases
    case null
    show ?thesis unfolding checksum_cached null
      by (rule answersI [OF runs_mono [OF cached_query_null [OF ok]] l]) (auto simp: a queried_def)
  next
    case hit
    obtain x bs where x: "find_block p (registry a) = Some x" "blocks s p = Some bs" and
      run: "runs (sn_calculate_checksum p) s (\<lambda>r t. keeps_locks (leaks L ns) s t \<and>
      (if tb_size x = 0 then r = 0 \<and> models t (failed SN_ERR_BAD_SIZE a)
       else r = block_checksum (tb_size x) bs \<and> models t a))"
      using checksum_hit [OF ok _ hit] assms(2) unfolding a by blast
    have m: "memory a p = Some bs" using x(2) by (simp add: a abstract_def)
    show ?thesis by (rule answersI [OF runs_mono [OF run] l])
        (use hit x(1) m in \<open>auto simp: cached_iff [OF ok] split: if_splits\<close>)
  next
    case miss
    show ?thesis unfolding checksum_cached
      by (rule answersI [OF runs_mono [OF cached_query_miss [OF ok miss]] l])
        (use miss in \<open>auto simp: a queried_def cached_iff [OF ok]\<close>)
  qed
qed

section \<open>The metadata view\<close>

text \<open>The view is the address of the entry's \<open>data\<close> field; it is handed out for cached blocks.\<close>

definition view_of :: "ptr \<Rightarrow> tracked_block \<Rightarrow> machine \<Rightarrow> bool" where
  "view_of r x t \<longleftrightarrow> (\<exists>e. nodes t (r - metadata_offset) = Some e \<and> block_of e = x)"

lemma query_metadata_runs:
  assumes ok: "sn_ok s L M ns" and dist: "distinct (map tb_data (blocks_of (nodes s) ns))"
  shows "runs (sn_query_metadata p) s (\<lambda>r t. \<exists>L' M'. sn_ok t L' M' ns \<and> keeps_locks (leaks L ns) s t \<and>
    leaks L' ns = leaks L ns \<and> thread_id t = thread_id s \<and> cfg_sanitize t = cfg_sanitize s \<and> l_len L' = l_len L \<and>
    abstract M' ns t = queried p (abstract M ns s) \<and>
    (if p \<noteq> NULL \<and> query_cached s M ns p
     then \<exists>x. find_block p (registry (abstract M ns s)) = Some x \<and> view_of r x t else r = NULL))"
    (is "runs _ _ ?Q")
proof -
  have fin: "?Q r t" if r: "reads (leaks L ns) e s L M ns t L' M'"
    and "(abstract M ns s)\<lparr>last_error := e\<rparr> = queried p (abstract M ns s)"
    and "if p \<noteq> NULL \<and> query_cached s M ns p
     then \<exists>x. find_block p (registry (abstract M ns s)) = Some x \<and> view_of r x t else r = NULL" for r t L' M' e
    using readsD(1) [OF r] reads_keeps [OF r] reads_list(2,6) [OF r] reads_abstract [OF ok r] readsD(8-10) [OF r] that(2,3)
    by (intro exI [of _ L'] exI [of _ M']) (simp add: thread_id_def)
  let ?M = "worked_manager M ns s" and ?v = "\<lambda>q. ret (q + metadata_offset) :: ptr lib"
  obtain s1 where w: "do_work s = Done () s1" and r1: "reads (leaks L ns) (error_code s) s L M ns s1 L ?M"
    using do_work_runs [OF ok] by (auto simp: runs_def)
  consider (null) "p = NULL" | (hit) "p \<noteq> NULL" "query_cached s M ns p" | (miss) "p \<noteq> NULL" "\<not> query_cached s M ns p"
    by blast
  then show ?thesis
  proof cases
    case null
    obtain t where "sn_error SN_ERR_NULL_PTR NULL s1 = Done NULL t"
      and r2: "reads {} (err_code SN_ERR_NULL_PTR) s1 L ?M ns t L ?M"
      using reads_error [OF readsD(1) [OF r1], of SN_ERR_NULL_PTR NULL] by (auto simp: runs_def)
    then have run: "sn_query_metadata p s = Done NULL t" using w null by (simp add: sn_query_metadata_def)
    have "reads (leaks L ns) (err_code SN_ERR_NULL_PTR) s L M ns t L ?M" using reads_trans [OF r1 r2] by simp
    then have "?Q NULL t" by (rule fin) (simp_all add: null queried_def failed_def)
    then show ?thesis using run by (simp add: runs_def)
  next
    case hit
    obtain q e t where Q: "q \<in> set ns" "nodes s q = Some e" "e_data e = p"
      "find_block p (registry (abstract M ns s)) = Some (block_of e)"
      and r: "reads (leaks L ns) (error_code s) s L M ns t L ?M" and c: "cached_query p NULL ?v s = ?v q t"
      using cached_query_hit [OF ok hit dist, of NULL ?v] by blast
    obtain e' where e': "nodes t q = Some e'" "core e' = core e" using cores_Some [OF readsD(2) [OF r] Q(2)] .
    have "block_of e' = block_of e" using e'(2) by (metis block_of_core)
    then have "view_of (q + metadata_offset) (block_of e) t" using e'(1) by (simp add: view_of_def)
    then have "?Q (q + metadata_offset) t"
      using Q(4) hit by (intro fin [OF r]) (simp_all add: queried_def looked_up_def abstract_same_error)
    then show ?thesis using c by (simp add: query_metadata_cached runs_def ret_def)
  next
    case miss
    have m: "cached_entry ?M p = MEMMAN_CACHE_MISS" using miss(2) by (simp add: query_cached_def)
    have bs: "blocks_of (nodes s1) ns = blocks_of (nodes s) ns"
      by (rule blocks_of_cores [OF readsD(2) [OF r1] sn_ok_dom [OF ok]])
    let ?e = "if find_block p (registry (abstract M ns s)) = None then err_code SN_ERR_NO_ADDER_FOUND else error_code s"
    obtain t L' where run: "cached_or_return p NULL ?v s1 = Done NULL t" and r2: "reads (leaks L ns) ?e s1 L ?M ns t L' ?M"
      using cached_or_return_miss [OF readsD(1) [OF r1] m miss(1), of NULL ?v]
      unfolding runs_def registry_abstract bs readsD(3) [OF r1] by blast
    have "reads (leaks L ns) ?e s L M ns t L' ?M" using reads_trans [OF r1 r2] by simp
    then have "?Q NULL t"
      by (rule fin) (use miss in \<open>simp_all add: queried_def looked_up_def failed_def abstract_same_error\<close>)
    then show ?thesis using run w miss(1) by (simp add: sn_query_metadata_def runs_def)
  qed
qed

lemma query_metadata_answers:
  assumes "models s a" "owned a"
  shows "runs (sn_query_metadata p) s (\<lambda>r t. keeps_locks (may_leak s a) s t \<and> models t (queried p a) \<and>
    (if p \<noteq> NULL \<and> cached s p then \<exists>x. find_block p (registry a) = Some x \<and> view_of r x t else r = NULL))"
  using assms(1)
proof (rule models_cases)
  fix L M ns assume ok: "sn_ok s L M ns" and a: "a = abstract M ns s" and l: "leaks L ns \<subseteq> may_leak s a"
  have dist: "distinct (map tb_data (blocks_of (nodes s) ns))" using assms(2) a by (simp add: owned_distinct)
  show ?thesis by (rule runs_mono [OF query_metadata_runs [OF ok dist]])
      (use l a in \<open>auto simp: cached_iff [OF ok] intro: models_keeps keeps_locks_sub\<close>)
qed

section \<open>Switches and globals\<close>

lemma set_alloc_limit_answers:
  assumes "models s a"
  shows "answers (sn_set_alloc_limit n) s a (\<lambda>_ b. b = a\<lparr>cap := n\<rparr>)"
  using assms
proof (rule models_cases)
  fix L M ns assume ok: "sn_ok s L M ns" and a: "a = abstract M ns s"
  show ?thesis by (rule answersI [OF runs_mono [OF set_alloc_limit_runs [OF ok]], of _ "{}"]) (use a in auto)
qed

lemma cache_switch_answers:
  assumes "models s a"
  shows "answers sn_lock_fast_cache s a (\<lambda>_ b. b = a)" "answers sn_unlock_fast_cache s a (\<lambda>_ b. b = a)"
    "answers (sn_do_fast_caching v) s a (\<lambda>_ b. b = a)" "answers sn_fast_cache_clear s a (\<lambda>_ b. b = a)"
proof -
  obtain L M ns where ok: "sn_ok s L M ns" and a: "a = abstract M ns s" using assms by (rule models_cases)
  note R = lock_fast_cache_runs [OF ok] fast_cache_clear_runs [OF ok]
  show "answers sn_lock_fast_cache s a (\<lambda>_ b. b = a)" "answers sn_unlock_fast_cache s a (\<lambda>_ b. b = a)"
    "answers (sn_do_fast_caching v) s a (\<lambda>_ b. b = a)" "answers sn_fast_cache_clear s a (\<lambda>_ b. b = a)"
    using R(1,2,4) R(3) [of v] a by (auto intro!: answersI [of _ _ "{}"] elim!: runs_mono)
qed

text \<open>After a clear no key is left, so any block may be resized.\<close>

lemma clear_uncaches:
  assumes "models s a" "sn_fast_cache_clear s = Done r t" "p \<noteq> NULL"
  shows "uncached t p"
proof -
  obtain L M ns where ok: "sn_ok s L M ns" using assms(1) by (rule models_cases)
  obtain M' where "sn_ok t L M' ns" "\<forall>c \<in> set (m_cache_list M'). cp_key c = NULL"
    using fast_cache_clear_runs [OF ok] assms(2) by (auto simp: runs_def)
  then show ?thesis using sn_okD(8) assms(3) by (fastforce simp: uncached_def)
qed

text \<open>\<open>cache_room\<close>: the call can find a slot, or does not look for one.\<close>

definition cache_open :: "machine \<Rightarrow> bool" where
  "cache_open s \<longleftrightarrow> (\<forall>M. managers s (memory_manager s) = Some M \<longrightarrow>
     \<not> m_cache_lock M \<and> m_use_cache M \<and> m_available_cache_slots M \<noteq> 0)"

definition cache_room :: "machine \<Rightarrow> bool" where
  "cache_room s \<longleftrightarrow> (\<forall>M. managers s (memory_manager s) = Some M \<longrightarrow> (\<exists>c \<in> set (m_cache_list M). free_slot c))"

lemma request_answers:
  assumes "models s a" "cache_open s \<longrightarrow> cache_room s"
  shows "answers (sn_request_to_fast_cache p) s a (\<lambda>r b. b = queried p a \<and>
    r = (p \<noteq> NULL \<and> find_block p (registry a) \<noteq> None \<and> cache_open s))"
  using assms(1)
proof (rule models_cases)
  fix L M ns assume ok: "sn_ok s L M ns" and a: "a = abstract M ns s" and l: "leaks L ns \<subseteq> may_leak s a"
  note m = sn_okD(8) [OF ok]
  show ?thesis
  proof (cases "p = NULL")
    case True
    then show ?thesis using error_ends [OF ok, of SN_ERR_NULL_PTR False] unfolding a
      by (intro answersI [of _ _ "{}"]) (auto simp: sn_request_to_fast_cache_def queried_def elim!: runs_mono)
  next
    case False
    have "m_cache_lock M \<or> \<not> m_use_cache M \<or> m_available_cache_slots M = 0 \<or>
        (\<exists>c \<in> set (m_cache_list M). free_slot c)"
      using assms(2) m by (auto simp: cache_open_def cache_room_def)
    from request_runs [OF ok False this] show ?thesis
      by (intro answersI [OF _ l], elim runs_mono) (use False m in \<open>auto simp: a queried_def cache_open_def\<close>)
  qed
qed

lemma last_error_answers:
  assumes "models s a"
  shows "answers sn_get_last_error s a (\<lambda>r b. r = last_error a \<and> b = a)"
proof -
  have "error_code s = last_error a" using assms by (auto simp: models_def abstract_def)
  then show ?thesis using assms by (auto simp: answers_def runs_def sn_get_last_error_def gets_def)
qed

lemma reset_last_error_answers:
  assumes "models s a"
  shows "answers sn_reset_last_error s a (\<lambda>_ b. b = failed SN_ERR_OK a)"
  using assms
proof (rule models_cases)
  fix L M ns assume ok: "sn_ok s L M ns" and a: "a = abstract M ns s"
  have "models (s\<lparr>error_code := err_code SN_ERR_OK\<rparr>) (failed SN_ERR_OK a)"
    using ok by (auto simp: models_def a failed_def abstract_def)
  then show ?thesis by (auto simp: answers_def runs_def sn_reset_last_error_def modify_def keeps_locks_def released_def)
qed

lemma auto_free_answers:
  assumes "models s a"
  shows "answers (sn_do_auto_free_at_exit v) s a (\<lambda>_ b. b = a)"
  using assms
proof (rule models_cases)
  fix L M ns assume ok: "sn_ok s L M ns" and a: "a = abstract M ns s"
  have ok': "sn_ok (s\<lparr>doFree := v\<rparr>) L M ns"
    by (rule sn_ok_cong [OF ok]) (use sn_okD(6,8) [OF ok] in \<open>auto intro: split_ok_cong\<close>)
  have m: "models (s\<lparr>doFree := v\<rparr>) a" by (rule models_keeps [OF ok']) (simp add: a abstract_def)
  obtain t where run: "sn_do_auto_free_at_exit v s = Done () t" and t: "settled {} s (s\<lparr>doFree := v\<rparr>) t"
    using do_auto_free_eq [OF ok, of v] by (auto simp: runs_def)
  have "models t a" by (rule models_lockeq [OF settled_lockeq [OF t] m])
  then show ?thesis using run keeps_locks_sub [OF settled_keeps [OF t]] by (simp add: answers_def runs_def)
qed

section \<open>Unloading\<close>

text \<open>
  \<open>unloaded s a t\<close>: of the library's own objects none is left, with one entry for each
  tracked block and the head; the tracked blocks are freed unless that was switched off.
\<close>

definition unloaded :: "machine \<Rightarrow> sn_state \<Rightarrow> machine \<Rightarrow> bool" where
  "unloaded s a t \<longleftrightarrow>
     blocks t = (if doFree s then memory a |` (- tb_data ` set (registry a)) else memory a) \<and>
     lists t (mem_list s) = None \<and> managers t (memory_manager s) = None \<and>
     (\<forall>m \<in> {list_mutex s, alloc_mutex s}. m \<noteq> NULL \<longrightarrow> mutexes t m = None) \<and>
     (\<exists>hs. distinct hs \<and> length hs = Suc (length (registry a)) \<and> set hs \<subseteq> dom (nodes s) \<and>
        nodes t = nodes s |` (- set hs))"

lemma entries_live_owned:
  assumes "owned (abstract M ns s)"
  shows "entries_live s ns"
proof -
  have 1: "map tb_data (blocks_of (nodes s) ns) = data_of (nodes s) ns" by (simp add: blocks_of_def data_of_def)
  have "block_of e \<in> set (blocks_of (nodes s) ns)" if "p \<in> set ns" "nodes s p = Some e" for p e
    using that by (force simp: blocks_of_def)
  then show ?thesis using assms 1 by (fastforce simp: owned_def entries_live_def abstract_def)
qed

lemma unload_runs:
  assumes "models s a" "owned a"
  shows "runs library_cleanup s (\<lambda>_ t. unloaded s a t)"
  using assms(1)
proof (rule models_cases)
  fix L M ns assume ok: "sn_ok s L M ns" and a: "a = abstract M ns s"
  note D = list_okD [OF sn_okD(1) [OF ok]]
  have live: "entries_live s ns" using entries_live_owned assms(2) a by simp
  have data: "set (data_of (nodes s) ns) = tb_data ` set (registry a)"
    by (auto simp: a abstract_def data_of_def blocks_of_def image_image)
  have hs: "distinct (l_head L # ns)" "length (l_head L # ns) = Suc (length (registry a))"
    "set (l_head L # ns) \<subseteq> dom (nodes s)"
    using D(4,6) sn_ok_dom [OF ok] list_ok_head [OF sn_okD(1) [OF ok]] by (auto simp: a abstract_def blocks_of_def)
  have lm: "list_mutex s = l_mutex L" using D(2) by (simp add: list_mutex_def)
  show ?thesis unfolding library_cleanup_def
  proof (rule runs_mono [OF doexit_runs [OF ok live]])
    fix u t assume t: "all_freed s L ns t"
    have "\<forall>m \<in> {list_mutex s, alloc_mutex s}. m \<noteq> NULL \<longrightarrow> mutexes t m = None"
      using t unfolding all_freed_def lm by (metis DiffE DiffI domIff empty_iff insert_iff)
    moreover have "\<exists>hs. distinct hs \<and> length hs = Suc (length (registry a)) \<and> set hs \<subseteq> dom (nodes s) \<and>
        nodes t = nodes s |` (- set hs)"
      using hs t unfolding all_freed_def by blast
    moreover have "blocks t = (if doFree s then memory a |` (- tb_data ` set (registry a)) else memory a)"
      using t data by (simp add: all_freed_def released_blocks_def a abstract_def)
    ultimately show "unloaded s a t" using t unfolding unloaded_def all_freed_def by simp
  qed
qed

end
