(* ===== verification/Copy_Contract.thy ===== *)
theory Copy_Contract
  imports Api_Contract
begin

text \<open>
  What an allocation leaves alone, and the call that hands out a copy of the metadata of a
  block in a tracked block of its own.
\<close>

section \<open>What an allocation leaves alone\<close>

text \<open>Files and their answers stay; an entry that was there keeps everything but its links;
  a call that returns null changes no object at all.\<close>

definition alloc_frame :: "machine \<Rightarrow> ptr \<Rightarrow> machine \<Rightarrow> bool" where
  "alloc_frame s p u \<longleftrightarrow> files u = files s \<and> io_answers u = io_answers s \<and> mem_list u = mem_list s \<and>
     (\<forall>q e. nodes s q = Some e \<longrightarrow> (\<exists>e'. nodes u q = Some e' \<and> info e' = info e)) \<and>
     (p = NULL \<longrightarrow> nodes u = nodes s \<and> lists u = lists s)"

lemma push_frame:
  assumes ok: "sn_ok s L M ns" and run: "linked_list_push (mem_list s) d n t s = Done v u" and p: "p \<noteq> NULL"
  shows "alloc_frame s p u"
proof (cases "\<exists>q junk rest. malloc_answers s = (q, junk) # rest \<and> can_place s q sizeof_linked_list_entry_t")
  case False
  then show ?thesis using push_out_of_memory [OF ok, of d n t] run by auto
next
  case True
  then obtain q junk rest where q: "malloc_answers s = (q, junk) # rest" "can_place s q sizeof_linked_list_entry_t" by blast
  have "settled {} s (tracked_in s L ns q rest d n t) u" using push_tracks [OF ok q, of d n t] run by (auto simp: runs_def)
  note F = lockeq_fields [OF settled_lockeq [OF this]]
  obtain el where el: "nodes s (l_lastEntry L) = Some el" using list_ok_last(3) [OF sn_okD(1) [OF ok]] by blast
  have "\<exists>e'. pushed_nodes q L d n t (nodes s) x = Some e' \<and> info e' = info e" if "nodes s x = Some e" for x e
    using that el can_place_dom(1) [OF q(2)] by (auto simp: pushed_nodes_def info_def)
  then show ?thesis using F p by (simp add: alloc_frame_def tracked_in_def)
qed

lemma error_frame:
  assumes ok: "sn_ok s L M ns" and run: "sn_error e v s = Done r u"
  shows "alloc_frame s p u"
proof -
  have "settled {} s (s\<lparr>error_code := err_code e\<rparr>) u" using set_error [OF ok, of e v] run by (auto simp: runs_def)
  from lockeq_fields [OF settled_lockeq [OF this]] show ?thesis by (simp add: alloc_frame_def)
qed

lemma malloc_frame:
  assumes ok: "sn_ok s L M ns" and run: "sn_malloc n s = Done p u"
  shows "alloc_frame s p u"
proof -
  note can = canAllocate_eq [OF sn_okD(8,9) [OF ok], of n]
  consider "n = 0 \<or> \<not> within_limit M n" | "n \<noteq> 0" "within_limit M n" by blast
  then show ?thesis
  proof cases
    case 1
    then have "\<exists>e. sn_error e NULL s = Done p u" using run can by (auto simp: sn_malloc_def split: if_splits)
    then obtain e where "sn_error e NULL s = Done p u" by blast
    then show ?thesis by (rule error_frame [OF ok])
  next
    case n: 2
    show ?thesis
    proof (cases rule: plat_malloc_cases [of n s])
      case (fail rest)
      then have "sn_error SN_ERR_BAD_ALLOC NULL (s\<lparr>malloc_answers := rest\<rparr>) = Done p u"
        using run n can by (simp add: sn_malloc_def)
      from error_frame [OF sn_ok_answers [OF ok] this] show ?thesis by (simp add: alloc_frame_def)
    next
      case P: (ok q junk rest)
      let ?bs = "if cfg_sanitize s then replicate (unat n) 0 else fresh_bytes n junk"
      let ?s = "s\<lparr>malloc_answers := rest, blocks := (blocks s)(q \<mapsto> ?bs)\<rparr>"
      have ok': "sn_ok ?s L M ns" by (rule sn_ok_new_block [OF ok P(2)])
      have q: "q \<noteq> NULL" using can_place_dom [OF P(2)] by auto
      let ?t = "?s\<lparr>managers := (managers s)(memory_manager s \<mapsto> M\<lparr>m_global_memory_usage := m_global_memory_usage M + n\<rparr>)\<rparr>"
      have "sn_malloc n s = account_and_track q n n ?s"
        using n can P q by (simp add: sn_malloc_def account_and_track_def c_memset_def)
      also have "\<dots> = bnd (linked_list_push (mem_list s) q n (thread_id ?s)) (\<lambda>_. ret q)
          (?s\<lparr>managers := (managers s)(memory_manager s \<mapsto> M\<lparr>m_global_memory_usage := m_global_memory_usage M + n\<rparr>)\<rparr>)"
        using add_usage_eq(1) [OF ok', of n] by (simp add: account_and_track_def thread_id_def)
      finally have "sn_malloc n s = bnd (linked_list_push (mem_list s) q n (thread_id ?s)) (\<lambda>_. ret q) ?t" .
      then have r: "bnd (linked_list_push (mem_list s) q n (thread_id ?s)) (\<lambda>_. ret q) ?t = Done p u"
        unfolding run by (rule sym)
      have okt: "sn_ok ?t L (M\<lparr>m_global_memory_usage := m_global_memory_usage M + n\<rparr>) ns"
        using add_usage_eq(2) [OF ok', of n] by simp
      obtain v where "linked_list_push (mem_list ?t) q n (thread_id ?s) ?t = Done v u" "p = q"
        using r by (auto simp: bnd_def ret_def split: outcome.splits)
      then have "alloc_frame ?t p u" using push_frame [OF okt] q by blast
      then show ?thesis using q \<open>p = q\<close> by (simp add: alloc_frame_def)
    qed
  qed
qed


section \<open>The copied metadata\<close>

text \<open>\<open>md_matches bs x\<close>: the bytes, read as an \<open>sn_mem_metadata_t\<close>, are the record of \<open>x\<close>.\<close>

definition md_matches :: "byte list \<Rightarrow> tracked_block \<Rightarrow> bool" where
  "md_matches bs x \<longleftrightarrow> md_data (md_of_bytes bs) = tb_data x \<and> md_size (md_of_bytes bs) = tb_size x \<and>
     md_tid (md_of_bytes bs) = tb_tid x \<and> md_block_id (md_of_bytes bs) = tb_id x"

lemma md_matches_entry: "md_matches (metadata_bytes e) (block_of e)"
  by (simp add: md_matches_def metadata_roundtrip)

definition with_copy :: "ptr \<Rightarrow> byte list \<Rightarrow> sn_state \<Rightarrow> sn_state" where
  "with_copy r bs b = b\<lparr>memory := (memory b)(r \<mapsto> bs)\<rparr>"

text \<open>Either nothing is handed out, or a tracked 32-byte block that holds the record.\<close>

inductive static_spec :: "bool \<Rightarrow> tid_t \<Rightarrow> ptr \<Rightarrow> sn_state \<Rightarrow> ptr \<Rightarrow> sn_state \<Rightarrow> bool"
  for z :: bool and t :: tid_t and p :: ptr and a :: sn_state where
  no_view: "static_spec z t p a NULL (queried p a)"
| no_block: "malloc_spec z t 32 (queried p a) NULL b \<Longrightarrow> static_spec z t p a NULL b"
| copied: "\<lbrakk>find_block p (registry a) = Some x; malloc_spec z t 32 a r b; r \<noteq> NULL; md_matches bs x; length bs = 32\<rbrakk>
    \<Longrightarrow> static_spec z t p a r (with_copy r bs b)"

lemma memcpy_metadata_runs:
  assumes e: "nodes t (v - metadata_offset) = Some e" and ok: "sn_ok t L M ns" and bs: "blocks t r = Some bs" "length bs = 32"
  shows "runs (memcpy_metadata r v) t (\<lambda>_ u. keeps_locks {} t u \<and>
    models u (with_copy r (metadata_bytes e) (abstract M ns t)))"
proof -
  let ?u = "t\<lparr>blocks := (blocks t)(r \<mapsto> metadata_bytes e)\<rparr>"
  have "sn_ok ?u L M ns" using bs by (intro sn_ok_blocks [OF ok]) auto
  then have "models ?u (with_copy r (metadata_bytes e) (abstract M ns t))"
    by (rule models_keeps) (simp add: with_copy_def abstract_def)
  moreover have "memcpy_metadata r v t = Done () ?u"
    using e bs by (simp add: memcpy_metadata_def sizeof_sn_mem_metadata_t_def)
  ultimately show ?thesis by (simp add: runs_def keeps_locks_def released_def)
qed

lemma models_memory_of': "models s a \<Longrightarrow> memory a = blocks s"
  by (auto simp: models_def abstract_def)

lemma malloc_spec_memory:
  "malloc_spec z t n a r b \<Longrightarrow> r \<noteq> NULL \<Longrightarrow> \<exists>bs. memory b r = Some bs \<and> length bs = unat n"
  using malloc_spec_block [of z t n a r b] by (auto simp: with_block_def)

text \<open>The rest of the call once a view has been handed out.\<close>

lemma copy_view_ends:
  assumes ok: "sn_ok t L M ns" and room: "room t" and x: "view_of v x t"
  shows "ends (bnd (sn_malloc sizeof_sn_mem_metadata_t) (\<lambda>copy.
      if copy = NULL then ret NULL else bnd (memcpy_metadata copy v) (\<lambda>_. ret copy))) t
    (\<lambda>r u. keeps_locks {} t u \<and> (\<exists>b. malloc_spec (cfg_sanitize t) (thread_id t) 32 (abstract M ns t) r b \<and>
       (if r = NULL then models u b else \<exists>bs. md_matches bs x \<and> length bs = 32 \<and> models u (with_copy r bs b))))
    (\<lambda>h. h = Aborted)"
proof -
  let ?R = "\<lambda>r u. keeps_locks {} t u \<and> (\<exists>b. malloc_spec (cfg_sanitize t) (thread_id t) 32 (abstract M ns t) r b \<and>
       (if r = NULL then models u b else \<exists>bs. md_matches bs x \<and> length bs = 32 \<and> models u (with_copy r bs b)))"
  have n: "sizeof_sn_mem_metadata_t = 32" by (simp add: sizeof_sn_mem_metadata_t_def)
  show ?thesis
  proof (cases "sn_malloc sizeof_sn_mem_metadata_t t")
    case (Halt h u)
    then show ?thesis using malloc_refines [OF ok room, of 32] by (simp add: ends_def n)
  next
    case (Done r u)
    then obtain b where k: "keeps_locks {} t u" and b: "models u b"
        "malloc_spec (cfg_sanitize t) (thread_id t) 32 (abstract M ns t) r b"
      using malloc_refines [OF ok room, of 32] by (auto simp: ends_def n)
    show ?thesis
    proof (cases "r = NULL")
      case True
      then show ?thesis using Done k b by (auto simp: ends_def ret_def)
    next
      case False
      obtain e where e: "nodes t (v - metadata_offset) = Some e" "block_of e = x" using x by (auto simp: view_of_def)
      obtain e' where e': "nodes u (v - metadata_offset) = Some e'" "info e' = info e"
        using malloc_frame [OF ok Done] e(1) by (auto simp: alloc_frame_def)
      have "block_of e' = x" using e'(2) e(2) by (metis block_of_info)
      then have m: "md_matches (metadata_bytes e') x" using md_matches_entry by blast
      obtain L' M' ns' where u: "sn_ok u L' M' ns'" "b = abstract M' ns' u" using b(1) by (auto simp: models_def)
      obtain bs where "blocks u r = Some bs" "length bs = 32"
        using malloc_spec_memory [OF b(2) False] models_memory_of' [OF b(1)] by auto
      from memcpy_metadata_runs [OF e'(1) u(1) this] obtain w where w: "memcpy_metadata r v u = Done () w"
        "keeps_locks {} u w" "models w (with_copy r (metadata_bytes e') b)" unfolding u(2) by (auto simp: runs_def)
      have "length (metadata_bytes e') = 32" by simp
      then have "?R r w" using k w b(2) m False unfolding keeps_locks_def by (metis (full_types))
      then show ?thesis using Done False w(1) by (simp add: ends_def ret_def)
    qed
  qed
qed


lemma static_metadata_serves:
  assumes m: "models s a" and o: "owned a" and room: "room s"
  shows "serves (sn_query_static_metadata p) s a (static_spec (cfg_sanitize s) (thread_id s) p a)"
  using m
proof (rule models_cases)
  fix L M ns assume ok: "sn_ok s L M ns" and a: "a = abstract M ns s" and l: "leaks L ns \<subseteq> may_leak s a"
  obtain s1 where w: "do_work s = Done () s1"
    and r1: "reads (leaks L ns) (error_code s) s L M ns s1 L (worked_manager M ns s)"
    using do_work_runs [OF ok] by (auto simp: runs_def)
  note ok1 = readsD(1) [OF r1]
  have a1: "abstract (worked_manager M ns s) ns s1 = a"
    using reads_abstract [OF ok r1] by (simp add: a abstract_same_error)
  have dist: "distinct (map tb_data (blocks_of (nodes s1) ns))" using owned_distinct o a1 by blast
  obtain v t L' M' where q: "sn_query_metadata p s1 = Done v t" and okt: "sn_ok t L' M' ns"
    and k: "keeps_locks (leaks L ns) s1 t" and len: "l_len L' = l_len L"
    and env: "thread_id t = thread_id s1" "cfg_sanitize t = cfg_sanitize s1" and at: "abstract M' ns t = queried p a"
    and v: "v = NULL \<or> p \<noteq> NULL \<and> (\<exists>x. find_block p (registry a) = Some x \<and> view_of v x t)"
    using query_metadata_runs [OF ok1 dist, of p] unfolding runs_def a1 by (auto split: if_splits)
  have env': "thread_id t = thread_id s" "cfg_sanitize t = cfg_sanitize s"
    using env readsD(8-10) [OF r1] by (simp_all add: thread_id_def)
  have k': "keeps_locks (may_leak s a) s t"
    using keeps_locks_sub [OF keeps_locks_trans [OF reads_keeps [OF r1] k]] l by simp
  have run: "sn_query_static_metadata p s = (if v = NULL then Done NULL t else
      bnd (sn_malloc sizeof_sn_mem_metadata_t) (\<lambda>copy.
      if copy = NULL then ret NULL else bnd (memcpy_metadata copy v) (\<lambda>_. ret copy)) t)"
    using w q by (simp add: sn_query_static_metadata_def ret_def)
  show ?thesis
  proof (cases "v = NULL")
    case True
    have "models t (queried p a)" using models_keeps [OF okt at [symmetric]] .
    then show ?thesis using True run k' static_spec.no_view by (auto simp: serves_def ends_def)
  next
    case False
    then obtain x where x: "p \<noteq> NULL" "find_block p (registry a) = Some x" "view_of v x t" using v by blast
    have qa: "queried p a = a" using x by (simp add: queried_def looked_up_def)
    have "room t" using sn_ok_lists [OF okt] roomD [OF ok room] len by (simp add: room_def)
    note E = copy_view_ends [OF okt this x(3), unfolded at env' qa]
    have spec: "\<exists>c. models u c \<and> static_spec (cfg_sanitize s) (thread_id s) p a r c"
      if "malloc_spec (cfg_sanitize s) (thread_id s) 32 a r b"
        "if r = NULL then models u b else \<exists>bs. md_matches bs x \<and> length bs = 32 \<and> models u (with_copy r bs b)" for r u b
      using that static_spec.no_block [of "cfg_sanitize s" "thread_id s" p a b] qa
        static_spec.copied [OF x(2) that(1)] by (cases "r = NULL") auto
    have "ends (bnd (sn_malloc sizeof_sn_mem_metadata_t) (\<lambda>copy.
        if copy = NULL then ret NULL else bnd (memcpy_metadata copy v) (\<lambda>_. ret copy))) t
      (\<lambda>r u. keeps_locks (may_leak s a) s u \<and> (\<exists>b. models u b \<and> static_spec (cfg_sanitize s) (thread_id s) p a r b))
      (\<lambda>h. h = Aborted)"
      by (rule ends_mono [OF E]) (use k' spec in \<open>auto simp: keeps_locks_def\<close>)
    then show ?thesis using False by (simp add: serves_def ends_def run)
  qed
qed

end
