(* ===== verification/File_Contract.thy ===== *)
theory File_Contract
  imports Copy_Contract
begin

text \<open>
  The crash handler on well-formed states, and the two file calls: what a dump writes, what a
  mount loads, and their failures.
\<close>

section \<open>The crash handler\<close>

interpretation list_dumper: folder list_nodeas "\<lambda>g p e. ()"
  by unfold_locales (simp add: list_nodeas_def print_node_def ret_def)

lemma dump_walk:
  assumes ok: "list_ok s l L ns" and rdy: "ready (l_mutex L) s"
  shows "\<exists>r. linked_list_forEach l list_nodeas () s = Done r (after_walk L ns s)"
  using list_dumper.forEach_folds [OF ok rdy] by blast

lemma lockeq_after_walk: "ready (l_mutex L) s \<Longrightarrow> lockeq s (after_walk L ns s)"
  by (auto simp: after_walk_def)

text \<open>The handler ends the program with the error code, when what it prints is still there.\<close>

definition last_access_live :: "machine \<Rightarrow> bool" where
  "last_access_live s \<longleftrightarrow> (\<forall>L. lists s (mem_list s) = Some L \<longrightarrow>
     l_lastAccess L = NULL \<or> nodes s (l_lastAccess L) \<noteq> None)"

lemma crash_exits:
  assumes m: "models s a" and live: "last_access_live s"
    and err: "err \<noteq> SN_ERR_CATASTROPHIC" "err \<noteq> SN_ERR_SYS_FAIL"
  shows "\<exists>t. sn_crash err s = Halt (Exited (err_code err)) t \<and> models t a"
  using m
proof (rule models_cases)
  fix L M ns assume ok: "sn_ok s L M ns"
  note L = sn_ok_lists [OF ok]
  have "\<exists>u. print_node (l_lastAccess L) s = Done u s"
    using live L by (auto simp: last_access_live_def print_node_def ret_def)
  moreover obtain r where "linked_list_forEach (mem_list s) list_nodeas () s = Done r (after_walk L ns s)"
    using dump_walk [OF sn_okD(1,2) [OF ok]] by blast
  moreover have "models (after_walk L ns s) a" by (rule models_lockeq [OF lockeq_after_walk [OF sn_okD(2) [OF ok]] m])
  moreover have "err_code err \<noteq> err_code SN_ERR_CATASTROPHIC" "err_code err \<noteq> err_code SN_ERR_SYS_FAIL"
    using err by (cases err; simp)+
  ultimately show ?thesis using L by (auto simp: sn_crash_def halt_def)
qed

lemma crash_dangles:
  assumes m: "models s a" and dead: "\<not> last_access_live s"
    and err: "err \<noteq> SN_ERR_CATASTROPHIC" "err \<noteq> SN_ERR_SYS_FAIL"
  shows "sn_crash err s = Halt UB s"
proof -
  obtain L where L: "lists s (mem_list s) = Some L" "l_lastAccess L \<noteq> NULL" "nodes s (l_lastAccess L) = None"
    using dead by (auto simp: last_access_live_def)
  moreover have "err_code err \<noteq> err_code SN_ERR_CATASTROPHIC" "err_code err \<noteq> err_code SN_ERR_SYS_FAIL"
    using err by (cases err; simp)+
  moreover have "load_node (l_lastAccess L) s = Halt UB s" using L(3) by (simp add: load_node_def)
  ultimately show ?thesis by (simp add: sn_crash_def print_node_def)
qed


section \<open>The C library calls on files\<close>

text \<open>\<open>io s fs q\<close>: the files and the remaining answers have changed, nothing else has.\<close>

definition io :: "machine \<Rightarrow> (string \<rightharpoonup> byte list) \<Rightarrow> nat list \<Rightarrow> machine" where
  "io s fs q = s\<lparr>files := fs, io_answers := q\<rparr>"

lemma io_fields [simp]:
  "files (io s fs q) = fs" "io_answers (io s fs q) = q" "nodes (io s fs q) = nodes s" "blocks (io s fs q) = blocks s"
  "mem_list (io s fs q) = mem_list s" "lists (io s fs q) = lists s" "error_code (io s fs q) = error_code s"
  "io (io s fs q) fs' q' = io s fs' q'" "memory_manager (io s fs q) = memory_manager s"
  "mutexes (io s fs q) = mutexes s" "cfg_mutex (io s fs q) = cfg_mutex s" "managers (io s fs q) = managers s"
  "cfg_sanitize (io s fs q) = cfg_sanitize s" "thread_id (io s fs q) = thread_id s"
  by (simp_all add: io_def thread_id_def)

lemma io_same: "io s (files s) (io_answers s) = s"
  by (simp add: io_def)

lemma sn_ok_io: "sn_ok s L M ns \<Longrightarrow> sn_ok (io s fs q) L M ns"
  unfolding io_def by (rule sn_ok_cong) (auto dest: sn_okD(6,8) intro: split_ok_cong)

lemma abstract_io [simp]: "abstract M ns (io s fs q) = abstract M ns s"
  by (simp add: abstract_def)

lemma next_io_eq: "\<exists>a q. next_io s = Done a (io s (files s) q) \<and> (io_answers s = [] \<longrightarrow> a = None \<and> q = [])"
  by (cases "io_answers s") (auto simp: next_io_def io_def intro: exI [of _ "[]"])

lemma file_exists_eq:
  "\<exists>q. file_exists path s = Done (files s path \<noteq> None) (io s (files s) q) \<and> (io_answers s = [] \<longrightarrow> q = []) \<or>
    file_exists path s = Done False (io s (files s) q) \<and> io_answers s \<noteq> []"
proof -
  obtain a q where n: "next_io s = Done a (io s (files s) q)" and r: "io_answers s = [] \<longrightarrow> a = None \<and> q = []"
    using next_io_eq by blast
  have "file_exists path s = Done (a \<noteq> Some 0 \<and> files s path \<noteq> None) (io s (files s) q)"
    using n by (simp add: file_exists_def fopen_rb_def ret_def)
  then show ?thesis using r by (cases "a = Some 0") (auto intro!: exI [of _ q])
qed

lemma fopen_wb_eq:
  "\<exists>q ok. fopen_wb path s = Done ok (io s (if ok then (files s)(path \<mapsto> []) else files s) q) \<and>
    (io_answers s = [] \<longrightarrow> ok \<and> q = [])"
proof -
  obtain a q where n: "next_io s = Done a (io s (files s) q)" and r: "io_answers s = [] \<longrightarrow> a = None \<and> q = []"
    using next_io_eq by blast
  have "fopen_wb path s = Done (a \<noteq> Some 0) (io s (if a \<noteq> Some 0 then (files s)(path \<mapsto> []) else files s) q)"
    using n by (cases "a = Some 0") (simp_all add: fopen_wb_def ret_def, simp add: io_def)
  then show ?thesis using r by (intro exI [of _ q] exI [of _ "a \<noteq> Some 0"]) auto
qed

lemma c_fwrite_eq:
  assumes "files s path = Some old"
  shows "\<exists>q k. c_fwrite path bs s = Done (of_nat k) (io s ((files s)(path \<mapsto> old @ take k bs)) q) \<and> k \<le> length bs \<and>
    (io_answers s = [] \<longrightarrow> k = length bs \<and> q = [])"
proof -
  obtain a q where n: "next_io s = Done a (io s (files s) q)" and r: "io_answers s = [] \<longrightarrow> a = None \<and> q = []"
    using next_io_eq by blast
  let ?k = "transfer a (length bs)"
  have "c_fwrite path bs s = Done (of_nat ?k) (io s ((files s)(path \<mapsto> old @ take ?k bs)) q)"
    using n assms by (simp add: c_fwrite_def ret_def Let_def io_def)
  moreover have "?k \<le> length bs" by (simp add: transfer_def split: option.split)
  ultimately show ?thesis using r by (intro exI [of _ q] exI [of _ ?k]) (auto simp: transfer_def)
qed


section \<open>Dumping a block\<close>

text \<open>Every outcome of a dump: the answer, the abstract state and the files.\<close>

inductive dump_spec :: "string option \<Rightarrow> ptr \<Rightarrow> sn_state \<Rightarrow> (string \<rightharpoonup> byte list) \<Rightarrow>
    bool \<Rightarrow> sn_state \<Rightarrow> (string \<rightharpoonup> byte list) \<Rightarrow> bool"
  for target :: "string option" and p :: ptr and a :: sn_state and fs :: "string \<rightharpoonup> byte list" where
  null: "target = None \<or> p = NULL \<Longrightarrow> dump_spec target p a fs False (failed SN_ERR_NULL_PTR a) fs"
| exists: "\<lbrakk>target = Some path; fs path \<noteq> None\<rbrakk> \<Longrightarrow> dump_spec target p a fs False (failed SN_ERR_FILE_PRE_EXIST a) fs"
| uncached: "p \<noteq> NULL \<Longrightarrow> dump_spec target p a fs False (looked_up p a) fs"
| unopened: "find_block p (registry a) \<noteq> None \<Longrightarrow> dump_spec target p a fs False (failed SN_ERR_FILE_IO a) fs"
| short: "\<lbrakk>target = Some path; find_block p (registry a) = Some x; memory a p = Some bs; k < unat (tb_size x)\<rbrakk>
    \<Longrightarrow> dump_spec target p a fs False (failed SN_ERR_FILE_IO a) (fs(path \<mapsto> take k bs))"
| written: "\<lbrakk>target = Some path; find_block p (registry a) = Some x; memory a p = Some bs\<rbrakk>
    \<Longrightarrow> dump_spec target p a fs True a (fs(path \<mapsto> take (unat (tb_size x)) bs))"

definition write_block :: "string \<Rightarrow> ptr \<Rightarrow> ptr \<Rightarrow> bool lib" where
  "write_block path block entry =
     bnd (fopen_wb path) (\<lambda>f.
     if \<not> f then sn_error SN_ERR_FILE_IO False
     else
       bnd (linked_list_entry_getSize entry) (\<lambda>n.
       bnd (if n = 0 then ret [] else read_bytes block n) (\<lambda>bs.
       bnd (c_fwrite path bs) (\<lambda>written.
       bnd (linked_list_entry_getSize entry) (\<lambda>n.
       if written \<noteq> n then sn_error SN_ERR_FILE_IO False
       else ret True)))))"

lemma error_io:
  assumes ok: "sn_ok s L M ns"
  shows "runs (sn_error e v) s (\<lambda>r t. r = v \<and> keeps_locks {} s t \<and> models t (failed e (abstract M ns s)) \<and>
    files t = files s \<and> io_answers t = io_answers s)"
proof (rule runs_mono [OF reads_error [OF ok]], elim conjE, intro conjI)
  fix r t assume t: "reads {} (err_code e) s L M ns t L M"
  show "models t (failed e (abstract M ns s))" using reads_models [OF ok t] by (simp add: failed_def)
  show "keeps_locks {} s t" by (rule reads_keeps [OF t])
  show "files t = files s" "io_answers t = io_answers s" using readsD(6,7) [OF t] by simp_all
qed

lemma keeps_locks_io [simp]: "keeps_locks A s (io t fs q) = keeps_locks A s t" "keeps_locks A (io s fs q) t = keeps_locks A s t"
  by (simp_all add: keeps_locks_def released_def)

lemma runs_via: "\<lbrakk>m s = m' s'; runs m' s' P; \<And>r t. P r t \<Longrightarrow> Q r t\<rbrakk> \<Longrightarrow> runs m s Q"
  by (auto simp: runs_def)

lemma unat_of_nat_size: "k < 2 ^ 64 \<Longrightarrow> unat (of_nat k :: size_t) = k"
  by (simp add: unsigned_of_nat take_bit_nat_eq_self_iff)

lemma of_nat_eq_size: "k \<le> unat n \<Longrightarrow> (of_nat k = n) = (k = unat n)" for n :: size_t
proof -
  assume k: "k \<le> unat n"
  have "unat n < 2 ^ 64" using unsigned_less [of n] by simp
  then have "k < 2 ^ 64" using k by (rule le_less_trans [rotated])
  then show ?thesis by (simp only: word_unat_eq_iff unat_of_nat_size)
qed

lemma write_block_runs:
  assumes ok: "sn_ok s L M ns" and q: "q \<noteq> NULL" "nodes s q = Some e"
    and x: "find_block p (registry (abstract M ns s)) = Some (block_of e)"
    and bs: "blocks s p = Some bs" "unat (e_size e) \<le> length bs"
  shows "runs (write_block path p q) s (\<lambda>r t. keeps_locks {} s t \<and>
    (\<exists>b. models t b \<and> dump_spec (Some path) p (abstract M ns s) (files s) r b (files t)) \<and>
    (io_answers s = [] \<longrightarrow> r \<and> files t = (files s)(path \<mapsto> take (unat (e_size e)) bs)))" (is "runs _ _ ?Q")
proof -
  let ?a = "abstract M ns s" and ?n = "unat (e_size e)"
  have m: "memory ?a p = Some bs" using bs(1) by (simp add: abstract_def)
  obtain q1 f where f: "fopen_wb path s = Done f (io s (if f then (files s)(path \<mapsto> []) else files s) q1)"
    "io_answers s = [] \<longrightarrow> f \<and> q1 = []" using fopen_wb_eq by blast
  show ?thesis
  proof (cases f)
    case False
    then have "write_block path p q s = sn_error SN_ERR_FILE_IO False (io s (files s) q1)"
      using f by (simp add: write_block_def)
    moreover have "dump_spec (Some path) p ?a (files s) False (failed SN_ERR_FILE_IO ?a) (files s)"
      by (rule dump_spec.unopened) (use x in simp)
    ultimately show ?thesis using False f(2)
      by (elim runs_via) (rule error_io [OF sn_ok_io [OF ok]], simp, metis)
  next
    case True
    let ?s1 = "io s ((files s)(path \<mapsto> [])) q1"
    have data: "(if e_size e = 0 then ret [] else read_bytes p (e_size e)) ?s1 = Done (take ?n bs) ?s1"
      using bs by (simp add: read_bytes_def ret_def)
    have opened: "files ?s1 path = Some []" by simp
    obtain q2 k where w0: "c_fwrite path (take ?n bs) ?s1 =
        Done (of_nat k) (io ?s1 ((files ?s1)(path \<mapsto> [] @ take k (take ?n bs))) q2)"
      and k0: "k \<le> length (take ?n bs)" "io_answers ?s1 = [] \<longrightarrow> k = length (take ?n bs) \<and> q2 = []"
      using c_fwrite_eq [OF opened, of "take ?n bs"] by blast
    have w: "c_fwrite path (take ?n bs) ?s1 = Done (of_nat k) (io s ((files s)(path \<mapsto> take k (take ?n bs))) q2)"
      using w0 by simp
    have len: "length (take ?n bs) = ?n" using bs(2) by simp
    have k: "k \<le> ?n" "io_answers s = [] \<longrightarrow> k = ?n"
      using k0 f(2) unfolding len by simp_all
    let ?s2 = "io s ((files s)(path \<mapsto> take k bs)) q2"
    have tk: "take k (take ?n bs) = take k bs" using k(1) by simp
    note kn = of_nat_eq_size [OF k(1)]
    have run: "write_block path p q s = (if k \<noteq> ?n then sn_error SN_ERR_FILE_IO False else ret True) ?s2"
      using f(1) True data w q kn unfolding tk
      by (simp add: write_block_def linked_list_entry_getSize_def entry_get_def ret_def)
    show ?thesis
    proof (cases "k = ?n")
      case full: True
      have "models ?s2 ?a" using models_keeps [OF sn_ok_io [OF ok]] by simp
      moreover have "dump_spec (Some path) p ?a (files s) True ?a ((files s)(path \<mapsto> take ?n bs))"
        using dump_spec.written [OF refl x m, where fs = "files s"] by simp
      ultimately show ?thesis using run full by (auto simp: runs_def ret_def keeps_locks_def released_def)
    next
      case False
      then have lt: "k < unat (tb_size (block_of e))" using k(1) by simp
      have "write_block path p q s = sn_error SN_ERR_FILE_IO False ?s2" using run False by simp
      moreover have "dump_spec (Some path) p ?a (files s) False (failed SN_ERR_FILE_IO ?a) ((files s)(path \<mapsto> take k bs))"
        by (rule dump_spec.short [OF refl x m lt])
      ultimately show ?thesis using False k(2)
        by (elim runs_via) (rule error_io [OF sn_ok_io [OF ok]], simp, metis)
    qed
  qed
qed


text \<open>\<open>in_cache s p\<close>: the lookup cache has an entry for \<open>p\<close>, as it stands.\<close>

definition in_cache :: "machine \<Rightarrow> ptr \<Rightarrow> bool" where
  "in_cache s p \<longleftrightarrow> (\<exists>M. managers s (memory_manager s) = Some M \<and> cached_entry M p \<noteq> MEMMAN_CACHE_MISS)"

lemma in_cache_iff: "sn_ok s L M ns \<Longrightarrow> in_cache s p \<longleftrightarrow> cached_entry M p \<noteq> MEMMAN_CACHE_MISS"
  using sn_okD(8) by (auto simp: in_cache_def)

lemma sn_dump_to_file_eq:
  "sn_dump_to_file (Some path) p = (if p = NULL then sn_error SN_ERR_NULL_PTR False
     else bnd (file_exists path) (\<lambda>ex. if ex then sn_error SN_ERR_FILE_PRE_EXIST False
       else cached_or_return p False (write_block path p)))"
  unfolding sn_dump_to_file_def write_block_def option.simps by (rule refl)

lemma dump_cached_runs:
  assumes ok: "sn_ok s L M ns" and o: "owned (abstract M ns s)" and p: "p \<noteq> NULL"
  shows "runs (cached_or_return p False (write_block path p)) s (\<lambda>r t. keeps_locks (leaks L ns) s t \<and>
    (\<exists>b. models t b \<and> dump_spec (Some path) p (abstract M ns s) (files s) r b (files t)) \<and>
    (io_answers s = [] \<and> in_cache s p \<longrightarrow> r \<and> (\<exists>x bs. find_block p (registry (abstract M ns s)) = Some x \<and>
       blocks s p = Some bs \<and> files t = (files s)(path \<mapsto> take (unat (tb_size x)) bs))))"
proof (cases "cached_entry M p = MEMMAN_CACHE_MISS")
  case True
  have "\<not> in_cache s p" using True in_cache_iff [OF ok] by simp
  show ?thesis
  proof (rule runs_mono [OF cached_or_return_miss [OF ok True p]], elim conjE exE)
    fix r t L' assume r: "r = False" and "reads (leaks L ns) (if find_block p (blocks_of (nodes s) ns) = None
       then err_code SN_ERR_NO_ADDER_FOUND else error_code s) s L M ns t L' M"
    note t = reads_models_error [OF ok this(2)] readsD(6) [OF this(2)] reads_keeps [OF this(2)]
    have "models t (looked_up p (abstract M ns s))"
      by (rule t(1)) (simp add: looked_up_def failed_def registry_abstract abstract_same_error)
    note t = this t(2,3)
    show "keeps_locks (leaks L ns) s t \<and>
        (\<exists>b. models t b \<and> dump_spec (Some path) p (abstract M ns s) (files s) r b (files t)) \<and>
        (io_answers s = [] \<and> in_cache s p \<longrightarrow> r \<and> (\<exists>x bs. find_block p (registry (abstract M ns s)) = Some x \<and>
          blocks s p = Some bs \<and> files t = (files s)(path \<mapsto> take (unat (tb_size x)) bs)))"
      unfolding r t(2)
      by (intro conjI exI [of _ "looked_up p (abstract M ns s)"] t dump_spec.uncached p)
        (use \<open>\<not> in_cache s p\<close> in simp)
  qed
next
  case False
  have dist: "distinct (map tb_data (blocks_of (nodes s) ns))" using o by (simp add: owned_distinct)
  obtain e where e: "nodes s (cached_entry M p) = Some e" "e_data e = p"
      "find_block p (blocks_of (nodes s) ns) = Some (block_of e)"
    using cached_entry_block [OF ok dist False] by blast
  obtain t where r: "reads {} (error_code s) s L M ns t L M"
    and run: "cached_or_return p False (write_block path p) s = write_block path p (cached_entry M p) t"
    using cached_or_return_hit [OF ok False, of False "write_block path p"] by (elim exE conjE)
  note okt = readsD(1) [OF r]
  have at: "abstract M ns t = abstract M ns s"
    unfolding reads_abstract [OF ok r] by (rule abstract_same_error)
  obtain e' where e': "nodes t (cached_entry M p) = Some e'" "core e' = core e"
    using cores_Some [OF readsD(2) [OF r] e(1)] .
  have x: "find_block p (registry (abstract M ns t)) = Some (block_of e')"
    using e(3) e'(2) unfolding at registry_abstract by (metis block_of_core)
  then obtain bs where bs: "blocks t p = Some bs" "unat (e_size e') \<le> length bs"
    using o find_block_in [OF x] unfolding at owned_def by (fastforce simp: abstract_def readsD(4) [OF r])
  have q: "cached_entry M p \<noteq> NULL" using False by (simp add: MEMMAN_CACHE_MISS_def)
  have env: "files t = files s" "io_answers t = io_answers s" "blocks t = blocks s"
    using readsD(4,6,7) [OF r] by simp_all
  have k: "keeps_locks (leaks L ns) s u" if "keeps_locks {} t u" for u
    using keeps_locks_trans [OF reads_keeps [OF r] that] keeps_locks_sub by blast
  show ?thesis
    by (rule runs_via [where m = "cached_or_return p False (write_block path p)", OF run
        write_block_runs [OF okt q e'(1) x bs, of path, unfolded at env]])
      (use k x bs(1) in \<open>auto simp: at env\<close>)
qed

lemma dump_runs:
  assumes m: "models s a" and o: "owned a"
  shows "runs (sn_dump_to_file target p) s (\<lambda>r t. keeps_locks (may_leak s a) s t \<and>
    (\<exists>b. models t b \<and> dump_spec target p a (files s) r b (files t)) \<and>
    (\<forall>path. target = Some path \<and> p \<noteq> NULL \<and> files s path = None \<and> io_answers s = [] \<and> in_cache s p \<longrightarrow>
       r \<and> (\<exists>x bs. find_block p (registry a) = Some x \<and> memory a p = Some bs \<and>
         files t = (files s)(path \<mapsto> take (unat (tb_size x)) bs))))"
  using m
proof (rule models_cases)
  fix L M ns assume ok: "sn_ok s L M ns" and a: "a = abstract M ns s" and l: "leaks L ns \<subseteq> may_leak s a"
  have sub: "keeps_locks A s t \<Longrightarrow> A \<subseteq> leaks L ns \<Longrightarrow> keeps_locks (may_leak s a) s t" for A t
    using keeps_locks_sub l by (meson order_trans)
  note sub = this [unfolded a]
  show ?thesis
  proof (cases "target = None \<or> p = NULL")
    case True
    then have "sn_dump_to_file target p = sn_error SN_ERR_NULL_PTR False"
      by (cases target) (auto simp: sn_dump_to_file_def)
    then show ?thesis using True dump_spec.null [OF True, of a "files s"]
      by (auto intro!: runs_mono [OF error_io [OF ok, of SN_ERR_NULL_PTR False]] sub simp: a)
  next
    case False
    then obtain path where path: "target = Some path" and p: "p \<noteq> NULL" by auto
    obtain ex q where ex: "file_exists path s = Done ex (io s (files s) q)" "io_answers s = [] \<longrightarrow> q = []"
        "ex \<longrightarrow> files s path \<noteq> None" "io_answers s = [] \<longrightarrow> ex = (files s path \<noteq> None)"
      using file_exists_eq [of path s] by blast
    have run: "sn_dump_to_file target p s = (if ex then sn_error SN_ERR_FILE_PRE_EXIST False
        else cached_or_return p False (write_block path p)) (io s (files s) q)"
      using ex(1) p by (simp add: path sn_dump_to_file_eq)
    note okq = sn_ok_io [OF ok, of "files s" q]
    show ?thesis
    proof (cases ex)
      case True
      have "dump_spec target p a (files s) False (failed SN_ERR_FILE_PRE_EXIST a) (files s)"
        by (rule dump_spec.exists) (use path ex(3) True in simp_all)
      then show ?thesis using ex(3) True
        by (intro runs_via [where m = "sn_dump_to_file target p" and s = s, OF run [unfolded if_P [OF True]]
            error_io [OF okq, of SN_ERR_FILE_PRE_EXIST False]]) (auto simp: a path intro!: sub)
    next
      case no: False
      have o': "owned (abstract M ns (io s (files s) q))" using o a by simp
      have ic: "in_cache (io s (files s) q) p = in_cache s p" by (simp add: in_cache_def)
      have "blocks s = memory a" by (simp add: a abstract_def)
      then show ?thesis using run no
        by (intro runs_via [where m = "sn_dump_to_file target p" and s = s, OF run [unfolded if_not_P [OF no]]
            dump_cached_runs [OF okq o' p, of path, unfolded ic]])
          (use ex(2) in \<open>auto simp: a path intro!: sub\<close>)
    qed
  qed
qed


section \<open>Mounting a file\<close>

definition with_bytes :: "ptr \<Rightarrow> byte list \<Rightarrow> sn_state \<Rightarrow> sn_state" where
  "with_bytes q bs b = b\<lparr>memory := (memory b)(q \<mapsto> bs)\<rparr>"

text \<open>Every outcome of a mount: the failures, a buffer freed again after a short read, and a
  tracked block that holds the file.\<close>

inductive mount_spec :: "bool \<Rightarrow> tid_t \<Rightarrow> string option \<Rightarrow> sn_state \<Rightarrow> (string \<rightharpoonup> byte list) \<Rightarrow>
    ptr \<Rightarrow> sn_state \<Rightarrow> bool"
  for z :: bool and t :: tid_t and target :: "string option" and a :: sn_state and fs :: "string \<rightharpoonup> byte list" where
  null: "target = None \<Longrightarrow> mount_spec z t target a fs NULL (failed SN_ERR_NULL_PTR a)"
| absent: "target = Some path \<Longrightarrow> mount_spec z t target a fs NULL (failed SN_ERR_FILE_NOT_EXIST a)"
| unopened: "\<lbrakk>target = Some path; fs path \<noteq> None\<rbrakk> \<Longrightarrow> mount_spec z t target a fs NULL (failed SN_ERR_FILE_IO a)"
| empty: "\<lbrakk>target = Some path; fs path \<noteq> None\<rbrakk> \<Longrightarrow> mount_spec z t target a fs NULL (failed SN_ERR_BAD_SIZE a)"
| short: "\<lbrakk>target = Some path; fs path \<noteq> None; malloc_spec z t n a q b; q \<noteq> NULL\<rbrakk>
    \<Longrightarrow> mount_spec z t target a fs NULL (failed SN_ERR_FILE_IO (free_spec q b))"
| mounted: "\<lbrakk>target = Some path; fs path = Some bs; malloc_spec z t n a q b; q \<noteq> NULL; unat n \<le> length bs\<rbrakk>
    \<Longrightarrow> mount_spec z t target a fs q (with_bytes q (take (unat n) bs) b)"

lemma fopen_rb_eq:
  "\<exists>q f. fopen_rb path s = Done f (io s (files s) q) \<and> (f \<longrightarrow> files s path \<noteq> None) \<and>
    (io_answers s = [] \<longrightarrow> q = [] \<and> f = (files s path \<noteq> None))"
proof -
  obtain a q where n: "next_io s = Done a (io s (files s) q)" and r: "io_answers s = [] \<longrightarrow> a = None \<and> q = []"
    using next_io_eq by blast
  have "fopen_rb path s = Done (a \<noteq> Some 0 \<and> files s path \<noteq> None) (io s (files s) q)"
    using n by (simp add: fopen_rb_def ret_def)
  then show ?thesis using r by blast
qed

lemma ftell_end_eq:
  "\<exists>q n. ftell_end path s = Done n (io s (files s) q) \<and>
    (io_answers s = [] \<longrightarrow> q = [] \<and> (\<forall>bs. files s path = Some bs \<longrightarrow> n = of_nat (length bs)))"
proof -
  obtain a q where n: "next_io s = Done a (io s (files s) q)" and r: "io_answers s = [] \<longrightarrow> a = None \<and> q = []"
    using next_io_eq by blast
  show ?thesis using n r by (auto simp: ftell_end_def ret_def)
qed

lemma c_fread_eq:
  assumes "files s path = Some bs" and b: "blocks s p = Some old" "length old = unat n"
  shows "\<exists>q k. c_fread p n path s = Done (of_nat k) ((io s (files s) q)\<lparr>blocks := (blocks s)(p \<mapsto> take k bs @ drop k old)\<rparr>) \<and>
    k \<le> unat n \<and> k \<le> length bs \<and> (io_answers s = [] \<longrightarrow> k = min (unat n) (length bs))"
proof -
  obtain a q where n: "next_io s = Done a (io s (files s) q)" and r: "io_answers s = [] \<longrightarrow> a = None \<and> q = []"
    using next_io_eq by blast
  let ?k = "transfer a (min (unat n) (length bs))"
  have k: "?k \<le> min (unat n) (length bs)" by (cases a) (auto simp: transfer_def)
  then have "c_fread p n path s = Done (of_nat ?k) ((io s (files s) q)\<lparr>blocks := (blocks s)(p \<mapsto> take ?k bs @ drop ?k old)\<rparr>)"
    using n assms by (simp add: c_fread_def Let_def)
  then show ?thesis using r k by (intro exI [of _ q] exI [of _ ?k]) (auto simp: transfer_def)
qed

definition fill_block :: "string \<Rightarrow> size_t \<Rightarrow> ptr lib" where
  "fill_block path n =
     bnd (sn_malloc n) (\<lambda>buffer.
     if buffer = NULL then sn_crash SN_ERR_BAD_ALLOC
     else
       bnd (c_fread buffer n path) (\<lambda>read.
       if read \<noteq> n then
         bnd (sn_free buffer) (\<lambda>_.
         sn_error SN_ERR_FILE_IO NULL)
       else ret buffer))"

lemma sn_mount_file_to_ram_eq:
  "sn_mount_file_to_ram (Some path) = bnd (file_exists path) (\<lambda>ex.
     if \<not> ex then sn_error SN_ERR_FILE_NOT_EXIST NULL
     else bnd (fopen_rb path) (\<lambda>f.
       if \<not> f then sn_error SN_ERR_FILE_IO NULL
       else bnd (ftell_end path) (\<lambda>n.
         if n \<le> 0 then sn_error SN_ERR_BAD_SIZE NULL else fill_block path n)))"
  unfolding sn_mount_file_to_ram_def fill_block_def option.simps by (rule refl)

lemma free_with_bytes:
  assumes "malloc_spec z t n a q b" "q \<noteq> NULL" "owned a"
  shows "free_spec q (with_bytes q bs b) = free_spec q b"
proof -
  have "\<exists>x \<in> set (registry b). tb_data x = q" using assms(1,2) by cases (auto simp: with_block_def)
  then have "find_block q (registry b) \<noteq> None" by (auto simp: find_block_def find_None_iff)
  then show ?thesis using assms(2) by (auto simp: free_spec_def with_bytes_def without_block_def split: option.split)
qed

lemma owned_with_bytes:
  assumes "owned b" "memory b q = Some old" "length bs = length old"
  shows "owned (with_bytes q bs b)"
  using assms by (fastforce simp: owned_def with_bytes_def)


lemma fill_block_ends:
  assumes ok: "sn_ok s L M ns" and o: "owned (abstract M ns s)" and room: "room s"
    and content: "files s path = Some bs"
  shows "ends (fill_block path n) s (\<lambda>r u. keeps_locks {} s u \<and>
      (\<exists>b. models u b \<and> mount_spec (cfg_sanitize s) (thread_id s) (Some path) (abstract M ns s) (files s) r b) \<and>
      (r \<noteq> NULL \<longrightarrow> files u = files s) \<and>
      (io_answers s = [] \<and> n = of_nat (length bs) \<and> length bs < 2 ^ 64 \<longrightarrow> r \<noteq> NULL \<and> blocks u r = Some bs))
    (\<lambda>h. h = Aborted \<or> h = Exited 20 \<or> h = UB \<and> \<not> last_access_live s)"
proof (cases "sn_malloc n s")
  case (Halt h u)
  then show ?thesis using malloc_refines [OF ok room, of n] by (simp add: ends_def fill_block_def)
next
  case (Done q u)
  let ?a = "abstract M ns s" and ?z = "cfg_sanitize s" and ?t = "thread_id s"
  obtain b where k: "keeps_locks {} s u" and b: "models u b" "malloc_spec ?z ?t n ?a q b"
    using malloc_refines [OF ok room, of n] Done by (auto simp: ends_def)
  have frame: "files u = files s" "io_answers u = io_answers s"
      "q = NULL \<Longrightarrow> last_access_live u = last_access_live s"
    using malloc_frame [OF ok Done] by (auto simp: alloc_frame_def last_access_live_def)
  show ?thesis
  proof (cases "q = NULL")
    case True
    have "\<exists>t. (sn_crash SN_ERR_BAD_ALLOC :: ptr lib) u = Halt (Exited 20) t" if "last_access_live u"
      using crash_exits [OF b(1) that, of SN_ERR_BAD_ALLOC] by auto
    moreover have "(sn_crash SN_ERR_BAD_ALLOC :: ptr lib) u = Halt UB u" if "\<not> last_access_live u"
      using crash_dangles [OF b(1) that, of SN_ERR_BAD_ALLOC] by simp
    ultimately show ?thesis using True Done frame(3)
      by (cases "last_access_live u") (auto simp: ends_def fill_block_def)
  next
    case q: False
    obtain old where old: "blocks u q = Some old" "length old = unat n"
      using malloc_spec_memory [OF b(2) q] models_memory_of' [OF b(1)] by auto
    have content': "files u path = Some bs" using content frame(1) by simp
    obtain x m where rd: "c_fread q n path u = Done (of_nat m)
        ((io u (files u) x)\<lparr>blocks := (blocks u)(q \<mapsto> take m bs @ drop m old)\<rparr>)" (is "_ = Done _ ?v")
      and m: "m \<le> unat n" "m \<le> length bs" "io_answers u = [] \<longrightarrow> m = min (unat n) (length bs)"
      using c_fread_eq [OF content' old] by blast
    obtain L' M' ns' where u: "sn_ok u L' M' ns'" "b = abstract M' ns' u" using b(1) by (auto simp: models_def)
    let ?c = "with_bytes q (take m bs @ drop m old) b"
    have "sn_ok ?v L' M' ns'" using old(1) by (intro sn_ok_blocks [OF sn_ok_io [OF u(1)]]) auto
    then have v: "models ?v ?c" by (rule models_keeps) (simp add: u(2) with_bytes_def abstract_def)
    have kv: "keeps_locks {} u ?v" by (simp add: keeps_locks_def released_def)
    have run: "fill_block path n s = (if m \<noteq> unat n then bnd (sn_free q) (\<lambda>_. sn_error SN_ERR_FILE_IO NULL) else ret q) ?v"
      using Done q rd of_nat_eq_size [OF m(1)] by (simp add: fill_block_def)
    show ?thesis
    proof (cases "m = unat n")
      case True
      then have "mount_spec ?z ?t (Some path) ?a (files s) q ?c"
        using mount_spec.mounted [where fs = "files s" and path = path, OF refl content b(2) q] m(2) old(2) by simp
      then show ?thesis using True run k kv v q frame(1) old(2)
        by (auto simp: ends_def ret_def keeps_locks_def unat_of_nat_size)
    next
      case False
      have ob: "owned b" by (rule malloc_spec_owned [OF b(2) o])
      have oc: "owned ?c" by (rule owned_with_bytes [OF ob]) (use old m in \<open>auto simp: models_memory_of' [OF b(1)]\<close>)
      obtain w where w: "sn_free q ?v = Done () w" "keeps_locks (may_leak ?v ?c) ?v w" "models w (free_spec q ?c)"
        using free_answers [OF v oc, of q] by (auto simp: answers_def runs_def)
      have "registry ?c \<noteq> []" using b(2) q by cases (auto simp: with_block_def with_bytes_def)
      then have kw: "keeps_locks {} ?v w" using w(2) by (simp add: may_leak_def)
      have w': "models w (free_spec q b)" using w(3) free_with_bytes [OF b(2) q o] by simp
      obtain L2 M2 ns2 where w2: "sn_ok w L2 M2 ns2" "free_spec q b = abstract M2 ns2 w" using w' by (auto simp: models_def)
      obtain y where y: "sn_error SN_ERR_FILE_IO NULL w = Done NULL y" "keeps_locks {} w y"
          "models y (failed SN_ERR_FILE_IO (free_spec q b))"
        using error_io [OF w2(1), of SN_ERR_FILE_IO NULL] unfolding w2(2) by (auto simp: runs_def)
      have "keeps_locks {} s y" using k kv kw y(2) by (auto simp: keeps_locks_def)
      moreover have "mount_spec ?z ?t (Some path) ?a (files s) NULL (failed SN_ERR_FILE_IO (free_spec q b))"
        by (rule mount_spec.short [where path = path, OF refl _ b(2) q]) (use content in simp)
      moreover have "\<not> (io_answers s = [] \<and> n = of_nat (length bs) \<and> length bs < 2 ^ 64)"
        using False m(3) frame(2) by (auto simp: unat_of_nat_size)
      moreover have "fill_block path n s = Done NULL y" using run False w(1) y(1) by simp
      ultimately show ?thesis using y(3) by (auto simp: ends_def)
    qed
  qed
qed


lemma ends_via: "\<lbrakk>m s = m' s'; ends m' s' P K; \<And>r t. P r t \<Longrightarrow> Q r t; \<And>h. K h \<Longrightarrow> H h\<rbrakk> \<Longrightarrow> ends m s Q H"
  by (auto simp: ends_def split: outcome.splits)

lemma last_access_live_io [simp]: "last_access_live (io s fs q) = last_access_live s"
  by (simp add: last_access_live_def)

lemma room_io [simp]: "room (io s fs q) = room s"
  by (simp add: room_def)

text \<open>A failed answer of the C library: an error is set and the call returns null.\<close>

lemma mount_fails:
  assumes m: "sn_ok s L M ns" and run: "sn_mount_file_to_ram target s = sn_error e NULL (io s (files s) q)"
    and spec: "mount_spec z t target (abstract M ns s) (files s) NULL (failed e (abstract M ns s))"
  shows "runs (sn_mount_file_to_ram target) s (\<lambda>r u. r = NULL \<and> keeps_locks {} s u \<and>
    (\<exists>b. models u b \<and> mount_spec z t target (abstract M ns s) (files s) r b) \<and> files u = files s)"
  using spec by (intro runs_via [where m = "sn_mount_file_to_ram target" and s = s,
      OF run error_io [OF sn_ok_io [OF m]]]) auto

lemma mount_ends:
  assumes m: "models s a" and o: "owned a" and room: "room s"
  shows "ends (sn_mount_file_to_ram target) s (\<lambda>r u. keeps_locks {} s u \<and>
      (\<exists>b. models u b \<and> mount_spec (cfg_sanitize s) (thread_id s) target a (files s) r b) \<and>
      (r \<noteq> NULL \<longrightarrow> files u = files s) \<and>
      (\<forall>path bs. target = Some path \<and> files s path = Some bs \<and> io_answers s = [] \<and> 0 < length bs \<and>
         length bs < 2 ^ 64 \<longrightarrow> r \<noteq> NULL \<and> blocks u r = Some bs))
    (\<lambda>h. h = Aborted \<or> h = Exited 20 \<or> h = UB \<and> \<not> last_access_live s)"
  using m
proof (rule models_cases)
  fix L M ns assume ok: "sn_ok s L M ns" and a: "a = abstract M ns s"
  let ?z = "cfg_sanitize s" and ?t = "thread_id s"
  let ?post = "\<lambda>r u. keeps_locks {} s u \<and> (\<exists>b. models u b \<and> mount_spec ?z ?t target a (files s) r b) \<and>
      (r \<noteq> NULL \<longrightarrow> files u = files s) \<and>
      (\<forall>path bs. target = Some path \<and> files s path = Some bs \<and> io_answers s = [] \<and> 0 < length bs \<and>
         length bs < 2 ^ 64 \<longrightarrow> r \<noteq> NULL \<and> blocks u r = Some bs)"
  let ?loads = "\<exists>path bs. target = Some path \<and> files s path = Some bs \<and> io_answers s = [] \<and> 0 < length bs \<and> length bs < 2 ^ 64"
  have fails: "ends (sn_mount_file_to_ram target) s ?post (\<lambda>h. h = Aborted \<or> h = Exited 20 \<or> h = UB \<and> \<not> last_access_live s)"
    if "sn_mount_file_to_ram target s = sn_error e NULL (io s (files s) q)"
      "mount_spec ?z ?t target a (files s) NULL (failed e a)" "\<not> ?loads" for e q
    using that(3) by (intro runs_ends runs_mono [OF mount_fails [OF ok that(1) that(2) [unfolded a]]]) (auto simp: a)
  show ?thesis
  proof (cases target)
    case None
    have "sn_mount_file_to_ram target s = sn_error SN_ERR_NULL_PTR NULL (io s (files s) (io_answers s))"
      unfolding io_same None sn_mount_file_to_ram_def option.simps by (rule refl)
    then show ?thesis by (rule fails [OF _ mount_spec.null]) (simp_all add: None)
  next
    case (Some path)
    obtain ex q1 where ex: "file_exists path s = Done ex (io s (files s) q1)" "ex \<longrightarrow> files s path \<noteq> None"
        "io_answers s = [] \<longrightarrow> q1 = [] \<and> ex = (files s path \<noteq> None)"
      using file_exists_eq [of path s] by blast
    obtain f q2 where f: "fopen_rb path (io s (files s) q1) = Done f (io s (files s) q2)" "f \<longrightarrow> files s path \<noteq> None"
        "q1 = [] \<longrightarrow> q2 = [] \<and> f = (files s path \<noteq> None)"
      using fopen_rb_eq [of path "io s (files s) q1"] by auto
    obtain n q3 where n: "ftell_end path (io s (files s) q2) = Done n (io s (files s) q3)"
        "q2 = [] \<longrightarrow> q3 = [] \<and> (\<forall>bs. files s path = Some bs \<longrightarrow> n = of_nat (length bs))"
      using ftell_end_eq [of path "io s (files s) q2"] by auto
    have run: "sn_mount_file_to_ram target s =
       (if \<not> ex then sn_error SN_ERR_FILE_NOT_EXIST NULL (io s (files s) q1)
        else if \<not> f then sn_error SN_ERR_FILE_IO NULL (io s (files s) q2)
        else if n \<le> 0 then sn_error SN_ERR_BAD_SIZE NULL (io s (files s) q3)
        else fill_block path n (io s (files s) q3))"
      using ex(1) f(1) n(1) by (simp add: Some sn_mount_file_to_ram_eq)
    consider (absent) "\<not> ex" | (unopened) "ex" "\<not> f" | (empty) "ex" "f" "n \<le> 0" | (load) "ex" "f" "\<not> n \<le> 0" by blast
    then show ?thesis
    proof cases
      case absent
      have "sn_mount_file_to_ram target s = sn_error SN_ERR_FILE_NOT_EXIST NULL (io s (files s) q1)"
        using absent run by simp
      then show ?thesis by (rule fails [OF _ mount_spec.absent [OF Some]]) (use absent ex(3) Some in auto)
    next
      case unopened
      have "sn_mount_file_to_ram target s = sn_error SN_ERR_FILE_IO NULL (io s (files s) q2)"
        using unopened run by simp
      then show ?thesis by (rule fails [OF _ mount_spec.unopened [OF Some]]) (use unopened ex f(3) Some in auto)
    next
      case empty
      have "\<not> ?loads"
      proof
        assume ?loads
        then obtain bs where bs: "files s path = Some bs" "io_answers s = []" "0 < length bs" "length bs < 2 ^ 64"
          using Some by auto
        then have "unat n = length bs" using ex(3) f(3) n(2) by (simp add: unat_of_nat_size)
        then show False using empty(3) bs(3) by simp
      qed
      moreover have "sn_mount_file_to_ram target s = sn_error SN_ERR_BAD_SIZE NULL (io s (files s) q3)"
        using empty run by simp
      moreover have "mount_spec ?z ?t target a (files s) NULL (failed SN_ERR_BAD_SIZE a)"
        by (rule mount_spec.empty [OF Some]) (use empty ex(2) in blast)
      ultimately show ?thesis by (intro fails)
    next
      case load
      then obtain bs where bs: "files s path = Some bs" using ex(2) by blast
      have "ends (fill_block path n) (io s (files s) q3) (\<lambda>r u. keeps_locks {} s u \<and>
          (\<exists>b. models u b \<and> mount_spec ?z ?t (Some path) a (files s) r b) \<and> (r \<noteq> NULL \<longrightarrow> files u = files s) \<and>
          (q3 = [] \<and> n = of_nat (length bs) \<and> length bs < 2 ^ 64 \<longrightarrow> r \<noteq> NULL \<and> blocks u r = Some bs))
        (\<lambda>h. h = Aborted \<or> h = Exited 20 \<or> h = UB \<and> \<not> last_access_live s)"
        using fill_block_ends [OF sn_ok_io [OF ok, of "files s" q3], of path bs n] o room bs by (simp add: a)
      then show ?thesis
        by (rule ends_via [where m = "sn_mount_file_to_ram target" and s = s, rotated])
          (use load run ex(3) f(3) n(2) bs in \<open>auto simp: Some\<close>)
    qed
  qed
qed

end
