(* ===== verification/Scenarios.thy ===== *)
theory Scenarios
  imports SN_Setup
begin

text \<open>
  Concrete machines on which the theorems are applied: an empty process whose allocator
  hands out \<open>4096, 8192, \<dots>\<close>, the library after loading, and after one \<open>sn_malloc\<close>.
\<close>

definition process :: machine where
  "process = \<lparr>nodes = Map.empty, lists = Map.empty, managers = Map.empty, mutexes = Map.empty,
     blocks = Map.empty,
     malloc_answers = [(4096, []), (8192, []), (12288, []), (16384, []), (20480, []), (24576, []), (28672, []), (32768, []), 
       (36864, []), (40960, []), (45056, []), (49152, []), (53248, []), (57344, []), (61440, []), (65536, [])],
     mutex_init_answers = [], files = Map.empty, io_answers = [], current = 7, cfg_mutex = True,
     cfg_sanitize = True, mem_list = NULL, alloc_mutex = NULL, memory_manager = NULL, doFree = True,
     error_code = 0\<rparr>"

definition booted :: machine where "booted = state_of (library_init process)"

definition one_block :: machine where "one_block = state_of (sn_malloc 16 booted)"

lemmas run_process [run] = process_def

lemma process_ok: "split_ok process" "current process \<noteq> 0"
  by (auto simp: process_def split_ok_def)

text \<open>The two machines, field by field.\<close>

lemma booted_run:
  "booted = \<lparr>nodes = [8192 \<mapsto> \<lparr>e_previous = 0, e_data = 0, e_size = 0, e_tid = 7, e_cached = False,
     e_block_id = 0, e_isHead = True, e_weight = 0, e_mutex = 0, e_next = 0\<rparr>], lists = [4096 \<mapsto>
     \<lparr>l_head = 8192, l_len = 0, l_firstEntry = 8192, l_lastEntry = 8192, l_lastAccess = 0, l_mutex =
     12288\<rparr>], managers = [20480 \<mapsto> \<lparr>m_cache_list = [\<lparr>cp_key = 0, cp_value = 0\<rparr>,
     \<lparr>cp_key = 0, cp_value = 0\<rparr>, \<lparr>cp_key = 0, cp_value = 0\<rparr>, \<lparr>cp_key = 0, cp_value
     = 0\<rparr>, \<lparr>cp_key = 0, cp_value = 0\<rparr>], m_available_cache_slots = 5, m_cache_lock = False,
     m_use_cache = True, m_alloc_limit = 0, m_global_memory_usage = 0, m_mutex_ref = 16384\<rparr>], mutexes = [12288
     \<mapsto> \<lparr>mx_owner = None, mx_locker_tid = 0\<rparr>, 16384 \<mapsto> \<lparr>mx_owner = None,
     mx_locker_tid = 0\<rparr>], blocks = \<lambda>x. None, malloc_answers = [(24576, []), (28672, []), (32768, []),
     (36864, []), (40960, []), (45056, []), (49152, []), (53248, []), (57344, []), (61440, []), (65536, [])],
     mutex_init_answers = [], files = \<lambda>x. None, io_answers = [], current = 7, cfg_mutex = True, cfg_sanitize =
     True, mem_list = 4096, alloc_mutex = 16384, memory_manager = 20480, doFree = True, error_code = 0\<rparr>"
  by (simp add: booted_def run)

lemma one_block_run:
  "one_block = \<lparr>nodes = [8192 \<mapsto> \<lparr>e_previous = 0, e_data = 0, e_size = 0, e_tid = 7, e_cached = False,
     e_block_id = 0, e_isHead = True, e_weight = 0, e_mutex = 0, e_next = 28672\<rparr>, 28672 \<mapsto>
     \<lparr>e_previous = 8192, e_data = 24576, e_size = 16, e_tid = 7, e_cached = False, e_block_id = 0, e_isHead =
     False, e_weight = 0, e_mutex = 12288, e_next = 0\<rparr>], lists = [4096 \<mapsto> \<lparr>l_head = 8192, l_len =
     1, l_firstEntry = 28672, l_lastEntry = 28672, l_lastAccess = 0, l_mutex = 12288\<rparr>], managers = [20480
     \<mapsto> \<lparr>m_cache_list = [\<lparr>cp_key = 0, cp_value = 0\<rparr>, \<lparr>cp_key = 0, cp_value =
     0\<rparr>, \<lparr>cp_key = 0, cp_value = 0\<rparr>, \<lparr>cp_key = 0, cp_value = 0\<rparr>, \<lparr>cp_key =
     0, cp_value = 0\<rparr>], m_available_cache_slots = 5, m_cache_lock = False, m_use_cache = True, m_alloc_limit =
     0, m_global_memory_usage = 16, m_mutex_ref = 16384\<rparr>], mutexes = [16384 \<mapsto> \<lparr>mx_owner = None,
     mx_locker_tid = 0\<rparr>, 12288 \<mapsto> \<lparr>mx_owner = None, mx_locker_tid = 0\<rparr>], blocks = [24576
     \<mapsto> [0, 0, 0, 0, 0, 0, 0, 0, 0, 0, 0, 0, 0, 0, 0, 0]], malloc_answers = [(32768, []), (36864, []), (40960,
     []), (45056, []), (49152, []), (53248, []), (57344, []), (61440, []), (65536, [])], mutex_init_answers = [],
     files = \<lambda>x. None, io_answers = [], current = 7, cfg_mutex = True, cfg_sanitize = True, mem_list = 4096,
     alloc_mutex = 16384, memory_manager = 20480, doFree = True, error_code = 0\<rparr>"
  by (simp add: one_block_def booted_run run)

lemma booted_eq: "library_init process = Done () booted"
proof -
  have "\<exists>t. library_init process = Done () t" by (simp add: run)
  then show ?thesis by (auto simp: booted_def)
qed

lemma booted_models: "models booted (loaded process)" "room booted"
  using doinit_ends [OF process_ok] booted_eq by (auto simp: ends_def library_init_def)

lemma booted_fields: "thread_id booted = 7" "cfg_sanitize booted" "current booted = 7" "cfg_mutex booted"
  by (simp_all add: booted_run run thread_id_def)

lemma one_block_eq: "sn_malloc 16 booted = Done 24576 one_block"
proof -
  have "\<exists>t. sn_malloc 16 booted = Done 24576 t" by (simp add: booted_run run)
  then show ?thesis by (auto simp: one_block_def)
qed

definition one_block_state :: sn_state where
  "one_block_state = with_block 24576 (replicate 16 0) 16 16 7 (loaded process)"

lemma one_block_models: "models one_block one_block_state"
proof -
  obtain L M ns where ok: "sn_ok booted L M ns" and a: "loaded process = abstract M ns booted"
    using booted_models(1) by (auto simp: models_def)
  obtain b where b: "models one_block b" "malloc_spec True 7 16 (loaded process) 24576 b"
    using malloc_refines [OF ok booted_models(2), of 16] one_block_eq booted_fields a
    by (auto simp: ends_def)
  from b(2) have "b = one_block_state" by cases (auto simp: one_block_state_def)
  then show ?thesis using b(1) by simp
qed

lemma one_block_owned: "owned one_block_state"
  by (simp add: one_block_state_def owned_def with_block_def loaded_def)

lemma one_block_find: "find_block 24576 (registry one_block_state) =
    Some \<lparr>tb_data = 24576, tb_size = 16, tb_tid = 7, tb_id = 0\<rparr>"
  by (simp add: one_block_state_def with_block_def loaded_def find_block_def)

lemma one_block_room: "room one_block"
  by (simp add: one_block_def booted_run run room_def)

end
