(* ===== verification/Api_Steps.thy ===== *)
theory Api_Steps
  imports File_Contract Scenarios
begin

text \<open>
  Programs that use the library, as sequences of steps: calls of the public functions,
  switches between threads while no lock is held, and what the program does on its own with
  the heap (allocating, writing to and freeing memory the library does not track). The
  invariant of every reachable state, and what each call may do from it.
\<close>

section \<open>Calls\<close>

datatype api_call =
  Malloc size_t | Calloc size_t size_t | Malloc_pre_initialized size_t byte | Realloc ptr size_t | Free ptr
| Register ptr | Register_size ptr size_t
| Query_size ptr | Query_tid ptr | Is_tracked ptr | Set_block_id ptr block_id_t | Get_block_id ptr
| Query_block_id block_id_t | Calculate_checksum ptr | Thread_usage tid_t | Total_usage | Set_alloc_limit size_t
| Request_cache ptr | Lock_cache | Unlock_cache | Do_caching bool | Clear_cache
| Get_last_error | Reset_last_error | Auto_free bool
| Query_metadata ptr | Query_static_metadata ptr | Size_in_block_size ptr size_t | Dump_to_file "string option" ptr

text \<open>Every result fits in a machine word; a call without a result answers 0.\<close>

definition word_of_bool :: "bool \<Rightarrow> 64 word" where
  "word_of_bool b = (if b then 1 else 0)"

definition void :: "unit lib \<Rightarrow> (64 word) lib" where "void m = bnd m (\<lambda>_. ret 0)"

definition flag :: "bool lib \<Rightarrow> (64 word) lib" where "flag m = bnd m (\<lambda>b. ret (word_of_bool b))"

fun run_call :: "api_call \<Rightarrow> (64 word) lib" where
  "run_call (Malloc n) = sn_malloc n"
| "run_call (Calloc num n) = sn_calloc num n"
| "run_call (Malloc_pre_initialized n v) = sn_malloc_pre_initialized n v"
| "run_call (Realloc p n) = sn_realloc p n"
| "run_call (Free p) = void (sn_free p)"
| "run_call (Register p) = sn_register p"
| "run_call (Register_size p n) = sn_register_size p n"
| "run_call (Query_size p) = sn_query_size p"
| "run_call (Query_tid p) = sn_query_tid p"
| "run_call (Is_tracked p) = flag (sn_is_tracked_block p)"
| "run_call (Set_block_id p i) = void (sn_set_block_id p i)"
| "run_call (Get_block_id p) = bnd (sn_get_block_id p) (\<lambda>i. ret (ucast i))"
| "run_call (Query_block_id i) = sn_query_block_id i"
| "run_call (Calculate_checksum p) = sn_calculate_checksum p"
| "run_call (Thread_usage t) = sn_query_thread_memory_usage t"
| "run_call Total_usage = sn_query_total_memory_usage"
| "run_call (Set_alloc_limit n) = void (sn_set_alloc_limit n)"
| "run_call (Request_cache p) = flag (sn_request_to_fast_cache p)"
| "run_call Lock_cache = void sn_lock_fast_cache"
| "run_call Unlock_cache = void sn_unlock_fast_cache"
| "run_call (Do_caching b) = void (sn_do_fast_caching b)"
| "run_call Clear_cache = void sn_fast_cache_clear"
| "run_call Get_last_error = bnd sn_get_last_error (\<lambda>e. ret (ucast e))"
| "run_call Reset_last_error = void sn_reset_last_error"
| "run_call (Auto_free b) = void (sn_do_auto_free_at_exit b)"
| "run_call (Query_metadata p) = sn_query_metadata p"
| "run_call (Query_static_metadata p) = sn_query_static_metadata p"
| "run_call (Size_in_block_size p k) = sn_query_size_in_block_size p k"
| "run_call (Dump_to_file target p) = flag (sn_dump_to_file target p)"

text \<open>
  What a call may answer, on the abstract state; \<open>z\<close>: memory is sanitized, \<open>t\<close>: the calling
  thread. The cache is not part of the abstract state, so the cache-first queries may answer
  0 for a tracked block.
\<close>

definition recorded :: "ptr \<Rightarrow> (tracked_block \<Rightarrow> 64 word) \<Rightarrow> sn_state \<Rightarrow> 64 word \<Rightarrow> bool" where
  "recorded p f a r \<longleftrightarrow> r = 0 \<or> (\<exists>x. find_block p (registry a) = Some x \<and> r = f x)"

fun call_spec :: "bool \<Rightarrow> tid_t \<Rightarrow> api_call \<Rightarrow> sn_state \<Rightarrow> 64 word \<Rightarrow> sn_state \<Rightarrow> bool" where
  "call_spec z t (Malloc n) a r b = malloc_spec z t n a r b"
| "call_spec z t (Calloc num n) a r b = calloc_spec t num n a r b"
| "call_spec z t (Malloc_pre_initialized n v) a r c = (\<exists>b. malloc_spec z t n a r b \<and> c = filled r n v b)"
| "call_spec z t (Realloc p n) a r b = realloc_spec p n a r b"
| "call_spec z t (Free p) a r b = (b = free_spec p a)"
| "call_spec z t (Register p) a r b = (r = p \<and> b = registered p 0 t a)"
| "call_spec z t (Register_size p n) a r b = ((r, b) = register_spec t p n a)"
| "call_spec z t (Query_size p) a r b = (b = queried p a \<and>
     r = (if p = NULL then 0 else case find_block p (registry a) of None \<Rightarrow> 0 | Some b \<Rightarrow> tb_size b))"
| "call_spec z t (Query_tid p) a r b = (b = queried p a \<and> recorded p tb_tid a r)"
| "call_spec z t (Is_tracked p) a r b =
     (r = word_of_bool (p \<noteq> NULL) \<and> b = (if p = NULL then failed SN_ERR_NULL_PTR a else a))"
| "call_spec z t (Set_block_id p i) a r b = (b = set_id_spec False p i a \<or> b = set_id_spec True p i a)"
| "call_spec z t (Get_block_id p) a r b = (b = queried p a \<and> recorded p (\<lambda>x. ucast (tb_id x)) a r)"
| "call_spec z t (Query_block_id i) a r b =
     (if i = 0 then r = NULL \<and> b = failed SN_ERR_BAD_BLOCK_ID a
      else (\<exists>x \<in> set (registry a). tb_id x = i \<and> tb_data x = r) \<and> b = a \<or>
        r = NULL \<and> b = (if has_id i a then a else failed SN_ERR_NO_ADDER_FOUND a))"
| "call_spec z t (Calculate_checksum p) a r b = (r < 2 ^ 17 \<and> (b = queried p a \<or> b = failed SN_ERR_BAD_SIZE a))"
| "call_spec z t (Thread_usage u) a r b = (r = thread_usage u (registry a) \<and> b = a)"
| "call_spec z t Total_usage a r b = (r = usage a \<and> b = a)"
| "call_spec z t (Set_alloc_limit n) a r b = (b = a\<lparr>cap := n\<rparr>)"
| "call_spec z t (Request_cache p) a r b = (b = queried p a)"
| "call_spec z t Get_last_error a r b = (r = ucast (last_error a) \<and> b = a)"
| "call_spec z t Reset_last_error a r b = (b = failed SN_ERR_OK a)"
| "call_spec z t (Query_metadata p) a r b =
     (b = queried p a \<and> (r \<noteq> NULL \<longrightarrow> p \<noteq> NULL \<and> find_block p (registry a) \<noteq> None))"
| "call_spec z t (Query_static_metadata p) a r b = static_spec z t p a r b"
| "call_spec z t (Size_in_block_size p k) a r b = (b = queried p a \<and>
     r = (if p = NULL then 0 else case find_block p (registry a) of None \<Rightarrow> 0 | Some b \<Rightarrow> tb_size b div k))"
| "call_spec z t (Dump_to_file target p) a r b =
     (\<exists>fs ok fs'. r = word_of_bool ok \<and> dump_spec target p a fs ok b fs')"
| "call_spec z t _ a r b = (b = a)"

text \<open>
  What the caller must keep to: there is room for one more entry (the list counts its pushes
  in a \<open>size_t\<close>), a block to be resized is not in the cache, a block handed over is a live
  heap block of the size given, a block is only put into a cache that has a slot, and the
  size in elements is asked for elements of a size other than 0.
\<close>

fun permitted :: "machine \<Rightarrow> sn_state \<Rightarrow> api_call \<Rightarrow> bool" where
  "permitted s a (Malloc n) = room s"
| "permitted s a (Calloc num n) = room s"
| "permitted s a (Malloc_pre_initialized n v) = room s"
| "permitted s a (Realloc p n) = uncached s p"
| "permitted s a (Register p) = (room s \<and> p \<noteq> NULL \<and> find_block p (registry a) = None \<and> memory a p \<noteq> None)"
| "permitted s a (Register_size p n) = (room s \<and> (p \<noteq> NULL \<and> n \<noteq> 0 \<and> find_block p (registry a) = None \<longrightarrow>
     (\<exists>bs. memory a p = Some bs \<and> unat n \<le> length bs)))"
| "permitted s a (Request_cache p) = (cache_open s \<longrightarrow> cache_room s)"
| "permitted s a (Query_static_metadata p) = room s"
| "permitted s a (Size_in_block_size p k) = (k \<noteq> 0)"
| "permitted s a _ = True"

section \<open>Every call meets its specification\<close>

lemma serves_bnd_ret: "serves m s a R \<Longrightarrow> serves (bnd m (\<lambda>x. ret (f x))) s a (\<lambda>r b. \<exists>x. r = f x \<and> R x b)"
  unfolding serves_def by (erule ends_bnd) (auto simp: ret_def ends_def)

lemma serves_void: "serves m s a R \<Longrightarrow> (\<And>b. R () b \<Longrightarrow> S 0 b) \<Longrightarrow> serves (void m) s a S"
  unfolding void_def by (rule serves_mono [OF serves_bnd_ret [of m s a R "\<lambda>_. 0"]]) auto

lemma serves_flag: "serves m s a R \<Longrightarrow> (\<And>r b. R r b \<Longrightarrow> S (word_of_bool r) b) \<Longrightarrow> serves (flag m) s a S"
  unfolding flag_def by (rule serves_mono [OF serves_bnd_ret [of m s a R word_of_bool]]) auto

lemma find_block_None: "find_block p bs = None \<longleftrightarrow> p \<notin> tb_data ` set bs"
  by (auto simp: find_block_def find_None_iff)

lemma owned_cong: "\<lbrakk>owned a; registry b = registry a; memory b = memory a\<rbrakk> \<Longrightarrow> owned b"
  by (simp add: owned_def)

lemma owned_updates [simp]:
  "owned (queried p a) = owned a" "owned (looked_up p a) = owned a" "owned (a\<lparr>cap := n\<rparr>) = owned a"
  by (simp_all add: queried_def looked_up_def owned_def failed_def)

lemma owned_with_id:
  assumes "owned a"
  shows "owned (a\<lparr>registry := with_id p i (registry a)\<rparr>)"
proof -
  have "map tb_data (with_id p i (registry a)) = map tb_data (registry a)" by (simp add: with_id_def)
  moreover have "\<exists>y \<in> set (registry a). tb_data x = tb_data y \<and> tb_size x = tb_size y"
    if "x \<in> set (with_id p i (registry a))" for x
    using that by (auto simp: with_id_def)
  ultimately show ?thesis using assms unfolding owned_def by fastforce
qed

lemma owned_set_id: "owned a \<Longrightarrow> owned (set_id_spec c p i a)"
  by (simp add: set_id_spec_def owned_with_id)

lemma owned_registered:
  assumes "owned a" "p \<noteq> NULL" "find_block p (registry a) = None" "memory a p = Some bs" "unat n \<le> length bs"
  shows "owned (registered p n t a)"
  using assms by (fastforce simp: owned_def registered_def find_block_None)

lemma owned_filled:
  assumes "malloc_spec z t n a r b" "owned a"
  shows "owned (filled r n v b)"
proof -
  have o: "owned b" by (rule malloc_spec_owned [OF assms])
  show ?thesis
  proof (cases "r = NULL")
    case False
    with assms(1) have "\<exists>bs. b = with_block r bs n n t a" by cases auto
    then obtain bs where "b = with_block r bs n n t a" by blast
    then show ?thesis using o False by (fastforce simp: filled_def owned_def with_block_def)
  qed (simp add: filled_def o)
qed

lemma static_spec_owned:
  assumes "static_spec z t p a r b" "owned a"
  shows "owned b"
  using assms(1)
proof cases
  case (no_block)
  then show ?thesis using malloc_spec_owned assms(2) by (auto simp: queried_def)
next
  case (copied x b' bs)
  have "\<exists>old. memory b' r = Some old \<and> length old = 32" using malloc_spec_memory [OF copied(3,4)] by simp
  then show ?thesis using owned_with_bytes [of b' r _ bs] malloc_spec_owned [OF copied(3) assms(2)] copied
    by (auto simp: with_copy_def with_bytes_def)
qed (use assms(2) in simp)

lemma dump_spec_owned: "\<lbrakk>dump_spec target p a fs r b fs'; owned a\<rbrakk> \<Longrightarrow> owned b"
  by (erule dump_spec.cases) auto

lemma mount_spec_owned:
  assumes "mount_spec z t target a fs r b" "owned a"
  shows "owned b"
  using assms(1)
proof cases
  case (short path n c q)
  then show ?thesis using free_spec_owned malloc_spec_owned assms(2) by auto
next
  case (mounted path bs n c)
  obtain old where "memory c r = Some old" "length old = unat n" using malloc_spec_memory [OF mounted(4,5)] by blast
  then show ?thesis using owned_with_bytes [of c r old "take (unat n) bs"] malloc_spec_owned [OF mounted(4) assms(2)] mounted
    by simp
qed (use assms(2) in simp_all)

text \<open>One contract per call, with the invariant \<open>owned\<close> kept.\<close>

lemma call_keeps_owned:
  assumes "call_spec z t c a r b" "owned a" "permitted s a c"
  shows "owned b"
proof (cases c)
  case (Malloc n)
  then show ?thesis using assms malloc_spec_owned by auto
next
  case (Calloc num n)
  then show ?thesis using assms calloc_spec_owned by auto
next
  case (Malloc_pre_initialized n v)
  then show ?thesis using assms owned_filled by auto
next
  case (Realloc p n)
  then show ?thesis using assms realloc_spec_owned by auto
next
  case (Free p)
  then show ?thesis using assms free_spec_owned by auto
next
  case (Register p)
  then show ?thesis using assms owned_registered [of a p _ 0 t] by auto
next
  case (Register_size p n)
  then show ?thesis using assms owned_registered [of a p _ n t]
    by (auto simp: register_spec_def registered_def split: if_splits)
next
  case (Set_block_id p i)
  then show ?thesis using assms owned_set_id by auto
next
  case (Query_static_metadata p)
  then show ?thesis using assms static_spec_owned by auto
next
  case (Dump_to_file target p)
  then show ?thesis using assms dump_spec_owned by auto
qed (use assms in \<open>auto split: if_splits\<close>)

lemma block_checksum_small: "block_checksum n bs < 2 ^ 17"
proof (cases "n = 1")
  case True
  have "uint (ucast (bs ! 0 XOR 255) :: 64 word) = uint (bs ! 0 XOR 255 :: byte)"
    by (rule uint_up_ucast) (simp add: is_up)
  also have "\<dots> < 256" using uint_byte(2) [of "bs ! 0 XOR 255"] by simp
  finally show ?thesis using True by (simp add: block_checksum_def word_less_def)
next
  case False
  then show ?thesis using checksum_bytes_small [of "take (unat n) bs"] by (simp only: block_checksum_def if_False)
qed

lemma cached_is_tracked:
  assumes "models s a" "owned a" "cached s p" "p \<noteq> NULL"
  shows "find_block p (registry a) \<noteq> None"
  using assms(1)
proof (rule models_cases)
  fix L M ns assume ok: "sn_ok s L M ns" and a: "a = abstract M ns s"
  show ?thesis using cached_tracked [OF ok assms(4)] assms(2,3) by (auto simp: a cached_iff [OF ok] owned_distinct)
qed

text \<open>The contracts of the previous theory, brought to the form of \<open>call_spec\<close>, in groups.\<close>

abbreviation meets :: "machine \<Rightarrow> sn_state \<Rightarrow> api_call \<Rightarrow> bool" where
  "meets s a c \<equiv> serves (run_call c) s a (call_spec (cfg_sanitize s) (thread_id s) c a)"

lemma allocation_contracts:
  assumes m: "models s a" and o: "owned a"
  shows "room s \<Longrightarrow> meets s a (Malloc n)" "room s \<Longrightarrow> meets s a (Calloc num n)"
    "room s \<Longrightarrow> meets s a (Malloc_pre_initialized n v)" "uncached s p \<Longrightarrow> meets s a (Realloc p n)"
    "meets s a (Free p)" "room s \<Longrightarrow> meets s a (Register p)" "room s \<Longrightarrow> meets s a (Register_size p n)"
  unfolding run_call.simps
        apply (rule serves_mono [OF malloc_serves [OF m]]; simp)
       apply (rule serves_mono [OF calloc_serves [OF m]]; simp)
      apply (rule serves_mono [OF malloc_pre_initialized_serves [OF m]]; simp)
     apply (rule serves_mono [OF realloc_answers [OF m o, THEN answers_serves]]; simp)
    apply (rule serves_void [OF free_answers [OF m o, THEN answers_serves]]; simp)
   apply (rule serves_mono [OF register_serves [OF m]]; simp)
  apply (rule serves_mono [OF register_size_serves [OF m]]; simp)
  done

lemma lookup_contracts:
  assumes m: "models s a" and o: "owned a"
  shows "meets s a (Query_tid p)" "meets s a (Get_block_id p)" "meets s a (Is_tracked p)"
    "meets s a (Set_block_id p i)" "meets s a (Calculate_checksum p)"
proof -
  show "meets s a (Query_tid p)" unfolding run_call.simps
    by (rule serves_mono [OF query_tid_answers [OF m o, THEN answers_serves]]) (auto simp: recorded_def split: if_splits)
  show "meets s a (Get_block_id p)" unfolding run_call.simps
    by (rule serves_mono [OF serves_bnd_ret [OF get_block_id_answers [OF m o, THEN answers_serves]]])
      (auto simp: recorded_def split: if_splits)
  show "meets s a (Is_tracked p)" unfolding run_call.simps
    by (rule serves_flag [OF is_tracked_answers [OF m o, THEN answers_serves]]) auto
  show "meets s a (Set_block_id p i)" unfolding run_call.simps
    by (rule serves_void [OF set_block_id_answers [OF m o, THEN answers_serves]]) (cases "cached s p"; simp)
  show "meets s a (Calculate_checksum p)" unfolding run_call.simps
    by (rule serves_mono [OF checksum_answers [OF m o, THEN answers_serves]])
      (use cached_is_tracked [OF m o] block_checksum_small in
        \<open>auto simp: queried_def looked_up_def split: if_splits\<close>)
qed

lemma query_contracts:
  assumes m: "models s a"
  shows "meets s a (Query_size p)" "meets s a (Query_block_id i)" "meets s a (Thread_usage u)"
    "meets s a Total_usage" "meets s a Get_last_error"
  unfolding run_call.simps
      apply (rule serves_mono [OF query_size_answers [OF m, THEN answers_serves]]; simp)
     apply (rule serves_mono [OF query_block_id_answers [OF m, THEN answers_serves]]; simp)
    apply (rule serves_mono [OF thread_usage_answers [OF m, THEN answers_serves]]; simp)
   apply (rule serves_mono [OF total_usage_answers [OF m, THEN answers_serves]]; simp)
  apply (rule serves_mono [OF serves_bnd_ret [OF last_error_answers [OF m, THEN answers_serves]]]; auto)
  done

lemma switch_contracts:
  assumes m: "models s a"
  shows "meets s a (Set_alloc_limit n)" "meets s a Lock_cache" "meets s a Unlock_cache" "meets s a (Do_caching v)"
    "meets s a Clear_cache" "meets s a Reset_last_error" "meets s a (Auto_free v)"
    "(cache_open s \<longrightarrow> cache_room s) \<Longrightarrow> meets s a (Request_cache p)"
  unfolding run_call.simps
         apply (rule serves_void [OF set_alloc_limit_answers [OF m, THEN answers_serves]]; simp)
        apply (rule serves_void [OF cache_switch_answers(1) [OF m, THEN answers_serves]]; simp)
       apply (rule serves_void [OF cache_switch_answers(2) [OF m, THEN answers_serves]]; simp)
      apply (rule serves_void [OF cache_switch_answers(3) [OF m, THEN answers_serves]]; simp)
     apply (rule serves_void [OF cache_switch_answers(4) [OF m, THEN answers_serves]]; simp)
    apply (rule serves_void [OF reset_last_error_answers [OF m, THEN answers_serves]]; simp)
   apply (rule serves_void [OF auto_free_answers [OF m, THEN answers_serves]]; simp)
  apply (rule serves_flag [OF request_answers [OF m, THEN answers_serves]]; simp)
  done

lemma size_in_block_size_serves:
  assumes m: "models s a" and k: "k \<noteq> 0"
  shows "serves (sn_query_size_in_block_size p k) s a (\<lambda>r b. b = queried p a \<and>
    r = (if p = NULL then 0 else case find_block p (registry a) of None \<Rightarrow> 0 | Some b \<Rightarrow> tb_size b div k))"
proof -
  have "sn_query_size_in_block_size p k = bnd (sn_query_size p) (\<lambda>n. ret (n div k))"
    using k by (auto simp: sn_query_size_in_block_size_def intro!: arg_cong [of _ _ "bnd (sn_query_size p)"])
  then show ?thesis
    by (simp only:) (rule serves_mono [OF serves_bnd_ret [OF query_size_answers [OF m, THEN answers_serves]]],
      auto split: option.splits)
qed

lemma metadata_contracts:
  assumes m: "models s a" and o: "owned a"
  shows "meets s a (Query_metadata p)" "room s \<Longrightarrow> meets s a (Query_static_metadata p)"
    "k \<noteq> 0 \<Longrightarrow> meets s a (Size_in_block_size p k)" "meets s a (Dump_to_file target p)"
proof -
  have "answers (sn_query_metadata p) s a (\<lambda>r b. b = queried p a \<and>
      (r \<noteq> NULL \<longrightarrow> p \<noteq> NULL \<and> find_block p (registry a) \<noteq> None))"
    unfolding answers_def by (rule runs_mono [OF query_metadata_answers [OF m o]]) (auto split: if_splits)
  then show "meets s a (Query_metadata p)" unfolding run_call.simps
    by (rule serves_mono [OF answers_serves]) simp
  show "meets s a (Query_static_metadata p)" if "room s" unfolding run_call.simps
    by (rule serves_mono [OF static_metadata_serves [OF m o that]]) simp
  show "meets s a (Size_in_block_size p k)" if "k \<noteq> 0" unfolding run_call.simps
    by (rule serves_mono [OF size_in_block_size_serves [OF m that]]) simp
  have "answers (sn_dump_to_file target p) s a (\<lambda>r b. \<exists>fs fs'. dump_spec target p a fs r b fs')"
    unfolding answers_def by (rule runs_mono [OF dump_runs [OF m o]]) blast
  then show "meets s a (Dump_to_file target p)" unfolding run_call.simps
    by (rule serves_flag [OF answers_serves]) auto
qed

lemma call_contract:
  "\<lbrakk>models s a; owned a; permitted s a c\<rbrakk> \<Longrightarrow> meets s a c"
  by (cases c; simp only: permitted.simps allocation_contracts lookup_contracts query_contracts switch_contracts metadata_contracts simp_thms not_False_eq_True)

section \<open>Programs\<close>

text \<open>
  One step of a program: a call that returns, a mount that returns (it may also end the
  program, with the code of the crash handler), a switch to another thread while all locks are
  free, the environment fixing its next answers, or the program using the heap on its own.
\<close>

inductive step :: "machine \<Rightarrow> machine \<Rightarrow> bool" where
  call: "\<lbrakk>models s a; permitted s a c; run_call c s = Done r t\<rbrakk> \<Longrightarrow> step s t"
| mount: "\<lbrakk>models s a; room s; sn_mount_file_to_ram target s = Done r t\<rbrakk> \<Longrightarrow> step s t"
| switch: "\<lbrakk>\<forall>m. released m s; t \<noteq> 0\<rbrakk> \<Longrightarrow> step s (s\<lparr>current := t\<rparr>)"
| environment: "step s (s\<lparr>malloc_answers := ms, mutex_init_answers := mi, files := fs, io_answers := ios\<rparr>)"
| own_malloc: "plat_malloc n s = Done p t \<Longrightarrow> step s t"
| own_write: "\<lbrakk>blocks s p = Some old; length bs = length old\<rbrakk> \<Longrightarrow> step s (s\<lparr>blocks := (blocks s)(p \<mapsto> bs)\<rparr>)"
| own_free: "\<lbrakk>models s a; blocks s p \<noteq> None; find_block p (registry a) = None; plat_free p s = Done u t\<rbrakk> \<Longrightarrow> step s t"

inductive reachable :: "machine \<Rightarrow> bool" where
  loaded: "\<lbrakk>split_ok s; current s \<noteq> 0; library_init s = Done u t\<rbrakk> \<Longrightarrow> reachable t"
| more: "\<lbrakk>reachable s; step s t\<rbrakk> \<Longrightarrow> reachable t"

text \<open>The abstract counterpart of a step.\<close>

inductive abs_step :: "sn_state \<Rightarrow> sn_state \<Rightarrow> bool" where
  call: "call_spec z t c a r b \<Longrightarrow> abs_step a b"
| mount: "mount_spec z t target a fs r b \<Longrightarrow> abs_step a b"
| stay: "abs_step a a"
| fresh: "memory a p = None \<Longrightarrow> abs_step a (a\<lparr>memory := (memory a)(p \<mapsto> bs)\<rparr>)"
| overwrite: "\<lbrakk>memory a p = Some old; length bs = length old\<rbrakk> \<Longrightarrow> abs_step a (a\<lparr>memory := (memory a)(p \<mapsto> bs)\<rparr>)"
| release: "find_block p (registry a) = None \<Longrightarrow> abs_step a (a\<lparr>memory := (memory a)(p := None)\<rparr>)"

text \<open>The steps other than calls, on the concrete state.\<close>

lemma sn_ok_thread:
  assumes ok: "sn_ok s L M ns" and rel: "\<forall>m. released m s" and t: "t \<noteq> 0"
  shows "sn_ok (s\<lparr>current := t\<rparr>) L M ns"
proof -
  have "ready m (s\<lparr>current := t\<rparr>)" if "ready m s" for m
    using that rel [rule_format, of m] t by (auto simp: ready_def released_def)
  moreover have "list_ok (s\<lparr>current := t\<rparr>) (mem_list s) L ns"
    by (rule list_ok_cong [OF sn_okD(1) [OF ok]]) simp_all
  moreover have "split_ok (s\<lparr>current := t\<rparr>)" using sn_okD(6) [OF ok] by (simp add: split_ok_def)
  ultimately show ?thesis using sn_okD(2-5,10) [OF ok] by (simp add: sn_ok_def manager_at_def mutexes_ok_def)
qed

lemma sn_ok_environment:
  assumes ok: "sn_ok s L M ns"
  shows "sn_ok (s\<lparr>malloc_answers := ms, mutex_init_answers := mi, files := fs, io_answers := ios\<rparr>) L M ns"
  by (rule sn_ok_cong [OF ok]) (use sn_okD(6,8) [OF ok] in \<open>auto intro: split_ok_cong\<close>)

lemma models_memory:
  assumes m: "models s a" and b: "models s a \<Longrightarrow> split_ok (s\<lparr>blocks := B\<rparr>)"
  shows "models (s\<lparr>blocks := B\<rparr>) (a\<lparr>memory := B\<rparr>)"
  using m
proof (rule models_cases)
  fix L M ns assume ok: "sn_ok s L M ns" and a: "a = abstract M ns s"
  have "sn_ok (s\<lparr>blocks := B\<rparr>) L M ns"
    by (rule sn_ok_cong [OF ok]) (use sn_okD(8) [OF ok] b [OF m] in auto)
  then show ?thesis by (rule models_keeps) (simp add: a abstract_def)
qed

lemma models_memory_of: "models s a \<Longrightarrow> memory a = blocks s"
  by (auto simp: models_def abstract_def)

lemma owned_memory:
  assumes "owned a" "\<And>x bs. x \<in> set (registry a) \<Longrightarrow> memory a (tb_data x) = Some bs \<Longrightarrow>
    \<exists>bs'. B (tb_data x) = Some bs' \<and> length bs \<le> length bs'"
  shows "owned (a\<lparr>memory := B\<rparr>)"
  using assms unfolding owned_def by (fastforce intro: le_trans)

lemma split_ok_memory:
  assumes "split_ok s" "dom B \<subseteq> insert p (dom (blocks s))" "p \<in> dom (blocks s) \<or> can_place s p n"
  shows "split_ok (s\<lparr>blocks := B\<rparr>)"
proof -
  have p: "p \<notin> dom (nodes s)" "p \<notin> dom (lists s)" "p \<notin> dom (managers s)" "p \<notin> dom (mutexes s)"
    using assms(3) by (auto simp: can_place_dom dest: split_ok_block [OF assms(1)])
  have "A \<inter> dom B = {}" if "A \<inter> dom (blocks s) = {}" "p \<notin> A" for A using that assms(2) by blast
  then show ?thesis using assms(1) p by (simp add: split_ok_def Int_Un_distrib)
qed

section \<open>The invariant of every program\<close>

lemma environment_models:
  assumes "models s a"
  shows "models (s\<lparr>malloc_answers := ms, mutex_init_answers := mi, files := fs, io_answers := ios\<rparr>) a"
  using assms by (rule models_cases) (auto intro!: models_keeps [OF sn_ok_environment] simp: abstract_def)

lemma thread_models:
  assumes "models s a" "\<forall>m. released m s" "t \<noteq> 0"
  shows "models (s\<lparr>current := t\<rparr>) a"
  using assms(1) by (rule models_cases) (auto intro!: models_keeps [OF sn_ok_thread [OF _ assms(2,3)]] simp: abstract_def)

lemma own_malloc_models:
  assumes m: "models s a" and o: "owned a" and run: "plat_malloc n s = Done p t"
  shows "\<exists>b. models t b \<and> owned b \<and> abs_step a b"
proof (cases rule: plat_malloc_cases [of n s])
  case (fail rest)
  then have "models t a" using environment_models [OF m, where ms = rest and mi = "mutex_init_answers s" and fs = "files s" and ios = "io_answers s"] run
    by simp
  then show ?thesis using o abs_step.stay by blast
next
  case (ok q junk rest)
  let ?s = "s\<lparr>malloc_answers := rest\<rparr>" and ?B = "(blocks s)(q \<mapsto> fresh_bytes n junk)"
  have m': "models ?s a" using environment_models [OF m, where ms = rest and mi = "mutex_init_answers s" and fs = "files s" and ios = "io_answers s"] by simp
  have "split_ok (?s\<lparr>blocks := ?B\<rparr>)" if "split_ok ?s"
    using that ok(2) by (intro split_ok_memory [of _ _ q n]) (auto simp: can_place_def live_def)
  moreover have "split_ok ?s" using m' sn_okD(6) by (auto simp: models_def)
  ultimately have "models (?s\<lparr>blocks := ?B\<rparr>) (a\<lparr>memory := ?B\<rparr>)" by (intro models_memory [OF m'])
  moreover have "memory a q = None" using can_place_dom(2) [OF ok(2)] models_memory_of [OF m] by simp
  moreover have "owned (a\<lparr>memory := ?B\<rparr>)"
    using o models_memory_of [OF m] can_place_dom(2) [OF ok(2)] by (intro owned_memory [OF o]) auto
  ultimately show ?thesis using ok(3) run abs_step.fresh [of a q] models_memory_of [OF m] by auto
qed

lemma own_write_models:
  assumes m: "models s a" and o: "owned a" and old: "blocks s p = Some old" "length bs = length old"
  shows "\<exists>b. models (s\<lparr>blocks := (blocks s)(p \<mapsto> bs)\<rparr>) b \<and> owned b \<and> abs_step a b"
proof -
  note mem = models_memory_of [OF m]
  have "split_ok s" using m sn_okD(6) by (auto simp: models_def)
  then have "models (s\<lparr>blocks := (blocks s)(p \<mapsto> bs)\<rparr>) (a\<lparr>memory := (blocks s)(p \<mapsto> bs)\<rparr>)"
    using old by (intro models_memory [OF m] split_ok_memory [of _ _ p 0]) auto
  moreover have "owned (a\<lparr>memory := (blocks s)(p \<mapsto> bs)\<rparr>)" by (rule owned_memory [OF o]) (use old mem in auto)
  moreover have "abs_step a (a\<lparr>memory := (memory a)(p \<mapsto> bs)\<rparr>)" by (rule abs_step.overwrite) (use old mem in auto)
  ultimately show ?thesis using mem by auto
qed

lemma own_free_models:
  assumes m: "models s a" and o: "owned a" and p: "blocks s p \<noteq> None" "find_block p (registry a) = None"
    and run: "plat_free p s = Done u t"
  shows "\<exists>b. models t b \<and> owned b \<and> abs_step a b"
proof (cases "p = NULL")
  case True
  then have "t = s" using run by (simp add: plat_free_def)
  then show ?thesis using m o abs_step.stay by blast
next
  case False
  note mem = models_memory_of [OF m]
  have sp: "split_ok s" using m sn_okD(6) by (auto simp: models_def)
  obtain b where "blocks s p = Some b" using p(1) by blast
  then have t: "t = s\<lparr>blocks := (blocks s)(p := None)\<rparr>" using plat_free_block [OF sp _ False] run by simp
  have "models t (a\<lparr>memory := (blocks s)(p := None)\<rparr>)"
    unfolding t by (rule models_memory [OF m], rule split_ok_memory [OF sp, of _ p 0]) (use p(1) in auto)
  moreover have "owned (a\<lparr>memory := (blocks s)(p := None)\<rparr>)"
    by (rule owned_memory [OF o]) (use p(2) mem in \<open>auto simp: find_block_None\<close>)
  ultimately show ?thesis using abs_step.release [OF p(2)] mem by auto
qed

lemma call_models:
  assumes m: "models s a" and o: "owned a" and p: "permitted s a c" and run: "run_call c s = Done r t"
  shows "\<exists>b. models t b \<and> owned b \<and> abs_step a b"
proof -
  obtain b where "models t b" "call_spec (cfg_sanitize s) (thread_id s) c a r b"
    using call_contract [OF m o p] run by (auto simp: serves_def ends_def)
  then show ?thesis using call_keeps_owned [OF _ o p] abs_step.call by blast
qed

lemma mount_models:
  assumes m: "models s a" and o: "owned a" and room: "room s" and run: "sn_mount_file_to_ram target s = Done r t"
  shows "\<exists>b. models t b \<and> owned b \<and> abs_step a b"
proof -
  obtain b where "models t b" "mount_spec (cfg_sanitize s) (thread_id s) target a (files s) r b"
    using mount_ends [OF m o room, of target] run by (auto simp: ends_def)
  then show ?thesis using mount_spec_owned [OF _ o] abs_step.mount by blast
qed

text \<open>Forward simulation: every step of a program is a step of the abstract state.\<close>

lemma step_simulated:
  assumes "step s t" "models s a" "owned a"
  shows "\<exists>b. models t b \<and> owned b \<and> abs_step a b"
  using assms(1)
proof (cases rule: step.cases)
  case (call a' c r)
  then show ?thesis using call_models [OF assms(2,3)] models_unique [OF assms(2)] by blast
next
  case (mount a' target r)
  then show ?thesis using mount_models [OF assms(2,3)] by blast
next
  case (switch u)
  then show ?thesis using thread_models [OF assms(2)] assms(3) abs_step.stay by blast
next
  case (environment ms mi fs ios)
  then show ?thesis using environment_models [OF assms(2)] assms(3) abs_step.stay by blast
next
  case (own_malloc n p)
  then show ?thesis using own_malloc_models [OF assms(2,3)] by blast
next
  case (own_write p old bs)
  then show ?thesis using own_write_models [OF assms(2,3)] by blast
next
  case (own_free a' p u)
  then show ?thesis using own_free_models [OF assms(2,3)] models_unique [OF assms(2)] by blast
qed

lemma loaded_owned: "owned (loaded s)"
  by (simp add: owned_def loaded_def)

lemma reachable_models: "reachable s \<Longrightarrow> \<exists>a. models s a \<and> owned a"
proof (induction rule: reachable.induct)
  case (loaded s u t)
  then have "models t (SN_Setup.loaded s)" using doinit_ends [of s] by (auto simp: ends_def library_init_def)
  then show ?case using loaded_owned by blast
next
  case (more s t)
  then show ?case using step_simulated by blast
qed

text \<open>Reachable states of the abstract system.\<close>

inductive abs_reachable :: "sn_state \<Rightarrow> bool" where
  loaded: "\<lbrakk>registry a = []; usage a = 0; cap a = 0\<rbrakk> \<Longrightarrow> abs_reachable a"
| more: "\<lbrakk>abs_reachable a; abs_step a b\<rbrakk> \<Longrightarrow> abs_reachable b"

lemma reachable_refines: "reachable s \<Longrightarrow> \<exists>a. models s a \<and> owned a \<and> abs_reachable a"
proof (induction rule: reachable.induct)
  case (loaded s u t)
  then have "models t (SN_Setup.loaded s)" using doinit_ends [of s] by (auto simp: ends_def library_init_def)
  moreover have "abs_reachable (SN_Setup.loaded s)" by (rule abs_reachable.loaded) (simp_all add: loaded_def)
  ultimately show ?case using loaded_owned by blast
next
  case (more s t)
  then show ?case using step_simulated abs_reachable.more by blast
qed

lemma reachable_safe:
  assumes "reachable s" "models s a" "permitted s a c"
  shows "meets s a c"
  using reachable_models [OF assms(1)] models_unique [OF assms(2)] call_contract [OF assms(2) _ assms(3)] by blast

end
