(* ===== verification/Accounting.thy ===== *)
theory Accounting
  imports Api_Steps
begin

text \<open>
  The usage counter of the allocation manager: which calls keep it equal to the sizes on
  record, what a release gives back, and what the limit guarantees.
\<close>

section \<open>The counter and the record\<close>

definition recorded_total :: "tracked_block list \<Rightarrow> size_t" where
  "recorded_total bs = sum_list (map tb_size bs)"

definition balanced :: "sn_state \<Rightarrow> bool" where
  "balanced a \<longleftrightarrow> usage a = recorded_total (registry a)"

lemma recorded_total_simps [simp]:
  "recorded_total [] = 0"
  "recorded_total (b # bs) = tb_size b + recorded_total bs"
  "recorded_total (bs @ cs) = recorded_total bs + recorded_total cs"
  by (simp_all add: recorded_total_def)

lemma recorded_total_sizes: "map tb_size bs = map tb_size cs \<Longrightarrow> recorded_total bs = recorded_total cs"
  by (simp add: recorded_total_def)

lemma recorded_total_remove:
  "find_block p bs = Some b \<Longrightarrow> recorded_total (remove_first (\<lambda>b. tb_data b = p) bs) = recorded_total bs - tb_size b"
  by (induction bs) (auto simp: find_block_def split: if_splits)

lemma resized_other: "p \<notin> tb_data ` set bs \<Longrightarrow> resized p q n bs = bs"
  by (induction bs) (auto simp: resized_def)

lemma recorded_total_resized:
  "\<lbrakk>distinct (map tb_data bs); find_block p bs = Some b\<rbrakk>
   \<Longrightarrow> recorded_total (resized p q n bs) = recorded_total bs - tb_size b + n"
proof (induction bs)
  case (Cons x xs)
  show ?case
  proof (cases "tb_data x = p")
    case True
    then have "resized p q n xs = xs" "b = x"
      using Cons.prems by (auto simp: find_block_def intro!: resized_other)
    then show ?thesis using True by (simp add: resized_def)
  next
    case False
    then have "recorded_total (resized p q n xs) = recorded_total xs - tb_size b + n"
      using Cons by (simp add: find_block_def)
    then show ?thesis using False by (simp add: resized_def)
  qed
qed (simp add: find_block_def)

lemma recorded_total_with_id [simp]: "recorded_total (with_id p i bs) = recorded_total bs"
  by (rule recorded_total_sizes) (simp add: with_id_def)

lemma balanced_fields:
  "\<lbrakk>registry b = registry a; usage b = usage a\<rbrakk> \<Longrightarrow> balanced b = balanced a"
  by (simp add: balanced_def)

lemma balanced_updates [simp]:
  "balanced (failed e a) = balanced a" "balanced (looked_up p a) = balanced a" "balanced (queried p a) = balanced a"
  "balanced (a\<lparr>cap := n\<rparr>) = balanced a" "balanced (a\<lparr>memory := m\<rparr>) = balanced a"
  "balanced (filled r n v a) = balanced a" "balanced (set_id_spec c p i a) = balanced a"
  by (simp_all add: balanced_def failed_def looked_up_def queried_def filled_def set_id_spec_def)

text \<open>A block is on the books when it is accounted for with the size on record.\<close>

lemma balanced_with_block: "balanced a \<Longrightarrow> balanced (with_block p bs n k t a) \<longleftrightarrow> k = n"
  by (simp add: balanced_def with_block_def)

lemma malloc_spec_balanced: "\<lbrakk>malloc_spec z t n a r b; balanced a\<rbrakk> \<Longrightarrow> balanced b"
  by (erule malloc_specE) (simp_all add: balanced_with_block)

lemma calloc_spec_balanced: "\<lbrakk>calloc_spec t num n a r b; balanced a; n * num = n\<rbrakk> \<Longrightarrow> balanced b"
  by (erule calloc_specE) (simp_all add: balanced_with_block)

lemma free_spec_balanced: "balanced a \<Longrightarrow> balanced (free_spec p a)"
  by (auto simp: free_spec_def balanced_def without_block_def failed_def recorded_total_remove split: option.split)

lemma realloc_spec_balanced: "\<lbrakk>realloc_spec p n a r b; owned a; balanced a\<rbrakk> \<Longrightarrow> balanced b"
  by (erule realloc_spec.cases) (simp_all add: balanced_def failed_def recorded_total_resized owned_def)

lemma registered_balanced: "balanced a \<Longrightarrow> balanced (registered p 0 t a)"
  by (simp add: balanced_def registered_def)

lemma static_spec_balanced: "\<lbrakk>static_spec z t p a r b; balanced a\<rbrakk> \<Longrightarrow> balanced b"
  by (erule static_spec.cases) (auto simp: with_copy_def dest: malloc_spec_balanced)

lemma dump_spec_balanced: "\<lbrakk>dump_spec target p a fs r b fs'; balanced a\<rbrakk> \<Longrightarrow> balanced b"
  by (erule dump_spec.cases) auto

text \<open>All calls keep the counter equal to the record, but \<open>sn_calloc\<close> of more than one element
  and \<open>sn_register_size\<close>.\<close>

fun accounts :: "api_call \<Rightarrow> bool" where
  "accounts (Calloc num n) = (n * num = n)"
| "accounts (Register_size p n) = False"
| "accounts c = True"

lemma call_keeps_balance:
  assumes "call_spec z t c a r b" "owned a" "balanced a" "accounts c"
  shows "balanced b"
proof (cases c)
  case (Malloc n)
  then show ?thesis using assms malloc_spec_balanced by auto
next
  case (Calloc num n)
  then show ?thesis using assms calloc_spec_balanced by auto
next
  case (Malloc_pre_initialized n v)
  then show ?thesis using assms malloc_spec_balanced by auto
next
  case (Realloc p n)
  then show ?thesis using assms realloc_spec_balanced by auto
next
  case (Free p)
  then show ?thesis using assms free_spec_balanced by auto
next
  case (Register p)
  then show ?thesis using assms registered_balanced by auto
next
  case (Query_static_metadata p)
  then show ?thesis using assms static_spec_balanced by auto
next
  case (Dump_to_file target p)
  then show ?thesis using assms dump_spec_balanced by auto
qed (use assms in \<open>auto split: if_splits\<close>)

text \<open>Programs that keep to those calls.\<close>

inductive audited :: "machine \<Rightarrow> bool" where
  loaded: "\<lbrakk>split_ok s; current s \<noteq> 0; library_init s = Done u t\<rbrakk> \<Longrightarrow> audited t"
| call: "\<lbrakk>audited s; models s a; permitted s a c; accounts c; run_call c s = Done r t\<rbrakk> \<Longrightarrow> audited t"
| switch: "\<lbrakk>audited s; \<forall>m. released m s; t \<noteq> 0\<rbrakk> \<Longrightarrow> audited (s\<lparr>current := t\<rparr>)"

lemma audited_reachable: "audited s \<Longrightarrow> reachable s"
proof (induction rule: audited.induct)
  case (loaded s u t)
  then show ?case by (rule reachable.loaded)
next
  case (call s a c r t)
  then show ?case using reachable.more step.call by blast
next
  case (switch s t)
  then show ?case using reachable.more step.switch by blast
qed

lemma audited_balanced: "audited s \<Longrightarrow> \<exists>a. models s a \<and> owned a \<and> balanced a"
proof (induction rule: audited.induct)
  case (loaded s u t)
  then have "models t (SN_Setup.loaded s)" using doinit_ends [of s] by (auto simp: ends_def library_init_def)
  moreover have "balanced (SN_Setup.loaded s)" by (simp add: balanced_def loaded_def)
  ultimately show ?case using loaded_owned by blast
next
  case (call s a c r t)
  then have a: "owned a" "balanced a" using models_unique by blast+
  obtain b where "models t b" "call_spec (cfg_sanitize s) (thread_id s) c a r b"
    using call_contract [OF call(2) a(1) call(3)] call(5) by (auto simp: serves_def ends_def)
  then show ?case using call_keeps_owned call_keeps_balance a call(3,4) by blast
next
  case (switch s t)
  then show ?case using thread_models by blast
qed

section \<open>Releases\<close>

lemma find_block_fresh:
  assumes "owned a" "memory a p = None"
  shows "find_block p (registry a) = None"
  using assms by (fastforce simp: owned_def find_block_None)

lemma find_block_append_new: "find_block p bs = None \<Longrightarrow> tb_data x = p \<Longrightarrow> find_block p (bs @ [x]) = Some x"
  by (induction bs) (auto simp: find_block_def split: if_splits)

lemma remove_appended:
  "find_block p bs = None \<Longrightarrow> tb_data x = p \<Longrightarrow> remove_first (\<lambda>b. tb_data b = p) (bs @ [x]) = bs"
  by (rule remove_first_split [of bs _ x "[]", simplified]) (auto simp: find_block_None image_iff)

text \<open>Releasing the newest block undoes its allocation, up to what was accounted for it.\<close>

lemma free_with_block:
  assumes "owned a" "memory a p = None" "p \<noteq> NULL"
  shows "free_spec p (with_block p bs n k t a) = a\<lparr>usage := usage a + k - n\<rparr>"
proof -
  note f = find_block_fresh [OF assms(1,2)]
  have "(memory a)(p := None) = memory a" using assms(2) by (simp add: fun_upd_idem)
  then show ?thesis using assms(3) f
    by (simp add: free_spec_def with_block_def without_block_def find_block_append_new remove_appended)
qed

lemma free_registered:
  assumes "owned a" "find_block p (registry a) = None" "p \<noteq> NULL"
  shows "free_spec p (registered p n t a) = a\<lparr>usage := usage a - n, memory := (memory a)(p := None)\<rparr>"
  using assms(2,3) by (simp add: free_spec_def registered_def without_block_def find_block_append_new remove_appended)

text \<open>A call followed by the release of its result.\<close>

definition and_free :: "ptr lib \<Rightarrow> ptr lib" where
  "and_free m = bnd m (\<lambda>p. bnd (sn_free p) (\<lambda>_. ret p))"

lemma and_free_ends:
  assumes m: "serves m s a R" and o: "\<And>r b. R r b \<Longrightarrow> owned b"
    and new: "\<And>r b. R r b \<Longrightarrow> r \<noteq> NULL \<Longrightarrow> registry b \<noteq> []"
  shows "ends (and_free m) s (\<lambda>p u. \<exists>b. R p b \<and> models u (free_spec p b) \<and>
    (p \<noteq> NULL \<longrightarrow> keeps_locks (may_leak s a) s u)) (\<lambda>h. h = Aborted)"
  unfolding and_free_def
proof (rule ends_bnd [OF m [unfolded serves_def]], elim conjE exE)
  fix p t b assume k: "keeps_locks (may_leak s a) s t" and b: "models t b" "R p b"
  obtain u where u: "sn_free p t = Done () u" "keeps_locks (may_leak t b) t u" "models u (free_spec p b)"
    using free_answers [OF b(1) o [OF b(2)], of p] by (auto simp: answers_def runs_def)
  have "keeps_locks (may_leak s a) s u" if "p \<noteq> NULL"
    using k u(2) new [OF b(2) that] by (auto simp: may_leak_def keeps_locks_def)
  then show "ends (bnd (sn_free p) (\<lambda>_. ret p)) t (\<lambda>p u. \<exists>b. R p b \<and> models u (free_spec p b) \<and>
      (p \<noteq> NULL \<longrightarrow> keeps_locks (may_leak s a) s u)) (\<lambda>h. h = Aborted)"
    using u b(2) by (auto simp: ends_def ret_def)
qed

lemma malloc_and_free:
  assumes m: "models s a" and o: "owned a" and room: "room s"
  shows "ends (and_free (sn_malloc n)) s (\<lambda>p u. p \<noteq> NULL \<longrightarrow> models u a) (\<lambda>h. h = Aborted)"
proof -
  let ?R = "malloc_spec (cfg_sanitize s) (thread_id s) n a"
  have b: "r \<noteq> NULL \<Longrightarrow> registry b \<noteq> [] \<and> free_spec r b = a" if "?R r b" for r b
    using that by cases (auto simp: with_block_def free_with_block [OF o, unfolded with_block_def])
  show ?thesis
    by (rule ends_mono [OF and_free_ends [OF malloc_serves [OF m room]]])
      (use b malloc_spec_owned [OF _ o] in blast)+
qed

lemma calloc_and_free:
  assumes m: "models s a" and o: "owned a" and room: "room s"
  shows "ends (and_free (sn_calloc num n)) s
    (\<lambda>p u. p \<noteq> NULL \<longrightarrow> models u (a\<lparr>usage := usage a + n * num - n\<rparr>)) (\<lambda>h. h = Aborted)"
proof -
  let ?R = "calloc_spec (thread_id s) num n a"
  have b: "r \<noteq> NULL \<Longrightarrow> registry b \<noteq> [] \<and> free_spec r b = a\<lparr>usage := usage a + n * num - n\<rparr>" if "?R r b" for r b
    using that by cases (auto simp: with_block_def free_with_block [OF o, unfolded with_block_def])
  show ?thesis
    by (rule ends_mono [OF and_free_ends [OF calloc_serves [OF m room]]])
      (use b calloc_spec_owned [OF _ o] in \<open>fastforce\<close>)+
qed

lemma register_size_and_free:
  assumes m: "models s a" and o: "owned a" and room: "room s"
    and p: "p \<noteq> NULL" "n \<noteq> 0" "find_block p (registry a) = None" "memory a p = Some bs" "unat n \<le> length bs"
  shows "ends (and_free (sn_register_size p n)) s (\<lambda>q u. q = p \<and>
    models u (a\<lparr>usage := usage a - n, memory := (memory a)(p := None)\<rparr>)) (\<lambda>h. h = Aborted)"
proof -
  have spec: "register_spec (thread_id s) p n a = (p, registered p n (thread_id s) a)"
    using p by (simp add: register_spec_def registered_def)
  have o': "owned (registered p n (thread_id s) a)" by (rule owned_registered [OF o p(1,3,4,5)])
  have ne: "registry (registered p n (thread_id s) a) \<noteq> []" by (simp add: registered_def)
  have "ends (and_free (sn_register_size p n)) s (\<lambda>q u. \<exists>b. (q, b) = register_spec (thread_id s) p n a \<and>
      models u (free_spec q b) \<and> (q \<noteq> NULL \<longrightarrow> keeps_locks (may_leak s a) s u)) (\<lambda>h. h = Aborted)"
    by (rule and_free_ends [OF register_size_serves [OF m room]]) (use spec o' ne in auto)
  then show ?thesis
    by (rule ends_mono) (use spec free_registered [OF o p(3,1), of n "thread_id s"] in auto)
qed

section \<open>The limit and the threads\<close>

text \<open>What an allocation leaves below the limit.\<close>

lemma malloc_spec_limit: "\<lbrakk>malloc_spec z t n a r b; r \<noteq> NULL\<rbrakk> \<Longrightarrow> cap b = 0 \<or> usage b < cap b"
  by (erule malloc_specE) (auto simp: with_block_def allowed_def)

lemma calloc_spec_limit: "\<lbrakk>calloc_spec t num n a r b; r \<noteq> NULL\<rbrakk> \<Longrightarrow> cap b = 0 \<or> usage b < cap b"
  by (erule calloc_specE) (auto simp: with_block_def allowed_def)

text \<open>The usage of all threads adds up to the total.\<close>

lemma recorded_total_threads:
  assumes "finite T" "tb_tid ` set bs \<subseteq> T"
  shows "(\<Sum>t\<in>T. thread_usage t bs) = recorded_total bs"
  using assms(2)
proof (induction bs)
  case Nil
  then show ?case by simp
next
  case (Cons b bs)
  have "(\<Sum>t\<in>T. thread_usage t (b # bs)) = (\<Sum>t\<in>T. if tb_tid b = t then tb_size b else 0) + (\<Sum>t\<in>T. thread_usage t bs)"
    by (simp add: sum.distrib)
  also have "(\<Sum>t\<in>T. if tb_tid b = t then tb_size b else 0) = tb_size b"
    using assms(1) Cons.prems by (simp add: sum.delta)
  finally show ?case using Cons by simp
qed

text \<open>What a query answers, as a value.\<close>

definition answer :: "size_t lib \<Rightarrow> machine \<Rightarrow> size_t" where
  "answer m s = (case m s of Done r t \<Rightarrow> r | Halt h t \<Rightarrow> 0)"

lemma answer_eq: "answers m s a (\<lambda>r b. r = v \<and> b = c) \<Longrightarrow> answer m s = v"
  by (auto simp: answers_def runs_def answer_def)

lemma threads_add_up:
  assumes "audited s" "models s a" "finite T" "tb_tid ` set (registry a) \<subseteq> T"
  shows "answer sn_query_total_memory_usage s = (\<Sum>t\<in>T. answer (sn_query_thread_memory_usage t) s)"
proof -
  have "balanced a" using audited_balanced [OF assms(1)] models_unique [OF assms(2)] by blast
  then show ?thesis
    using answer_eq [OF total_usage_answers [OF assms(2)]] answer_eq [OF thread_usage_answers [OF assms(2)]]
      recorded_total_threads [OF assms(3,4)] by (simp add: balanced_def)
qed

end
