(* ===== verification/Error_Codes.thy ===== *)
theory Error_Codes
  imports SN_Error
begin

text \<open>
  The error codes as an ordered type, in the order of their declaration, and the two tables
  as functions of the code.
\<close>

section \<open>The order of the codes\<close>

primrec rank :: "sn_error_codes_e \<Rightarrow> nat" where
  "rank SN_ERR_OK = 0"
| "rank SN_ERR_NULL_PTR = 1"
| "rank SN_ERR_NO_SIZE = 2"
| "rank SN_ERR_BAD_SIZE = 3"
| "rank SN_ERR_BAD_ALLOC = 4"
| "rank SN_ERR_NO_ADDER_FOUND = 5"
| "rank SN_ERR_NO_TID_FOUND = 6"
| "rank SN_ERR_BAD_BLOCK_ID = 7"
| "rank SN_ERR_FILE_PRE_EXIST = 8"
| "rank SN_ERR_FILE_IO = 9"
| "rank SN_ERR_FILE_NOT_EXIST = 10"
| "rank SN_ERR_ALLOC_LIMIT_HIT = 11"
| "rank SN_WARN_DUB_FREE = 12"
| "rank SN_ERR_SYS_FAIL = 13"
| "rank SN_ERR_CATASTROPHIC = 14"
| "rank SN_ERR_DEBUG = 15"
| "rank SN_INFO_PLACEHOLDER = 16"

lemma rank_inject: "rank e = rank f \<longleftrightarrow> e = f"
  by (cases e; cases f; simp)

instantiation sn_error_codes_e :: linorder
begin

definition less_eq_sn_error_codes_e :: "sn_error_codes_e \<Rightarrow> sn_error_codes_e \<Rightarrow> bool" where
  "less_eq_sn_error_codes_e e f \<longleftrightarrow> rank e \<le> rank f"

definition less_sn_error_codes_e :: "sn_error_codes_e \<Rightarrow> sn_error_codes_e \<Rightarrow> bool" where
  "less_sn_error_codes_e e f \<longleftrightarrow> rank e < rank f"

instance
  by standard (auto simp: less_eq_sn_error_codes_e_def less_sn_error_codes_e_def rank_inject)

end

text \<open>The values grow with the declaration, but \<open>SN_ERR_DEBUG\<close> goes back to the value of
  \<open>SN_WARN_DUB_FREE\<close>.\<close>

lemma err_code_mono: "e < f \<Longrightarrow> f \<noteq> SN_ERR_DEBUG \<Longrightarrow> err_code e < err_code f"
  unfolding less_sn_error_codes_e_def by (cases e; cases f; simp)

lemma err_code_eq: "err_code e = err_code f \<longleftrightarrow> e = f \<or> {e, f} = {SN_WARN_DUB_FREE, SN_ERR_DEBUG}"
  by (cases e; cases f; simp add: doubleton_eq_iff)

lemma err_code_range: "unat (err_code e) < table_size"
  by (cases e) (simp_all add: table_size_def)

section \<open>The tables\<close>

lemma table_get_miss: "(\<And>e. i \<noteq> err_code e) \<Longrightarrow> table_get inits i = None"
proof -
  assume no: "\<And>e. i \<noteq> err_code e"
  then have "i \<notin> fst ` set (rev (map (\<lambda>(e, str). (err_code e, str)) inits))" by (auto simp: split_beta no)
  then show ?thesis unfolding table_get_def by (rule map_of_eq_None_iff [THEN iffD2])
qed

text \<open>The names as the source spells them.\<close>

primrec spelling :: "sn_error_codes_e \<Rightarrow> string" where
  "spelling SN_ERR_OK = ''SN_ERR_OK''"
| "spelling SN_ERR_NULL_PTR = ''SN_ERR_NULL_PTR''"
| "spelling SN_ERR_NO_SIZE = ''SN_ERR_NO_SIZE''"
| "spelling SN_ERR_BAD_SIZE = ''SN_ERR_BAD_SIZE''"
| "spelling SN_ERR_BAD_ALLOC = ''SN_ERR_BAD_ALLOC''"
| "spelling SN_ERR_NO_ADDER_FOUND = ''SN_ERR_NO_ADDER_FOUND''"
| "spelling SN_ERR_NO_TID_FOUND = ''SN_ERR_NO_TID_FOUND''"
| "spelling SN_ERR_BAD_BLOCK_ID = ''SN_ERR_BAD_BLOCK_ID''"
| "spelling SN_ERR_FILE_PRE_EXIST = ''SN_ERR_FILE_PRE_EXIST''"
| "spelling SN_ERR_FILE_IO = ''SN_ERR_FILE_IO''"
| "spelling SN_ERR_FILE_NOT_EXIST = ''SN_ERR_FILE_NOT_EXIST''"
| "spelling SN_ERR_ALLOC_LIMIT_HIT = ''SN_ERR_ALLOC_LIMIT_HIT''"
| "spelling SN_WARN_DUB_FREE = ''SN_WARN_DUB_FREE''"
| "spelling SN_ERR_SYS_FAIL = ''SN_ERR_SYS_FAIL''"
| "spelling SN_ERR_CATASTROPHIC = ''SN_ERR_CATASTROPHIC''"
| "spelling SN_ERR_DEBUG = ''SN_ERR_DEBUG''"
| "spelling SN_INFO_PLACEHOLDER = ''SN_INFO_PLACEHOLDER''"

lemma name_of_code:
  "sn_get_error_name (err_code e) = spelling (if e = SN_WARN_DUB_FREE then SN_ERR_DEBUG else e)"
  by (cases e) (simp_all add: sn_get_error_name_def err_name_tap_def table_get_def table_size_def)

lemma name_of_other: "(\<And>e. i \<noteq> err_code e) \<Longrightarrow> sn_get_error_name i = ''SN_SOFT_FAKE_ERR_UNKNOWN''"
  by (simp add: sn_get_error_name_def table_get_miss)

lemma message_of_other: "(\<And>e. i \<noteq> err_code e) \<Longrightarrow> sn_get_error_msg i = ''Unknown error''"
  by (simp add: sn_get_error_msg_def table_get_miss)

lemma spelling_inject: "spelling e = spelling f \<longleftrightarrow> e = f"
  by (cases e; cases f; simp)

lemma spelling_known: "spelling e \<noteq> ''SN_SOFT_FAKE_ERR_UNKNOWN''"
  by (cases e) simp_all

lemma message_of_code:
  "sn_get_error_msg (err_code e) \<noteq> ''Unknown error''"
  by (cases e) (simp_all add: sn_get_error_msg_def human_readable_messages_def table_get_def table_size_def)

text \<open>The name tells whether a number is a code, and which one, except for the shared value.\<close>

lemma name_unknown_iff: "sn_get_error_name i = ''SN_SOFT_FAKE_ERR_UNKNOWN'' \<longleftrightarrow> (\<forall>e. i \<noteq> err_code e)"
  using name_of_code spelling_known name_of_other by metis

lemma name_inject: "sn_get_error_name (err_code e) = sn_get_error_name (err_code f) \<longleftrightarrow> err_code e = err_code f"
  by (auto simp: name_of_code spelling_inject err_code_eq doubleton_eq_iff)

end
