(* ===== verification/Call_Patterns.thy ===== *)
theory Call_Patterns
  imports Accounting Error_Codes
begin

text \<open>
  What calls do in sequence: nested critical sections, a block id set and read back, a block
  dumped and mounted again, an exit from the crash handler; and a machine on which a cached block
  has moved.
\<close>

section \<open>Nested critical sections\<close>

text \<open>A second lock by the holder is accepted and not counted: one unlock releases the mutex.\<close>

definition nested_section :: "ptr \<Rightarrow> unit lib" where
  "nested_section m = bnd (plat_mutex_lock m) (\<lambda>_. bnd (plat_mutex_lock m) (\<lambda>_. plat_mutex_unlock m))"

lemma nested_section_eq: "ready m s \<Longrightarrow> nested_section m s = Done () (unlocked m s)"
  by (simp add: nested_section_def plat_mutex_lock_ready plat_mutex_unlock_ready ready_with_mutex)

lemma unlocked_free: "m \<noteq> NULL \<Longrightarrow> cfg_mutex s \<Longrightarrow> mutexes (unlocked m s) m = Some free_mutex"
  by (simp add: unlocked_def with_mutex_def)

section \<open>Block ids\<close>

lemma find_with_id: "find_block p (with_id p i bs) = map_option (\<lambda>x. x\<lparr>tb_id := i\<rparr>) (find_block p bs)"
  by (induction bs) (simp_all add: find_block_def with_id_def)

lemma set_then_get:
  assumes m: "models s a" and o: "owned a" and p: "p \<noteq> NULL" "20 < i" "cached s p"
  shows "runs (bnd (sn_set_block_id p i) (\<lambda>_. sn_get_block_id p)) s (\<lambda>r t. r = i \<or> r = 0 \<and> \<not> cached
      (state_of (sn_set_block_id p i s)) p)"
proof -
  let ?b = "set_id_spec True p i a"
  obtain t where t: "sn_set_block_id p i s = Done () t" "models t ?b"
    using set_block_id_answers [OF m o, of p i] p(3) by (auto simp: answers_def runs_def)
  have b: "registry ?b = with_id p i (registry a)" using p(1,2) leD by (auto simp: set_id_spec_def)
  have "owned ?b" by (rule owned_set_id [OF o])
  from get_block_id_answers [OF t(2) this, of p] obtain r u where g: "sn_get_block_id p t = Done r u"
    and r: "if p \<noteq> NULL \<and> cached t p then \<exists>x. find_block p (registry ?b) = Some x \<and> r = tb_id x else r = 0"
    by (auto simp: answers_def runs_def)
  have "r = i \<or> r = 0 \<and> \<not> cached t p" using r p(1) by (auto simp: b find_with_id split: if_splits)
  then show ?thesis using t(1) g by (simp add: runs_def)
qed

section \<open>Checksums\<close>

text \<open>The checksum of a cached block is that of its bytes; in every case it is below \<open>2 ^ 17\<close>.\<close>

lemma checksum_of_a_block:
  assumes "models s a" "owned a"
  shows "answers (sn_calculate_checksum p) s a (\<lambda>r b. r < 2 ^ 17 \<and>
    (if p \<noteq> NULL \<and> cached s p
     then \<exists>x bs. find_block p (registry a) = Some x \<and> memory a p = Some bs \<and>
       (if tb_size x = 0 then r = 0 \<and> b = failed SN_ERR_BAD_SIZE a else r = block_checksum (tb_size x) bs \<and> b = a)
     else r = 0 \<and> b = queried p a))"
  by (rule answers_mono [OF checksum_answers [OF assms]])
    (use block_checksum_small in \<open>auto split: if_splits\<close>)

section \<open>The cache\<close>

text \<open>After the cache has been cleared, a resize is safe.\<close>

lemma clear_then_realloc:
  assumes m: "models s a" and o: "owned a" and p: "p \<noteq> NULL"
  shows "runs (bnd sn_fast_cache_clear (\<lambda>_. sn_realloc p n)) s (\<lambda>q t. \<exists>b. models t b \<and> realloc_spec p n a q b)"
proof -
  obtain t where t: "sn_fast_cache_clear s = Done () t" "models t a"
    using cache_switch_answers(4) [OF m] by (auto simp: answers_def runs_def)
  from realloc_answers [OF t(2) o clear_uncaches [OF m t(1) p], of n] show ?thesis
    using t(1) by (auto simp: answers_def runs_def)
qed
section \<open>Files\<close>

text \<open>The bytes a dump wrote come back from a mount of the same file, in any later state.\<close>

lemma dump_then_mount:
  assumes m: "models s a" and o: "owned a" and x: "find_block p (registry a) = Some x" "tb_size x \<noteq> 0"
    and reliable: "io_answers s = []" "in_cache s p" "files s path = None" and p: "p \<noteq> NULL"
    and dump: "sn_dump_to_file (Some path) p s = Done r t"
    and u: "models u b" "owned b" "room u" "files u path = files t path" "io_answers u = []"
  shows "ends (sn_mount_file_to_ram (Some path)) u
    (\<lambda>q v. q \<noteq> NULL \<and> blocks v q = Some (take (unat (tb_size x)) (the (memory a p))))
    (\<lambda>h. h = Aborted \<or> h = Exited 20 \<or> h = UB \<and> \<not> last_access_live u)"
proof -
  let ?n = "unat (tb_size x)" and ?bs = "the (memory a p)"
  have "x \<in> set (registry a)" "tb_data x = p" using find_block_in [OF x(1)] by simp_all
  then obtain bs where bs: "memory a p = Some bs" "?n \<le> length bs" using o by (auto simp: owned_def)
  have "files t = (files s)(path \<mapsto> take ?n bs)"
    using dump_runs [OF m o, of "Some path" p] dump reliable p x(1) bs(1) by (auto simp: runs_def)
  then have content: "files u path = Some (take ?n bs)" using u(4) by simp
  have "?n < 2 ^ 64" using unsigned_less [of "tb_size x"] by simp
  moreover have "0 < ?n" using x(2) by (simp add: unat_gt_0)
  ultimately have "0 < length (take ?n bs)" "length (take ?n bs) < 2 ^ 64" using bs(2) by simp_all
  then show ?thesis
    by (intro ends_mono [OF mount_ends [OF u(1-3), of "Some path"]]) (use content u(5) bs(1) in auto)
qed

section \<open>Exit from the crash handler\<close>

text \<open>\<open>exit\<close> runs the destructor of the library, in the state the handler left: it still releases
  everything, though the thread may hold a lock.\<close>

lemma crash_then_unload:
  assumes m: "models s a" "owned a" and live: "last_access_live s"
    and err: "err \<noteq> SN_ERR_CATASTROPHIC" "err \<noteq> SN_ERR_SYS_FAIL"
  shows "\<exists>t. sn_crash err s = Halt (Exited (err_code err)) t \<and> runs library_cleanup t (\<lambda>_ u. unloaded t a u)"
  using crash_exits [OF m(1) live err] unload_runs [OF _ m(2)] by blast

lemma request_crash_then_unload:
  assumes ok: "sn_ok s L M ns" and o: "owned (abstract M ns s)"
    and p: "p \<noteq> NULL" "find_block p (registry (abstract M ns s)) \<noteq> None"
    and full: "\<not> m_cache_lock M" "m_use_cache M" "m_available_cache_slots M \<noteq> 0"
      "\<forall>c \<in> set (m_cache_list M). \<not> free_slot c"
  shows "\<exists>t. sn_request_to_fast_cache p s = Halt (Exited 185) t \<and>
    runs library_cleanup t (\<lambda>_ u. unloaded t (abstract M ns s) u)"
  using request_crashes [OF ok p full] unload_runs [OF _ o] by blast

section \<open>A cached block that moves\<close>

text \<open>A cached block is resized: the cache keeps the old address for the entry of the new
  block, and a release of the old address releases the new block but leaves it on record.\<close>

definition cached_block :: machine where
  "cached_block = state_of (sn_request_to_fast_cache 24576 one_block)"

definition moved_block :: machine where
  "moved_block = state_of (sn_realloc 24576 32 cached_block)"

lemma cached_block_run:
  "cached_block = \<lparr>nodes = [8192 \<mapsto> \<lparr>e_previous = 0, e_data = 0, e_size = 0, e_tid = 7, e_cached = False,
     e_block_id = 0, e_isHead = True, e_weight = 0, e_mutex = 0, e_next = 28672\<rparr>, 28672 \<mapsto>
     \<lparr>e_previous = 8192, e_data = 24576, e_size = 16, e_tid = 7, e_cached = True, e_block_id = 0, e_isHead =
     False, e_weight = 1, e_mutex = 12288, e_next = 0\<rparr>], lists = [4096 \<mapsto> \<lparr>l_head = 8192, l_len =
     1, l_firstEntry = 28672, l_lastEntry = 28672, l_lastAccess = 28672, l_mutex = 12288\<rparr>], managers = [20480
     \<mapsto> \<lparr>m_cache_list = [\<lparr>cp_key = 24576, cp_value = 28672\<rparr>, \<lparr>cp_key = 0, cp_value
     = 0\<rparr>, \<lparr>cp_key = 0, cp_value = 0\<rparr>, \<lparr>cp_key = 0, cp_value = 0\<rparr>, \<lparr>cp_key =
     0, cp_value = 0\<rparr>], m_available_cache_slots = 4, m_cache_lock = False, m_use_cache = True, m_alloc_limit =
     0, m_global_memory_usage = 16, m_mutex_ref = 16384\<rparr>], mutexes = [12288 \<mapsto> \<lparr>mx_owner = None,
     mx_locker_tid = 0\<rparr>, 16384 \<mapsto> \<lparr>mx_owner = None, mx_locker_tid = 0\<rparr>], blocks = [24576
     \<mapsto> [0, 0, 0, 0, 0, 0, 0, 0, 0, 0, 0, 0, 0, 0, 0, 0]], malloc_answers = [(32768, []), (36864, []), (40960,
     []), (45056, []), (49152, []), (53248, []), (57344, []), (61440, []), (65536, [])], mutex_init_answers = [],
     files = \<lambda>x. None, io_answers = [], current = 7, cfg_mutex = True, cfg_sanitize = True, mem_list = 4096,
     alloc_mutex = 16384, memory_manager = 20480, doFree = True, error_code = 0\<rparr>"
  by (simp add: cached_block_def one_block_run run)

lemma cached_block_eq: "sn_request_to_fast_cache 24576 one_block = Done True cached_block"
proof -
  have "\<exists>t. sn_request_to_fast_cache 24576 one_block = Done True t"
    by (simp add: one_block_run run)
  then show ?thesis by (auto simp: cached_block_def)
qed

lemma cached_block_fields: "in_cache cached_block 24576" "room cached_block" "io_answers cached_block = []"
  "files cached_block = Map.empty" "last_access_live cached_block" "thread_id cached_block = 7" "cfg_sanitize cached_block"
  by (simp_all add: cached_block_run run in_cache_def room_def last_access_live_def
      cached_entry_def thread_id_def key_hit_def value_or_miss_def)

lemma cached_block_models: "models cached_block one_block_state"
proof -
  have "cache_open one_block \<longrightarrow> cache_room one_block"
    by (simp add: one_block_run run cache_room_def free_slot_def)
  from request_answers [OF one_block_models this, of 24576] cached_block_eq show ?thesis
    by (auto simp: answers_def runs_def queried_def looked_up_def one_block_find)
qed

text \<open>The thread id is only answered from the cache.\<close>

lemma cached_block_cached: "cached cached_block 24576"
proof -
  have "\<exists>t. sn_query_tid 24576 cached_block = Done 7 t"
    by (simp add: cached_block_run run)
  then show ?thesis using query_tid_answers [OF cached_block_models one_block_owned, of 24576]
    by (auto simp: answers_def runs_def split: if_splits)
qed

lemma moved_block_eq: "sn_realloc 24576 32 cached_block = Done 32768 moved_block"
proof -
  have "\<exists>t. sn_realloc 24576 32 cached_block = Done 32768 t"
    by (simp add: cached_block_run run)
  then show ?thesis by (auto simp: moved_block_def)
qed

end
