(* ===== verification/List_Deadlock.thy ===== *)
theory List_Deadlock
  imports Api_Steps
begin

text \<open>
  A list that is empty but whose \<open>len\<close> is not 0, which removals from the middle leave behind: a
  walk takes the list's lock and returns with it. A query by another thread then stops at that
  lock with the manager's in hand, and the next query of the first thread stops at the
  manager's.
\<close>

text \<open>A mutex held by one thread stops every other.\<close>

lemma held_blocks:
  assumes "m \<noteq> NULL" "cfg_mutex s" "mutexes s m = Some (held_mutex t)" "current s \<noteq> t"
  shows "plat_mutex_lock m s = Halt Blocked s"
  using assms by (simp add: plat_mutex_lock_def held_mutex_def)

lemma locks_commute: "l = m \<longrightarrow> l = NULL \<Longrightarrow> unlocked m (locked l s) = locked l (unlocked m s)"
  by (cases "l = m") (simp_all add: locked_def unlocked_def with_mutex_commute, simp add: with_mutex_def)

lemma sn_ok_apart: "sn_ok s L M ns \<Longrightarrow> l_mutex L = alloc_mutex s \<longrightarrow> l_mutex L = NULL"
  using sn_okD(10) by (auto simp: mutexes_ok_def)

text \<open>A walk of a list that is empty but counts entries returns with the lock of the list.\<close>

lemma work_on_empty:
  assumes ok: "sn_ok s L M []" and len: "l_len L \<noteq> 0"
  shows "do_work s = Done () (locked (l_mutex L) (unlocked (alloc_mutex s) s))"
proof -
  note D = sn_okD [OF ok]
  let ?s = "locked (alloc_mutex s) s"
  have "list_ok ?s (mem_list s) L []" "ready (l_mutex L) ?s" using D(1,2) by (simp_all add: ready_with_mutex)
  then have "linked_list_forEach (mem_list s) memman_CacheAlgorithmWorker (memory_manager s) ?s =
      Done (NULL, memory_manager s) (locked (l_mutex L) ?s)"
    using forEach_empty [of ?s "mem_list s" L memman_CacheAlgorithmWorker "memory_manager s"] len by (simp add: after_walk_def)
  then show ?thesis
    using D(4,7-9) list_okD(1) [OF D(1)] manager_lock_eq [OF D(3)] manager_unlock_eq [of "locked (l_mutex L) ?s" "memory_manager s" M]
      locks_commute [OF sn_ok_apart [OF ok], of ?s]
    by (simp add: do_work_def memman_work_def ready_with_mutex)
qed

lemma query_on_empty:
  assumes ok: "sn_ok s L M []" and len: "l_len L \<noteq> 0"
  shows "sn_query_size p s = Done 0 (locked (l_mutex L) (unlocked (alloc_mutex s)
    (s\<lparr>error_code := err_code (if p = NULL then SN_ERR_NULL_PTR else SN_ERR_NO_ADDER_FOUND)\<rparr>)))"
proof -
  note D = sn_okD [OF ok]
  let ?t = "locked (l_mutex L) (unlocked (alloc_mutex s) s)"
  have ready: "ready (alloc_mutex s) ?t" "ready (l_mutex L) ?t" using D(2,7) by (simp_all add: ready_with_mutex)
  have err: "sn_error e (0 :: size_t) ?t = Done 0 (locked (l_mutex L) (unlocked (alloc_mutex s) (s\<lparr>error_code := err_code e\<rparr>)))" for e
    using sn_error_ready [of ?t e "0 :: size_t"] ready locks_commute [OF sn_ok_apart [OF ok]] by simp
  have "linked_list_getByPtr (mem_list s) p ?t = Done NULL ?t" if "p \<noteq> NULL"
    using getByPtr_eq [of ?t "mem_list s" L "[]" p] D(1) ready(2) that len by (simp add: lookup_def after_walk_def)
  then show ?thesis using work_on_empty [OF ok len] err by (auto simp: sn_query_size_def)
qed

text \<open>Another thread that queries then stops at the list's lock with the other lock in hand, and
  the first one stops at that.\<close>

lemma work_blocks:
  assumes ok: "list_ok s (mem_list s) L []" and len: "l_len L \<noteq> 0"
    and M: "managers s (memory_manager s) = Some M" "m_mutex_ref M = alloc_mutex s" "memory_manager s \<noteq> NULL"
    and locks: "cfg_mutex s" "alloc_mutex s \<noteq> NULL" "l_mutex L \<noteq> NULL" "l_mutex L \<noteq> alloc_mutex s" "current s \<noteq> 0"
      "mutexes s (alloc_mutex s) = Some free_mutex" "mutexes s (l_mutex L) = Some (held_mutex t)" "t \<noteq> current s"
  shows "do_work s = Halt Blocked (locked (alloc_mutex s) s)"
proof -
  let ?s = "locked (alloc_mutex s) s"
  note O = list_okD [OF ok]
  have "manager_lock (memory_manager s) s = Done () ?s"
    using M locks by (intro manager_lock_eq [of s _ M, unfolded M(2)]) (simp add: manager_at_def ready_def)
  moreover have "linked_list_forEach (mem_list s) memman_CacheAlgorithmWorker (memory_manager s) ?s = Halt Blocked ?s"
    using O(1,2) len held_blocks [of "l_mutex L" ?s t] locks
    by (simp add: linked_list_forEach_def list_lock_def locked_def with_mutex_def)
  ultimately show ?thesis using M(3) O(1) by (simp add: do_work_def memman_work_def)
qed

lemma empty_list_deadlocks:
  assumes ok: "sn_ok s L M []" and len: "l_len L \<noteq> 0"
    and locks: "cfg_mutex s" "alloc_mutex s \<noteq> NULL" "l_mutex L \<noteq> NULL" and u: "u \<noteq> 0" "u \<noteq> current s"
  shows "\<exists>t v w. sn_query_size p s = Done 0 t \<and> sn_query_size q (t\<lparr>current := u\<rparr>) = Halt Blocked v \<and>
    sn_query_size r (v\<lparr>current := current s\<rparr>) = Halt Blocked w"
proof -
  note D = sn_okD [OF ok]
  have apart: "l_mutex L \<noteq> alloc_mutex s" using sn_ok_apart [OF ok] locks(3) by blast
  define t where "t = locked (l_mutex L) (unlocked (alloc_mutex s)
    (s\<lparr>error_code := err_code (if p = NULL then SN_ERR_NULL_PTR else SN_ERR_NO_ADDER_FOUND)\<rparr>))"
  have t: "sn_query_size p s = Done 0 t" unfolding t_def by (rule query_on_empty [OF ok len])
  have mx: "mutexes t (alloc_mutex s) = Some free_mutex" "mutexes t (l_mutex L) = Some (held_mutex (current s))"
    using locks apart by (simp_all add: t_def locked_def unlocked_def with_mutex_def)
  have same: "nodes t = nodes s" "lists t = lists s" "managers t = managers s" "mem_list t = mem_list s"
      "memory_manager t = memory_manager s" "alloc_mutex t = alloc_mutex s" "cfg_mutex t"
    using locks by (simp_all add: t_def)
  let ?t = "t\<lparr>current := u\<rparr>"
  let ?v = "locked (alloc_mutex s) ?t"
  have v: "do_work ?t = Halt Blocked ?v"
    using work_blocks [of ?t L M "current s"] D(1,4,8,9) len locks u apart mx same by (simp add: list_ok_def)
  have "manager_lock (memory_manager s) (?v\<lparr>current := current s\<rparr>) = Halt Blocked (?v\<lparr>current := current s\<rparr>)"
    using D(4,8) same locks u held_blocks [of "alloc_mutex s" "?v\<lparr>current := current s\<rparr>" u]
    by (simp add: manager_lock_def locked_def with_mutex_def)
  then have "do_work (?v\<lparr>current := current s\<rparr>) = Halt Blocked (?v\<lparr>current := current s\<rparr>)"
    using D(9) list_okD(1) [OF D(1)] same by (simp add: do_work_def memman_work_def)
  then show ?thesis using t v by (simp add: sn_query_size_def)
qed

lemma emptied_deadlock:
  assumes "models s a" "registry a = []" "lists s (mem_list s) = Some L" "l_len L \<noteq> 0"
    and "cfg_mutex s" "alloc_mutex s \<noteq> NULL" "l_mutex L \<noteq> NULL" "u \<noteq> 0" "u \<noteq> current s"
  shows "\<exists>t v w. sn_query_size p s = Done 0 t \<and> sn_query_size q (t\<lparr>current := u\<rparr>) = Halt Blocked v \<and>
    sn_query_size r (v\<lparr>current := current s\<rparr>) = Halt Blocked w"
  using assms(1)
proof (rule models_cases)
  fix L' M ns assume ok: "sn_ok s L' M ns" and a: "a = abstract M ns s"
  have "ns = []" "L' = L" using a assms(2,3) list_okD(2) [OF sn_okD(1) [OF ok]] by (simp_all add: registry_abstract blocks_of_def)
  then show ?thesis using empty_list_deadlocks [of s L M] ok assms by simp
qed

end
