(* ===== verification/Stale_Key.thy ===== *)
theory Stale_Key
  imports File_Contract
begin

text \<open>
  What \<open>sn_realloc\<close> of a cached block leads to. The call changes the data pointer of the entry
  and leaves the cache alone, so the slot keeps the old address as the key of the entry of the
  new block. A release of the old address then releases the new block and keeps its record; a
  release of the new address releases it again.
\<close>

section \<open>A stale slot\<close>

text \<open>\<open>stale s L M ns x p q n\<close>: the entry \<open>x\<close> records the block \<open>q\<close> of \<open>n\<close> bytes, no entry records
  \<open>p\<close>, and no slot has the key \<open>q\<close>; list, manager and locks are in order.\<close>

definition stale :: "machine \<Rightarrow> linked_list_t \<Rightarrow> alloc_manager_t \<Rightarrow> ptr list \<Rightarrow> ptr \<Rightarrow> ptr \<Rightarrow> ptr \<Rightarrow> size_t \<Rightarrow> bool" where
  "stale s L M ns x p q n \<longleftrightarrow>
     list_ok s (mem_list s) L ns \<and> ready (l_mutex L) s \<and> manager_at s (memory_manager s) M \<and> split_ok s \<and>
     slots_live (nodes s) (m_cache_list M) \<and> x \<in> set ns \<and> p \<noteq> NULL \<and> q \<noteq> NULL \<and> n \<noteq> 0 \<and>
     (\<exists>e. nodes s x = Some e \<and> e_data e = q \<and> e_size e = n) \<and>
     (\<forall>y \<in> set ns. e_data (the (nodes s y)) \<noteq> p \<and> (e_data (the (nodes s y)) = q \<longrightarrow> y = x)) \<and>
     (\<forall>c \<in> set (m_cache_list M). cp_key c \<noteq> q) \<and>
     nodes s q = None \<and> lists s q = None \<and> managers s q = None \<and> mutexes s q = None"

lemma staleD:
  assumes "stale s L M ns x p q n"
  shows "list_ok s (mem_list s) L ns" "ready (l_mutex L) s" "manager_at s (memory_manager s) M" "split_ok s"
    "slots_live (nodes s) (m_cache_list M)" "x \<in> set ns" "p \<noteq> NULL" "q \<noteq> NULL" "n \<noteq> 0"
    "\<exists>e. nodes s x = Some e \<and> e_data e = q \<and> e_size e = n"
    "\<forall>y \<in> set ns. e_data (the (nodes s y)) \<noteq> p" "\<forall>y \<in> set ns. e_data (the (nodes s y)) = q \<longrightarrow> y = x"
    "\<forall>c \<in> set (m_cache_list M). cp_key c \<noteq> q" "x \<noteq> NULL"
    "nodes s q = None" "lists s q = None" "managers s q = None" "mutexes s q = None"
  using assms list_okD(5) [of s "mem_list s" L ns] unfolding stale_def by auto

lemma stale_lockeq:
  assumes "lockeq s t" "stale s L M ns x p q n"
  shows "stale t L M ns x p q n"
proof -
  have "mutexes t q = None \<longleftrightarrow> mutexes s q = None" using lockeq_fields(17) [OF assms(1)] by (metis domIff)
  then show ?thesis using assms lockeq_ready [OF assms(1)] lockeq_split_ok [OF assms(1)]
    by (auto simp: stale_def manager_at_def lockeq_fields elim: list_ok_cong)
qed

lemma stale_cong:
  assumes "stale s L M ns x p q n" and "nodes t = nodes s" "managers t = managers s" "memory_manager t = memory_manager s"
    and "list_ok t (mem_list t) L' ns" "ready (l_mutex L') t" "ready (m_mutex_ref M) t" "split_ok t"
    and "lists t q = None" "mutexes t q = None"
  shows "stale t L' M ns x p q n"
  using assms(1) unfolding stale_def manager_at_def assms(2-4) by - (elim conjE, intro conjI; (assumption | rule assms))

text \<open>Weights, marks, the last access, the counter and the slots may change.\<close>

lemma stale_cores:
  assumes st: "stale s L M ns x p q n" and h: "cores h = cores (nodes s)"
    and M: "m_mutex_ref M' = m_mutex_ref M" "slots_live h (m_cache_list M')" "\<forall>c \<in> set (m_cache_list M'). cp_key c \<noteq> q"
  shows "stale (s\<lparr>nodes := h, managers := (managers s)(memory_manager s \<mapsto> M')\<rparr>) L M' ns x p q n"
proof -
  note D = staleD [OF st]
  have data: "e_data (the (h y)) = e_data (the (nodes s y)) \<and> e_size (the (h y)) = e_size (the (nodes s y))" if y: "y \<in> set ns" for y
  proof -
    obtain e where e: "nodes s y = Some e" using list_ok_node [OF D(1) y] by blast
    then obtain e' where "h y = Some e'" "core e' = core e" using cores_Some [OF h] by blast
    then show ?thesis using e core_eqD(3,4) [of e' e] by simp
  qed
  obtain e where e: "nodes s x = Some e" "e_data e = q" "e_size e = n" using D(10) by blast
  then obtain e' where "h x = Some e'" using cores_Some [OF h] by blast
  then have "\<exists>e. h x = Some e \<and> e_data e = q \<and> e_size e = n" using data [OF D(6)] e by simp
  moreover have "list_ok (s\<lparr>nodes := h, managers := (managers s)(memory_manager s \<mapsto> M')\<rparr>) (mem_list s) L ns"
    by (rule list_ok_cores [OF D(1)]) (use h in simp_all)
  moreover have "split_ok (s\<lparr>nodes := h, managers := (managers s)(memory_manager s \<mapsto> M')\<rparr>)"
    using D(4) by (rule split_ok_cong) (use cores_dom [OF h] manager_atD(2) [OF D(3)] in auto)
  moreover have "h q = None" using cores_None [OF h] D(15) by simp
  moreover have "q \<noteq> memory_manager s" using D(17) manager_atD(2) [OF D(3)] by auto
  ultimately show ?thesis using D data M by (auto simp: stale_def manager_at_def ready_def)
qed

lemma stale_blocks:
  assumes "stale s L M ns x p q n" "dom B \<subseteq> dom (blocks s)"
  shows "stale (s\<lparr>blocks := B\<rparr>) L M ns x p q n"
proof -
  have "split_ok (s\<lparr>blocks := B\<rparr>)" using staleD(4) [OF assms(1)] by (rule split_ok_cong) (use assms(2) in simp_all)
  then show ?thesis using assms(1) by (auto simp: stale_def manager_at_def ready_def elim: list_ok_cong)
qed

lemma stale_accessed:
  assumes st: "stale s L M ns x p q n"
  shows "stale (unlocked (l_mutex L) (accessed (mem_list s) L x s)) (L\<lparr>l_lastAccess := x\<rparr>) M ns x p q n"
proof -
  note D = staleD [OF st]
  obtain e where e: "nodes s x = Some e" using D(10) by blast
  let ?h = "(nodes s)(x \<mapsto> bump (the (nodes s x)))"
  let ?X = "s\<lparr>nodes := ?h\<rparr>"
  have "s\<lparr>nodes := ?h, managers := (managers s)(memory_manager s \<mapsto> M)\<rparr> = ?X"
    using manager_atD(2) [OF D(3)] by (simp add: fun_upd_idem)
  moreover have "slots_live ?h (m_cache_list M)" using D(5) by (auto simp: slots_live_def)
  ultimately have X: "stale ?X L M ns x p q n" using stale_cores [OF st, of ?h M] e D(13) by simp
  have a: "accessed (mem_list s) L x s = ?X\<lparr>lists := (lists ?X)(mem_list s \<mapsto> L\<lparr>l_lastAccess := x\<rparr>)\<rparr>"
    by (simp add: accessed_def)
  have l: "list_ok (accessed (mem_list s) L x s) (mem_list s) (L\<lparr>l_lastAccess := x\<rparr>) ns"
    unfolding a using list_ok_lastAccess [of ?X "mem_list s" L ns x] staleD(1) [OF X] by simp
  have "split_ok (accessed (mem_list s) L x s)"
    using D(4) by (rule split_ok_cong) (use e list_okD(2) [OF D(1)] in \<open>auto simp: accessed_def\<close>)
  moreover have "q \<noteq> mem_list s" using D(16) list_okD(2) [OF D(1)] by auto
  moreover define A where "A = accessed (mem_list s) L x s"
  have "nodes A = nodes ?X" "managers A = managers ?X" "memory_manager A = memory_manager ?X" "mem_list A = mem_list s"
      "mutexes A = mutexes s" "lists A = (lists s)(mem_list s \<mapsto> L\<lparr>l_lastAccess := x\<rparr>)" "\<And>m. ready m A = ready m ?X"
    by (simp_all add: A_def accessed_def ready_def)
  ultimately have "stale (accessed (mem_list s) L x s) (L\<lparr>l_lastAccess := x\<rparr>) M ns x p q n"
    using l staleD(2) [OF X] staleD(16,18) [OF X] manager_atD(3) [OF staleD(3) [OF X]] unfolding A_def [symmetric]
    by (intro stale_cong [OF X]) simp_all
  moreover have "lockeq (accessed (mem_list s) L x s) (unlocked (l_mutex L) (accessed (mem_list s) L x s))"
    using D(2) by (intro lockeq_locks) (simp_all add: accessed_def ready_def)
  ultimately show ?thesis using stale_lockeq by blast
qed

section \<open>The resize\<close>

text \<open>The bookkeeping after the block moved, on an entry that may be in the cache.\<close>

lemma note_resize_eq:
  fixes n :: size_t
  assumes ok: "sn_ok s L M ns" and x: "x \<in> set ns" and e: "nodes s x = Some e"
  defines "M2 \<equiv> M\<lparr>m_global_memory_usage := m_global_memory_usage M - e_size e + n\<rparr>"
  shows "\<exists>t. note_resize x q n s = Done q t \<and>
    lockeq (s\<lparr>managers := (managers s)(memory_manager s \<mapsto> M2), nodes := (nodes s)(x \<mapsto> e\<lparr>e_data := q, e_size := n\<rparr>)\<rparr>) t"
proof -
  note U = add_usage_eq [OF ok, of "- e_size e"]
  let ?M1 = "M\<lparr>m_global_memory_usage := m_global_memory_usage M + - e_size e\<rparr>"
  let ?s1 = "s\<lparr>managers := (managers s)(memory_manager s \<mapsto> ?M1)\<rparr>"
  note V = add_usage_eq [OF U(2), of n]
  let ?s2 = "s\<lparr>managers := (managers s)(memory_manager s \<mapsto> M2)\<rparr>"
  have s2: "add_usage n ?s1 = Done () ?s2" "sn_ok ?s2 L M2 ns" using V(1,2) by (simp_all add: M2_def)
  note D = sn_okD [OF s2(2)]
  have x0: "x \<noteq> NULL" and m: "e_mutex e = l_mutex L" using list_okD(5) [OF D(1)] list_ok_node [OF D(1) x] x e by auto
  let ?e3 = "e\<lparr>e_data := q\<rparr>" and ?e4 = "e\<lparr>e_data := q, e_size := n\<rparr>"
  let ?X3 = "?s2\<lparr>nodes := (nodes s)(x \<mapsto> ?e3)\<rparr>" and ?X4 = "?s2\<lparr>nodes := (nodes s)(x \<mapsto> ?e4)\<rparr>"
  let ?s3 = "unlocked (l_mutex L) ?X3"
  have r3: "linked_list_entry_setData x q ?s2 = Done () ?s3"
    using entry_set_Some [of ?s2 x e "\<lambda>e. e\<lparr>e_data := q\<rparr>"] e x0 m D(2) by (simp add: linked_list_entry_setData_def)
  have "ready (l_mutex L) ?X3" using D(2) by (simp add: ready_def)
  then have rdy: "ready (l_mutex L) ?s3" and lq3: "lockeq ?X3 ?s3" by (auto simp: ready_with_mutex intro: lockeq_locks)
  let ?t = "unlocked (l_mutex L) (?s3\<lparr>nodes := (nodes ?s3)(x \<mapsto> ?e4)\<rparr>)"
  have r4: "linked_list_entry_setSize x n ?s3 = Done () ?t"
    using entry_set_Some [of ?s3 x ?e3 "\<lambda>e. e\<lparr>e_size := n\<rparr>"] x0 m rdy by (simp add: linked_list_entry_setSize_def)
  have "lockeq ?X4 (?s3\<lparr>nodes := (nodes ?s3)(x \<mapsto> ?e4)\<rparr>)"
    using lockeq_updates(1) [OF lq3, of "(nodes s)(x \<mapsto> ?e4)"] by simp
  moreover have "ready (l_mutex L) (?s3\<lparr>nodes := (nodes ?s3)(x \<mapsto> ?e4)\<rparr>)"
  proof -
    have "ready (l_mutex L) ?X4" using D(2) by (simp add: ready_def)
    then show ?thesis by (simp add: ready_with_mutex)
  qed
  ultimately have "lockeq ?X4 ?t" by (rule lockeq_locks(2))
  moreover have "note_resize x q n s = Done q ?t" using e U(1) s2(1) r3 r4 by (simp add: note_resize_def ret_def)
  ultimately show ?thesis by auto
qed

lemma error_null: "sn_error e NULL s = Done q t \<Longrightarrow> q = NULL"
  by (cases "sn_set_last_error (err_code e) s") (auto simp: sn_error_def ret_def)

lemma stale_resized:
  assumes ok: "sn_ok s L M ns" and x: "x \<in> set ns" "nodes s x = Some e" "e_data e = p" and dist: "distinct (map tb_data (blocks_of (nodes s) ns))"
    and p: "p \<noteq> NULL" "q \<noteq> NULL" "n \<noteq> 0" "q \<noteq> p"
    and fresh: "\<forall>y \<in> set ns. e_data (the (nodes s y)) \<noteq> q"
      "nodes s q = None" "lists s q = None" "managers s q = None" "mutexes s q = None"
    and M': "m_cache_list M' = m_cache_list M" "m_mutex_ref M' = m_mutex_ref M"
  shows "stale (s\<lparr>managers := (managers s)(memory_manager s \<mapsto> M'), nodes := (nodes s)(x \<mapsto> e\<lparr>e_data := q, e_size := n\<rparr>)\<rparr>) L M' ns x p q n"
    (is "stale ?X _ _ _ _ _ _ _")
proof -
  note D = sn_okD [OF ok]
  have l: "list_ok ?X (mem_list s) L ns" by (rule list_ok_upd_node [OF D(1), of x e, THEN list_ok_cong]) (use x in simp_all)
  have sp: "split_ok ?X" using D(6) by (rule split_ok_cong) (use x D(8) in auto)
  have "slots_live (nodes s) (m_cache_list M)" by (rule cache_ok_live [OF D(5)])
  then have live: "slots_live (nodes ?X) (m_cache_list M')" using M' by (auto simp: slots_live_def)
  have data: "e_data (the (nodes ?X y)) \<noteq> p \<and> (e_data (the (nodes ?X y)) = q \<longrightarrow> y = x)" if y: "y \<in> set ns" for y
  proof (cases "y = x")
    case True
    then show ?thesis using p by simp
  next
    case False
    then have "e_data (the (nodes s y)) \<noteq> p" using data_unique [OF dist y x(1)] x by auto
    then show ?thesis using False fresh(1) y by simp
  qed
  have keys: "cp_key c \<noteq> q" if c: "c \<in> set (m_cache_list M')" for c
    using cache_okD [OF D(5), of c] c M' fresh(1) p(2) by (cases "cp_value c = NULL") fastforce+
  have "q \<noteq> memory_manager s" using fresh(4) D(8) by auto
  moreover have "q \<noteq> x" using fresh(2) x by auto
  ultimately have at_q: "nodes ?X q = None" "lists ?X q = None" "managers ?X q = None" "mutexes ?X q = None"
    using fresh(2-5) by simp_all
  have locks: "list_ok ?X (mem_list ?X) L ns" "ready (l_mutex L) ?X" "manager_at ?X (memory_manager ?X) M'"
    using l D(2,3) M' by (simp_all add: manager_at_def ready_def)
  have entry: "\<exists>e. nodes ?X x = Some e \<and> e_data e = q \<and> e_size e = n" by simp
  have data': "\<forall>y \<in> set ns. e_data (the (nodes ?X y)) \<noteq> p \<and> (e_data (the (nodes ?X y)) = q \<longrightarrow> y = x)"
    using data by blast
  have keys': "\<forall>c \<in> set (m_cache_list M'). cp_key c \<noteq> q" using keys by blast
  show ?thesis unfolding stale_def
    by (intro conjI; (rule at_q locks entry data' keys' sp live x(1) p(1-3)))
qed

lemma cached_entry_cong:
  "\<lbrakk>m_use_cache M' = m_use_cache M; m_cache_list M' = m_cache_list M\<rbrakk> \<Longrightarrow> cached_entry M' p = cached_entry M p"
  by (simp add: cached_entry_def)

lemma realloc_goes_stale:
  assumes ok: "sn_ok s L M ns" and o: "owned (abstract M ns s)" and hit: "cached_entry M p \<noteq> MEMMAN_CACHE_MISS"
    and run: "sn_realloc p n s = Done q t" and q: "q \<noteq> NULL" "q \<noteq> p"
  shows "\<exists>L' M' bs. stale t L' M' ns (cached_entry M p) p q n \<and> cached_entry M' p = cached_entry M p \<and>
    blocks t q = Some bs \<and> length bs = unat n"
proof -
  note D = sn_okD [OF ok]
  let ?x = "cached_entry M p"
  obtain e where x: "?x \<in> set ns" "nodes s ?x = Some e" "e_data e = p" using cached_entry_hit [OF D(5) hit] by blast
  have x0: "?x \<noteq> NULL" using hit by (simp add: MEMMAN_CACHE_MISS_def)
  have dist: "distinct (map tb_data (blocks_of (nodes s) ns))" using o by (simp add: owned_def abstract_def)
  have "block_of e \<in> set (registry (abstract M ns s))" using x by (simp add: registry_abstract blocks_of_def) force
  then have p: "p \<noteq> NULL" using o x(3) by (fastforce simp: owned_def)
  have "lookup (\<lambda>e. e_data e = p) (nodes s) ns = ?x"
  proof -
    let ?y = "lookup (\<lambda>e. e_data e = p) (nodes s) ns"
    have "?y \<noteq> NULL" using lookup_NULL_iff [OF list_okD(5) [OF D(1)]] x by fastforce
    then show ?thesis using lookup_in [of "\<lambda>e. e_data e = p" "nodes s" ns] data_unique [OF dist _ x(1)] x(2,3) by auto
  qed
  then obtain u L' where g: "linked_list_getByPtr (mem_list s) p s = Done ?x u"
      and r: "reads (leaks L ns) (error_code s) s L M ns u L' M"
    using reads_getByPtr [OF ok p] by (auto simp: runs_def)
  note R = readsD [OF r]
  obtain e' where e': "nodes u ?x = Some e'" "core e' = core e" using cores_Some [OF R(2) x(2)] .
  have same: "e_data e' = p" "e_size e' = e_size e" using core_eqD(3,4) [OF e'(2)] x(3) by auto
  have bo: "blocks_of (nodes u) ns = blocks_of (nodes s) ns"
    using reads_abstract [OF ok r] by (simp add: abstract_def)
  have n: "n \<noteq> 0" using run g p x0 q(1) error_null by (auto simp: sn_realloc_def)
  have can: "memman_canAllocateBasedOnLimitAndSize (memory_manager s) k u = Done (within_limit M k) u" for k
    using canAllocate_eq [OF sn_okD(8,9) [OF R(1)]] R(13) by simp
  have fits: "n > e_size e \<longrightarrow> within_limit M (n - e_size e)"
    using run g p x0 q(1) n e' same can R(13) error_null by (auto simp: sn_realloc_def split: if_splits)
  obtain old where old: "blocks u p = Some old" 
    using o \<open>block_of e \<in> _\<close> x(3) R(4) by (fastforce simp: owned_def abstract_def)
  show ?thesis
  proof (rule plat_realloc_cases [OF old, of n], goal_cases)
    case (1 rest)
    then have "sn_realloc p n s = sn_error SN_ERR_BAD_ALLOC NULL (u\<lparr>malloc_answers := rest\<rparr>)"
      using g p x0 n e' same can R(13) fits by (simp add: sn_realloc_def)
    then have "q = NULL" using run error_null [of SN_ERR_BAD_ALLOC "u\<lparr>malloc_answers := rest\<rparr>" q t] by simp
    then show ?thesis using q(1) by simp
  next
    case (2 z bs rest)
    let ?u = "u\<lparr>malloc_answers := rest, blocks := (blocks u)(p := None, z \<mapsto> bs)\<rparr>"
    have z0: "z \<noteq> NULL" using 2(1) p can_place_dom(6) by auto
    have run': "sn_realloc p n s = note_resize ?x z n ?u"
      using g p x0 n e' same can R(13) fits 2 z0 by (simp add: sn_realloc_def note_resize_def)
    have "sn_ok ?u L' M ns"
    proof -
      have "dom ((blocks u)(p := None)) \<subseteq> dom (blocks u)" by auto
      then have "sn_ok (u\<lparr>blocks := (blocks u)(p := None)\<rparr>) L' M ns" by (rule sn_ok_blocks [OF R(1)])
      then show ?thesis
        using 2(1) old sn_ok_new_block [of "u\<lparr>blocks := (blocks u)(p := None)\<rparr>" L' M ns z n bs rest]
          sn_ok_blocks [OF sn_ok_answers [OF R(1)], of "(blocks u)(p \<mapsto> bs)" rest]
        by (auto simp: can_place_def live_def insert_absorb domI)
    qed
    note oku = this
    from note_resize_eq [OF this x(1), of e' z n] e' obtain t' where t': "note_resize ?x z n ?u = Done z t'"
      and lq: "lockeq (?u\<lparr>managers := (managers ?u)(memory_manager ?u \<mapsto> M\<lparr>m_global_memory_usage := m_global_memory_usage M - e_size e' + n\<rparr>),
        nodes := (nodes ?u)(?x \<mapsto> e'\<lparr>e_data := z, e_size := n\<rparr>)\<rparr>) t'" by auto
    have zq: "z = q" "t' = t" using run run' t' by simp_all
    have place: "can_place u q n" using 2(1) zq q(2) by simp
    have fresh: "e_data (the (nodes u y)) \<noteq> q" if y: "y \<in> set ns" for y
    proof -
      have "tb_data (block_of (the (nodes u y))) \<in> tb_data ` set (blocks_of (nodes u) ns)"
        unfolding blocks_of_def set_map image_image using y by (rule imageI)
      then have "blocks u (e_data (the (nodes u y))) \<noteq> None" unfolding bo using o R(4) by (auto simp: owned_def abstract_def)
      then show ?thesis using can_place_dom(2) [OF place] by auto
    qed
    let ?M = "M\<lparr>m_global_memory_usage := m_global_memory_usage M - e_size e' + n\<rparr>"
    have "stale (?u\<lparr>managers := (managers ?u)(memory_manager ?u \<mapsto> ?M), nodes := (nodes ?u)(?x \<mapsto> e'\<lparr>e_data := q, e_size := n\<rparr>)\<rparr>)
        L' ?M ns ?x p q n"
      by (rule stale_resized [OF oku x(1)]) (use e' same dist bo p q n fresh can_place_dom [OF place] in simp_all)
    then have "stale t L' ?M ns ?x p q n" using stale_lockeq lq zq by blast
    moreover have "blocks t q = Some bs" using lockeq_fields(4) [OF lq] zq by simp
    moreover have "cached_entry ?M p = ?x" by (simp add: cached_entry_def)
    ultimately show ?thesis using 2(2) by blast
  qed
qed

section \<open>Releasing the old address\<close>

lemma stale_invalidate:
  assumes st: "stale s L M ns x p q n"
  shows "\<exists>t. memman_cacheInvalidate (memory_manager s) k s = Done () t \<and> stale t L (emptied (key_hit k) M) ns x p q n \<and>
    blocks t = blocks s \<and> error_code t = error_code s \<and> mem_list t = mem_list s \<and> memory_manager t = memory_manager s"
proof -
  note D = staleD [OF st]
  let ?h = "marked False (held (key_hit k) (m_cache_list M)) (nodes s)" and ?M = "emptied (key_hit k) M"
  let ?X = "s\<lparr>nodes := ?h, managers := (managers s)(memory_manager s \<mapsto> ?M)\<rparr>"
  have "slots_live ?h (m_cache_list ?M)" "\<forall>c \<in> set (m_cache_list ?M). cp_key c \<noteq> q"
    using D(5,8,13) by (auto simp: slots_live_def dropped_pairs_def zero_pair_def marked_def split: if_splits)
  then have X: "stale ?X L ?M ns x p q n" by (intro stale_cores [OF st]) simp_all
  have "ready (m_mutex_ref M) ?X" using manager_atD(3) [OF D(3)] by (simp add: ready_def)
  then have "lockeq ?X (unlocked (m_mutex_ref M) ?X)" by (intro lockeq_locks) simp_all
  then show ?thesis using cacheInvalidate_live [OF D(3,5), of k] stale_lockeq [OF _ X] by simp
qed

lemma stale_usage:
  assumes st: "stale s L M ns x p q n"
  shows "\<exists>M' t. add_usage d s = Done () t \<and> t = s\<lparr>managers := (managers s)(memory_manager s \<mapsto> M')\<rparr> \<and>
    M' = M\<lparr>m_global_memory_usage := m_global_memory_usage M + d\<rparr> \<and> stale t L M' ns x p q n"
proof -
  note D = staleD [OF st]
  show ?thesis using stale_cores [OF st refl, of "M\<lparr>m_global_memory_usage := m_global_memory_usage M + d\<rparr>"] D(5,13)
      manager_atD(2) [OF D(3)]
    by (simp add: add_usage_def)
qed

lemma free_stale_key:
  assumes st: "stale s L M ns x p q n" and hit: "cached_entry M p = x" and b: "blocks s q = Some bs" "unat n \<le> length bs"
  shows "\<exists>M' u. sn_free p s = Done () u \<and> stale u L M' ns x p q n \<and> error_code u = error_code s \<and>
    blocks u = (blocks s)(q := None)"
proof -
  note D = staleD [OF st]
  obtain e where e: "nodes s x = Some e" "e_data e = q" "e_size e = n" using D(10) by blast
  let ?h = "(nodes s)(x \<mapsto> bump e)"
  let ?t = "unlocked (m_mutex_ref M) (s\<lparr>nodes := ?h\<rparr>)"
  have same: "s\<lparr>nodes := ?h, managers := (managers s)(memory_manager s \<mapsto> M)\<rparr> = s\<lparr>nodes := ?h\<rparr>"
    using manager_atD(2) [OF D(3)] by (simp add: fun_upd_idem)
  have "slots_live ?h (m_cache_list M)" using D(5) by (auto simp: slots_live_def)
  then have "stale (s\<lparr>nodes := ?h\<rparr>) L M ns x p q n"
    using stale_cores [OF st, of ?h M] e D(13) same by simp
  moreover have "lockeq (s\<lparr>nodes := ?h\<rparr>) ?t"
    using manager_atD(3) [OF D(3)] by (intro lockeq_locks) (simp_all add: ready_def)
  ultimately have t: "stale ?t L M ns x p q n" using stale_lockeq by blast
  have "m_use_cache M" using hit D(14) by (auto simp: cached_entry_def MEMMAN_CACHE_MISS_def split: if_splits)
  then have h: "memman_TryCacheHit (memory_manager s) p s = Done x ?t"
    using TryCacheHit_live [OF D(3,5), of p] hit e D(14) by (simp add: MEMMAN_CACHE_MISS_def)
  have et: "nodes ?t x = Some (bump e)" by simp
  have bt: "blocks ?t q = Some bs" using b by simp
  define B where "B = (if cfg_sanitize s then replicate (unat n) 0 @ drop (unat n) bs else bs)"
  let ?t1 = "?t\<lparr>blocks := (blocks s)(q \<mapsto> B)\<rparr>"
  have z: "bnd (gets cfg_sanitize) (\<lambda>z. if_do z (bnd (load_node x) (\<lambda>e. c_memset (e_data e) 0 (e_size e)))) ?t = Done () ?t1"
    using e b D(9) bt by (simp add: c_memset_def B_def ret_def bump_def fun_upd_idem)
  have t1: "stale ?t1 L M ns x p q n" using stale_blocks [OF t, of "(blocks s)(q \<mapsto> B)"] b by (simp add: insert_absorb domI)
  obtain M2 t2 where u: "add_usage (- n) ?t1 = Done () t2" "t2 = ?t1\<lparr>managers := (managers ?t1)(memory_manager ?t1 \<mapsto> M2)\<rparr>"
      "stale t2 L M2 ns x p q n"
    using stale_usage [OF t1, of "- n"] by blast
  obtain t3 where i: "memman_cacheInvalidate (memory_manager t2) p t2 = Done () t3" "stale t3 L (emptied (key_hit p) M2) ns x p q n"
      "blocks t3 = blocks t2" "error_code t3 = error_code t2" "mem_list t3 = mem_list t2"
    using stale_invalidate [OF u(3), of p] by blast
  note D3 = staleD [OF i(2)]
  obtain e3 where e3: "nodes t3 x = Some e3" "e_data e3 = q" using D3(10) by blast
  let ?t4 = "t3\<lparr>blocks := (blocks t3)(q := None)\<rparr>"
  have f: "plat_free q t3 = Done () ?t4" using i(3) u(2) by (intro plat_free_block [OF D3(4) _ D(8)]) simp
  have t4: "stale ?t4 L (emptied (key_hit p) M2) ns x p q n" by (rule stale_blocks [OF i(2)]) auto
  note D4 = staleD [OF t4]
  have r: "linked_list_removeEntryByPtr (mem_list t3) p ?t4 = Done () (unlocked (l_mutex L) ?t4)"
    using removeEntryByPtr_none [OF D4(1,2,7,11)] by simp
  have "sn_free p s = Done () (unlocked (l_mutex L) ?t4)"
    using h z u(1,2) i(1) e3 f r D(7,14) et e i(5)
    by (simp add: sn_free_def sn_free_entry_def linked_list_entry_getData_def MEMMAN_CACHE_MISS_def bump_def)
  moreover have "stale (unlocked (l_mutex L) ?t4) L (emptied (key_hit p) M2) ns x p q n"
    using D4(2) by (intro stale_lockeq [OF _ t4] lockeq_locks) simp_all
  moreover have "error_code (unlocked (l_mutex L) ?t4) = error_code s" "blocks (unlocked (l_mutex L) ?t4) = (blocks s)(q := None)"
    using i(3,4) u(2) by simp_all
  ultimately show ?thesis by blast
qed

section \<open>Releasing the new address\<close>

lemma free_dangling:
  assumes st: "stale s L M ns x p q n" and gone: "blocks s q = None"
  shows "\<exists>u. sn_free q s = Halt UB u"
proof -
  note D = staleD [OF st]
  have "find (key_hit q) (m_cache_list M) = None" using D(13) by (auto simp: find_None_iff key_hit_def)
  then have miss: "cached_entry M q = MEMMAN_CACHE_MISS" by (simp add: cached_entry_def value_or_miss_def)
  define t where "t = (if m_use_cache M then unlocked (m_mutex_ref M) s else s)"
  have h: "memman_TryCacheHit (memory_manager s) q s = Done MEMMAN_CACHE_MISS t"
    using TryCacheHit_live [OF D(3,5), of q] miss by (simp add: t_def)
  have "lockeq s t" using manager_atD(3) [OF D(3)] by (auto simp: t_def intro: lockeq_locks)
  then have t: "stale t L M ns x p q n" using stale_lockeq [OF _ st] by blast
  note T = staleD [OF t]
  have same: "mem_list t = mem_list s" "memory_manager t = memory_manager s" "blocks t = blocks s" by (simp_all add: t_def)
  have "lookup (\<lambda>e. e_data e = q) (nodes t) ns = x"
  proof -
    let ?y = "lookup (\<lambda>e. e_data e = q) (nodes t) ns"
    have "?y \<noteq> NULL" using lookup_NULL_iff [OF list_okD(5) [OF T(1)]] T(6,10) by fastforce
    then show ?thesis using lookup_in [of "\<lambda>e. e_data e = q" "nodes t" ns] T(12) by blast
  qed
  then have g: "linked_list_getByPtr (mem_list t) q t = Done x (unlocked (l_mutex L) (accessed (mem_list t) L x t))"
    using getByPtr_eq [OF T(1,2,8)] T(14) by simp
  define u where "u = unlocked (l_mutex L) (accessed (mem_list t) L x t)"
  have u: "stale u (L\<lparr>l_lastAccess := x\<rparr>) M ns x p q n" unfolding u_def by (rule stale_accessed [OF t])
  have bu: "blocks u q = None" using same gone by (simp add: u_def accessed_def)
  have run: "sn_free q s = sn_free_entry q x u"
    using h g same D(8) T(14) by (simp add: sn_free_def u_def)
  obtain e where e: "nodes u x = Some e" "e_data e = q" "e_size e = n" using staleD(10) [OF u] by blast
  show ?thesis
  proof (cases "cfg_sanitize u")
    case True
    then show ?thesis using run e bu D(9) by (simp add: sn_free_entry_def c_memset_def)
  next
    case False
    obtain M2 v where v: "add_usage (- n) u = Done () v" "v = u\<lparr>managers := (managers u)(memory_manager u \<mapsto> M2)\<rparr>"
        "stale v (L\<lparr>l_lastAccess := x\<rparr>) M2 ns x p q n"
      using stale_usage [OF u, of "- n"] by blast
    obtain w where w: "memman_cacheInvalidate (memory_manager v) q v = Done () w" "blocks w = blocks v"
        "stale w (L\<lparr>l_lastAccess := x\<rparr>) (emptied (key_hit q) M2) ns x p q n"
      using stale_invalidate [OF v(3), of q] by blast
    note W = staleD [OF w(3)]
    have "\<not> live w q" using W(15-18) w(2) v(2) bu by (simp add: live_def)
    then show ?thesis using run False e v(1,2) w(1) W(10) D(8,14)
      by (auto simp: sn_free_entry_def linked_list_entry_getData_def ret_def plat_free_def)
  qed
qed

section \<open>Both releases\<close>

lemma stale_key_released_twice:
  assumes "models s a" "owned a" "in_cache s p" "sn_realloc p n s = Done q t" "q \<noteq> NULL" "q \<noteq> p"
  shows "\<exists>u. sn_free p t = Done () u \<and> error_code u = error_code t \<and> blocks t q \<noteq> None \<and> blocks u q = None \<and>
    (\<exists>v. sn_free q u = Halt UB v)"
  using assms(1)
proof (rule models_cases)
  fix L M ns assume ok: "sn_ok s L M ns" and a: "a = abstract M ns s"
  have hit: "cached_entry M p \<noteq> MEMMAN_CACHE_MISS" using assms(3) in_cache_iff [OF ok] by simp
  obtain L' M' bs where st: "stale t L' M' ns (cached_entry M p) p q n" "cached_entry M' p = cached_entry M p"
      "blocks t q = Some bs" "length bs = unat n"
    using realloc_goes_stale [OF ok _ hit assms(4-6)] assms(2) a by blast
  obtain M2 u where u: "sn_free p t = Done () u" "stale u L' M2 ns (cached_entry M p) p q n" "error_code u = error_code t"
      "blocks u = (blocks t)(q := None)"
    using free_stale_key [OF st(1-3)] st(4) by auto
  then show ?thesis using free_dangling [OF u(2)] st(3) by simp
qed

end
