(* ===== verification/List_Contract.thy ===== *)
theory List_Contract
  imports Registry
begin

text \<open>
  The tracking list as a sequence of blocks: what the list operations do to the sequence
  \<open>blocks_of\<close> of any well-formed list, independently of the rest of the library's state.
\<close>

text \<open>\<open>holds s l bs\<close>: at \<open>l\<close> lives a well-formed list of the blocks \<open>bs\<close>, and its mutex is free
  for the calling thread.\<close>

definition holds :: "machine \<Rightarrow> ptr \<Rightarrow> tracked_block list \<Rightarrow> bool" where
  "holds s l bs \<longleftrightarrow> (\<exists>L ns. list_ok s l L ns \<and> ready (l_mutex L) s \<and> bs = blocks_of (nodes s) ns)"

lemma holdsI: "\<lbrakk>list_ok s l L ns; ready (l_mutex L) s\<rbrakk> \<Longrightarrow> holds s l (blocks_of (nodes s) ns)"
  unfolding holds_def by blast

lemma push_holds:
  assumes ok: "list_ok s l L ns" and rdy: "ready (l_mutex L) s" and len: "l_len L \<noteq> - 1"
    and ans: "malloc_answers s = (p, junk) # rest" and place: "can_place s p sizeof_linked_list_entry_t"
  shows "runs (linked_list_push l d n t) s (\<lambda>_ u.
    holds u l (blocks_of (nodes s) ns @ [\<lparr>tb_data = d, tb_size = n, tb_tid = t, tb_id = 0\<rparr>]))"
proof -
  let ?u = "unlocked (l_mutex L) (s\<lparr>malloc_answers := rest, nodes := pushed_nodes p L d n t (nodes s),
      lists := (lists s)(l \<mapsto> pushed_list p ns L)\<rparr>)"
  have P: "list_ok ?u l (pushed_list p ns L) (ns @ [p])" "\<forall>q. q \<noteq> p \<longrightarrow> same_info (nodes s) (nodes ?u) q"
      "nodes ?u p = Some ((new_entry (l_lastEntry L) d n t)\<lparr>e_mutex := l_mutex L\<rparr>)"
    by (rule push_list_ok [OF ok place len]; simp)+
  have "p \<notin> set ns" using list_ok_node [OF ok] can_place_dom(1) [OF place] by fastforce
  then have "blocks_of (nodes ?u) ns = blocks_of (nodes s) ns"
    using P(2) by (intro blocks_of_same_info) metis
  moreover have "ready (l_mutex (pushed_list p ns L)) ?u"
    using rdy by (simp add: pushed_list_def ready_with_mutex)
  ultimately have "holds ?u l (blocks_of (nodes s) ns @ [\<lparr>tb_data = d, tb_size = n, tb_tid = t, tb_id = 0\<rparr>])"
    using holdsI [OF P(1)] P(3) by (simp add: block_of_new)
  then show ?thesis using push_eq [OF ok rdy ans place, of d n t] by (simp add: runs_def)
qed

text \<open>Removal, by pointer or of the last entry; the entry is freed.\<close>

lemma unlinked_holds:
  assumes ok: "list_ok s l L (xs @ p # ys)" and rdy: "ready (l_mutex L) s" and e: "nodes s p = Some e"
  defines "u \<equiv> unlocked (l_mutex L)
    (s\<lparr>nodes := unlinked_nodes p e (nodes s), lists := (lists s)(l \<mapsto> removed_list xs ys L)\<rparr>)"
  shows "holds u l (blocks_of (nodes s) (xs @ ys))" "nodes u p = None"
proof -
  have out: "p \<notin> set (xs @ ys)" using list_ok_around(2,3) [OF ok] by auto
  have "list_ok u l (removed_list xs ys L) (xs @ ys)" by (rule remove_list_ok [OF ok e]) (simp_all add: u_def)
  moreover have "blocks_of (nodes u) (xs @ ys) = blocks_of (nodes s) (xs @ ys)"
    using out by (intro blocks_of_same_info) (simp add: u_def, metis UnI1 UnI2 unlinked_same_info [OF ok e])
  moreover have "ready (l_mutex (removed_list xs ys L)) u" using rdy by (simp add: u_def ready_with_mutex)
  ultimately show "holds u l (blocks_of (nodes s) (xs @ ys))" using holdsI by metis
  show "nodes u p = None" by (simp add: u_def)
qed

lemma blocks_of_remove:
  assumes "\<forall>q \<in> set xs. e_data (the (h q)) \<noteq> key" "e_data (the (h p)) = key"
  shows "remove_first (\<lambda>b. tb_data b = key) (blocks_of h (xs @ p # ys)) = blocks_of h (xs @ ys)"
  using assms by (induction xs) simp_all

lemma removeEntryByPtr_holds:
  assumes ok: "list_ok s l L ns" and rdy: "ready (l_mutex L) s" and sp: "split_ok s" and key: "key \<noteq> NULL"
  shows "runs (linked_list_removeEntryByPtr l key) s (\<lambda>_ u.
    holds u l (remove_first (\<lambda>b. tb_data b = key) (blocks_of (nodes s) ns)))"
proof (cases "\<exists>p \<in> set ns. e_data (the (nodes s p)) = key")
  case False
  then have "remove_first (\<lambda>b. tb_data b = key) (blocks_of (nodes s) ns) = blocks_of (nodes s) ns"
    by (intro remove_first_none) (auto simp: blocks_of_def)
  moreover have "holds (unlocked (l_mutex L) s) l (blocks_of (nodes s) ns)"
    using holdsI [of "unlocked (l_mutex L) s" l L ns] ok rdy by (simp add: ready_with_mutex)
  ultimately show ?thesis using removeEntryByPtr_none [OF ok rdy key] False by (simp add: runs_def)
next
  case True
  then obtain xs p ys where ns: "ns = xs @ p # ys" and p: "e_data (the (nodes s p)) = key"
      and first: "\<forall>q \<in> set xs. e_data (the (nodes s q)) \<noteq> key"
    using split_list_first_prop [of ns "\<lambda>p. e_data (the (nodes s p)) = key"] by blast
  obtain e where e: "nodes s p = Some e" using list_ok_node [OF ok, of p] ns by auto
  then have "e_data e = key" using p by simp
  from removeEntryByPtr_eq [OF ok [unfolded ns] rdy sp key e this first]
    unlinked_holds(1) [OF ok [unfolded ns] rdy e] blocks_of_remove [OF first p, of ys]
  show ?thesis by (simp add: runs_def ns)
qed

lemma pop_holds:
  assumes ok: "list_ok s l L (xs @ [p])" and rdy: "ready (l_mutex L) s" and sp: "split_ok s"
  shows "runs (linked_list_pop l) s (\<lambda>_ u. holds u l (blocks_of (nodes s) xs) \<and> nodes u p = None)"
proof -
  obtain e where e: "nodes s p = Some e" using list_ok_node [OF ok, of p] by auto
  from pop_eq [OF ok rdy sp e] unlinked_holds [OF ok rdy e] show ?thesis by (simp add: runs_def)
qed

text \<open>The lookup answers with the entry of the first block at the address.\<close>

lemma getByPtr_holds:
  assumes ok: "list_ok s l L ns" and rdy: "ready (l_mutex L) s" and key: "key \<noteq> NULL"
  shows "runs (linked_list_getByPtr l key) s (\<lambda>p _. find_block key (blocks_of (nodes s) ns) =
    (if p = NULL then None else Some (block_of (the (nodes s p)))))"
  using getByPtr_eq [OF ok rdy key] find_block_lookup [OF list_okD(5) [OF ok], of key "nodes s"]
  by (simp add: runs_def Let_def)

text \<open>On a list without entries \<open>linked_list_pop\<close> keeps the mutex.\<close>

lemma pop_empty_keeps_lock:
  assumes ok: "list_ok s l L []" and rdy: "ready (l_mutex L) s"
  shows "linked_list_pop l s = Done () (locked (l_mutex L) s)"
proof -
  obtain e where e: "nodes s (l_head L) = Some e" "e_isHead e" using list_ok_head [OF ok] by blast
  moreover have "l_lastEntry L = l_head L" using list_okD(10) [OF ok] by simp
  ultimately show ?thesis using list_okD(1,2,7) [OF ok] rdy
    by (simp add: linked_list_pop_def list_lock_ok linked_list_entry_pri_isHead_def ret_def)
qed

text \<open>The work of the cache on a list: the last light entry is cached, if any slot can be had.\<close>

lemma work_caches:
  assumes ok: "list_ok s l L (xs @ p # ys)" and rdy: "ready (l_mutex L) s" and M: "manager_at s m M"
    and cok: "cache_ok (nodes s) (xs @ p # ys) (m_cache_list M)"
    and light: "light (the (nodes s p))" "\<forall>q \<in> set ys. \<not> light (the (nodes s q))"
    and slot: "\<exists>c \<in> set (m_cache_list M). eligible (nodes s) c"
  shows "runs (memman_work m l) s (\<lambda>_ t. \<exists>M'. managers t m = Some M' \<and>
    pair_for p (the (nodes s p)) \<in> set (m_cache_list M'))"
proof (rule runs_mono [OF work_eq(1) [OF ok rdy M cok]])
  let ?v = "cache_pass (xs @ p # ys) (nodes s, m_cache_list M)"
  fix r t assume "settled (leaks L (xs @ p # ys)) s (with_view m M ?v s) t"
  then have "managers t m = Some (M\<lparr>m_cache_list := snd ?v\<rparr>)"
    using lockeq_fields [OF settled_lockeq] by (simp add: with_view_def)
  moreover have "distinct (xs @ p # ys)" using list_okD(4) [OF ok] .
  ultimately show "\<exists>M'. managers t m = Some M' \<and> pair_for p (the (nodes s p)) \<in> set (m_cache_list M')"
    using last_light_cached [OF _ light slot] by simp
qed

text \<open>Invalidation, slot by slot.\<close>

lemma invalidate_runs:
  assumes M: "manager_at s m M" and ok: "cache_ok (nodes s) ns (m_cache_list M)" and key: "key \<noteq> NULL"
  shows "runs (memman_cacheInvalidate m key) s (\<lambda>_ t. \<exists>M'. managers t m = Some M' \<and>
    (\<forall>c \<in> set (m_cache_list M'). cp_key c \<noteq> key) \<and>
    m_cache_list M' = map (\<lambda>c. if cp_key c = key then zero_pair else c) (m_cache_list M) \<and>
    (\<forall>c \<in> set (m_cache_list M). cp_key c = key \<longrightarrow> (\<exists>e. nodes t (cp_value c) = Some e \<and> \<not> e_cached e)))"
proof -
  let ?cs = "m_cache_list M" and ?X = "held (key_hit key) (m_cache_list M)"
  have hit: "key_hit key = (\<lambda>c. cp_key c = key)" using key by (auto simp: key_hit_def)
  have pairs: "dropped_pairs (key_hit key) ?cs = map (\<lambda>c. if cp_key c = key then zero_pair else c) ?cs"
    by (simp add: dropped_pairs_def hit)
  have keys: "\<forall>c \<in> set (dropped_pairs (key_hit key) ?cs). cp_key c \<noteq> key"
    using invalidated_no_hit [of _ key ?cs] by (simp add: hit)
  have marks: "\<exists>e. marked False ?X (nodes s) (cp_value c) = Some e \<and> \<not> e_cached e" if c: "c \<in> set ?cs" "cp_key c = key" for c
  proof -
    have "cp_value c \<noteq> NULL" using cache_okD(2) [OF ok c(1)] c(2) key by simp
    then obtain e where "nodes s (cp_value c) = Some e" using cache_okD(1) [OF ok c(1)] by blast
    moreover have "cp_value c \<in> ?X" using c by (auto simp: held_def hit)
    ultimately show ?thesis by (simp add: marked_def)
  qed
  let ?t = "unlocked (m_mutex_ref M) (s\<lparr>nodes := marked False ?X (nodes s),
      managers := (managers s)(m \<mapsto> emptied (key_hit key) M)\<rparr>)"
  have t: "managers ?t m = Some (emptied (key_hit key) M)" "nodes ?t = marked False ?X (nodes s)"
    "m_cache_list (emptied (key_hit key) M) = dropped_pairs (key_hit key) ?cs" by simp_all
  show ?thesis
  proof (rule runsI [where m = "memman_cacheInvalidate m key" and s = s, OF cacheInvalidate_eq [OF M ok]],
      intro exI conjI)
    show "managers ?t m = Some (emptied (key_hit key) M)" by (rule t(1))
    show "\<forall>c \<in> set (m_cache_list (emptied (key_hit key) M)). cp_key c \<noteq> key" unfolding t(3) by (rule keys)
    show "m_cache_list (emptied (key_hit key) M) = map (\<lambda>c. if cp_key c = key then zero_pair else c) ?cs"
      unfolding t(3) by (rule pairs)
    show "\<forall>c \<in> set ?cs. cp_key c = key \<longrightarrow> (\<exists>e. nodes ?t (cp_value c) = Some e \<and> \<not> e_cached e)"
      unfolding t(2) using marks by blast
  qed
qed

end
