(* ===== verification/Progress.thy ===== *)
theory Progress
  imports Api_Steps Error_Codes
begin

text \<open>
  Calls of several threads one after the other: which sequences run to their end without a
  thread waiting for a lock, what every reachable state keeps in which kind of memory, and
  what the last error can be.
\<close>

section \<open>Schedules\<close>

text \<open>Each call is made by a thread of its own choosing, when the call before has returned.\<close>

fun run_schedule :: "(tid_t \<times> api_call) list \<Rightarrow> (64 word list) lib" where
  "run_schedule [] s = ret [] s"
| "run_schedule ((t, c) # cs) s =
     bnd (run_call c) (\<lambda>r. bnd (run_schedule cs) (\<lambda>rs. ret (r # rs))) (s\<lparr>current := t\<rparr>)"

text \<open>Every call keeps to the caller's duties, and finds at least one block tracked.\<close>

fun schedulable :: "(tid_t \<times> api_call) list \<Rightarrow> machine \<Rightarrow> bool" where
  "schedulable [] s = True"
| "schedulable ((t, c) # cs) s = (t \<noteq> 0 \<and>
     (\<exists>a. models (s\<lparr>current := t\<rparr>) a \<and> registry a \<noteq> [] \<and> permitted (s\<lparr>current := t\<rparr>) a c) \<and>
     (\<forall>r u. run_call c (s\<lparr>current := t\<rparr>) = Done r u \<longrightarrow> schedulable cs u))"

definition all_released :: "machine \<Rightarrow> bool" where
  "all_released s \<longleftrightarrow> (\<forall>m. released m s)"

text \<open>One call of any thread, all locks free before and after.\<close>

lemma call_releases:
  assumes r: "reachable s" and m: "models s a" and p: "permitted s a c"
    and free: "all_released s" and some: "registry a \<noteq> []"
  shows "ends (run_call c) s (\<lambda>r t. reachable t \<and> all_released t) (\<lambda>h. h = Aborted)"
proof -
  have "may_leak s a = {}" using some by (simp add: may_leak_def)
  then have "ends (run_call c) s (\<lambda>r t. all_released t) (\<lambda>h. h = Aborted)"
    using reachable_safe [OF r m p] free unfolding serves_def
    by (elim ends_mono) (auto simp: keeps_locks_def all_released_def)
  moreover have "reachable t" if "run_call c s = Done v t" for v t
    using reachable.more [OF r step.call [OF m p that]] .
  ultimately show ?thesis by (auto simp: ends_def split: outcome.splits)
qed

lemma reachable_thread: "\<lbrakk>reachable s; all_released s; t \<noteq> 0\<rbrakk> \<Longrightarrow> reachable (s\<lparr>current := t\<rparr>)"
  using reachable.more [OF _ step.switch] by (simp add: all_released_def)

lemma all_released_thread [simp]: "all_released (s\<lparr>current := t\<rparr>) = all_released s"
  by (simp add: all_released_def released_def)

lemma schedule_ends:
  "\<lbrakk>reachable s; all_released s; schedulable cs s\<rbrakk> \<Longrightarrow>
   ends (run_schedule cs) s (\<lambda>rs t. length rs = length cs \<and> reachable t \<and> all_released t) (\<lambda>h. h = Aborted)"
proof (induction cs arbitrary: s)
  case Nil
  then show ?case by (simp add: ends_def ret_def)
next
  case (Cons x cs)
  obtain t c where x: "x = (t, c)" by (cases x)
  let ?s = "s\<lparr>current := t\<rparr>"
  obtain a where a: "t \<noteq> 0" "models ?s a" "registry a \<noteq> []" "permitted ?s a c"
    using Cons.prems(3) by (auto simp: x)
  have r: "reachable ?s" using reachable_thread Cons.prems(1,2) a(1) by blast
  have call: "ends (run_call c) ?s (\<lambda>r u. reachable u \<and> all_released u) (\<lambda>h. h = Aborted)"
    using call_releases [OF r a(2,4) _ a(3)] Cons.prems(2) by simp
  show ?case
  proof (cases "run_call c ?s")
    case (Halt h u)
    then show ?thesis using call by (simp add: ends_def x)
  next
    case (Done v u)
    then have "reachable u" "all_released u" "schedulable cs u" using call Cons.prems(3) by (auto simp: ends_def x)
    from Cons.IH [OF this] show ?thesis
      by (cases "run_schedule cs u") (simp_all add: ends_def x Done ret_def)
  qed
qed

section \<open>The kinds of memory\<close>

text \<open>What the globals point at, and where tracked blocks live.\<close>

definition well_typed :: "machine \<Rightarrow> sn_state \<Rightarrow> bool" where
  "well_typed s a \<longleftrightarrow>
     lists s (mem_list s) \<noteq> None \<and> managers s (memory_manager s) \<noteq> None \<and>
     (alloc_mutex s \<noteq> NULL \<longrightarrow> cfg_mutex s \<longrightarrow> mutexes s (alloc_mutex s) \<noteq> None) \<and>
     (\<forall>x \<in> set (registry a). tb_data x \<noteq> NULL \<and> (\<exists>bs. blocks s (tb_data x) = Some bs \<and> unat (tb_size x) \<le> length bs) \<and>
        nodes s (tb_data x) = None \<and> lists s (tb_data x) = None \<and>
        managers s (tb_data x) = None \<and> mutexes s (tb_data x) = None)"

lemma reachable_typed:
  assumes r: "reachable s" and m: "models s a"
  shows "well_typed s a"
proof -
  obtain b where "models s b" "owned b" using reachable_models [OF r] by blast
  then have o: "owned a" using models_unique [OF m] by blast
  show ?thesis using m
  proof (rule models_cases)
    fix L M ns assume ok: "sn_ok s L M ns" and a: "a = abstract M ns s"
    note D = sn_okD [OF ok]
    have "nodes s p = None \<and> lists s p = None \<and> managers s p = None \<and> mutexes s p = None" if "blocks s p = Some bs" for p bs
      using split_ok_block [OF D(6) that] .
    moreover have "\<forall>x \<in> set (registry a). tb_data x \<noteq> NULL \<and> (\<exists>bs. blocks s (tb_data x) = Some bs \<and> unat (tb_size x) \<le> length bs)"
      using o models_memory_of [OF m] by (simp add: owned_def)
    moreover have "mutexes s (alloc_mutex s) \<noteq> None" if "alloc_mutex s \<noteq> NULL" "cfg_mutex s"
      using D(7) that by (auto simp: ready_def)
    ultimately show ?thesis using sn_ok_lists [OF ok] D(8) unfolding well_typed_def by fastforce
  qed
qed

section \<open>The last error\<close>

definition known_code :: "err_t \<Rightarrow> bool" where
  "known_code i \<longleftrightarrow> (\<exists>e. i = err_code e)"

lemma known_code_failed [simp]: "known_code (last_error (failed e a))"
  by (auto simp: failed_def known_code_def)

lemma known_code_updates [simp]:
  "last_error (with_block p bs n k t a) = last_error a" "last_error (filled r n v a) = last_error a"
  "last_error (registered p n t a) = last_error a" "last_error (with_copy p q c) = last_error c"
  by (simp_all add: with_block_def filled_def registered_def with_copy_def)

lemma known_code_queried: "known_code (last_error a) \<Longrightarrow> known_code (last_error (queried p a)) \<and> known_code (last_error (looked_up p a))"
  by (simp add: queried_def looked_up_def)

lemma known_code_malloc: "\<lbrakk>malloc_spec z t n a r b; known_code (last_error a)\<rbrakk> \<Longrightarrow> known_code (last_error b)"
  by (erule malloc_specE) simp_all

lemma known_code_static: "\<lbrakk>static_spec z t p a r b; known_code (last_error a)\<rbrakk> \<Longrightarrow> known_code (last_error b)"
  by (erule static_spec.cases) (auto simp: known_code_queried intro: known_code_malloc)

lemma known_code_call:
  assumes "call_spec z t c a r b" "known_code (last_error a)"
  shows "known_code (last_error b)"
proof (cases c)
  case (Malloc n)
  then show ?thesis using assms known_code_malloc by auto
next
  case (Calloc num n)
  then show ?thesis using assms by (auto elim: calloc_specE)
next
  case (Malloc_pre_initialized n v)
  then show ?thesis using assms known_code_malloc by auto
next
  case (Realloc p n)
  then show ?thesis using assms by (auto elim: realloc_spec.cases)
next
  case (Free p)
  then show ?thesis using assms by (auto simp: free_spec_def without_block_def split: option.splits)
next
  case (Register_size p n)
  then show ?thesis using assms by (auto simp: register_spec_def split: if_splits)
next
  case (Query_static_metadata p)
  then show ?thesis using assms known_code_static by auto
next
  case (Dump_to_file target p)
  then show ?thesis using assms by (auto simp: known_code_queried elim!: dump_spec.cases)
next
  case (Set_block_id p i)
  then show ?thesis using assms by (auto simp: set_id_spec_def known_code_queried split: if_splits)
qed (use assms known_code_queried in \<open>auto split: if_splits\<close>)

end
