(* ===== verification/Malloc_Race.thy ===== *)
theory Malloc_Race
  imports Progress
begin

text \<open>
  \<open>sn_malloc\<close> called by several threads at once. No lock covers the whole call, so the model
  runs it in the steps between which another thread can come in: the check of the limit, the
  call of \<open>malloc\<close>, the read and the write of \<open>global_memory_usage +=\<close>, and the push, which
  holds the list's mutex. Alone the steps are \<open>sn_malloc\<close>; interleaved in any order they keep
  the registry and the memory sound, but can lose usage and pass the limit.
\<close>

section \<open>The steps\<close>

text \<open>Where a thread is in the call, with its local variables.\<close>

datatype malloc_pc =
  Entered size_t
| Admitted size_t
| Allocated size_t ptr
| Loaded size_t ptr size_t
| Counted size_t ptr
| Returned ptr

fun malloc_step :: "malloc_pc \<Rightarrow> malloc_pc lib" where
  "malloc_step (Entered n) =
     (if n = 0 then bnd (sn_error SN_ERR_BAD_SIZE NULL) (\<lambda>r. ret (Returned r))
      else bnd (gets memory_manager) (\<lambda>m.
           bnd (memman_canAllocateBasedOnLimitAndSize m n) (\<lambda>ok.
           if \<not> ok then bnd (sn_error SN_ERR_ALLOC_LIMIT_HIT NULL) (\<lambda>r. ret (Returned r))
           else ret (Admitted n))))"
| "malloc_step (Admitted n) =
     bnd (plat_malloc n) (\<lambda>pr.
     if pr = NULL then bnd (sn_error SN_ERR_BAD_ALLOC NULL) (\<lambda>r. ret (Returned r))
     else bnd (gets cfg_sanitize) (\<lambda>z.
          bnd (if_do z (c_memset pr 0 n)) (\<lambda>_.
          ret (Allocated n pr))))"
| "malloc_step (Allocated n pr) =
     bnd (gets memory_manager) (\<lambda>m. bnd (load_manager m) (\<lambda>M. ret (Loaded n pr (m_global_memory_usage M))))"
| "malloc_step (Loaded n pr u) =
     bnd (gets memory_manager) (\<lambda>m.
     bnd (upd_manager m (\<lambda>M. M\<lparr>m_global_memory_usage := u + n\<rparr>)) (\<lambda>_. ret (Counted n pr)))"
| "malloc_step (Counted n pr) =
     bnd (gets mem_list) (\<lambda>l. bnd plat_getTid (\<lambda>tid.
     bnd (linked_list_push l pr n tid) (\<lambda>_. ret (Returned pr))))"
| "malloc_step (Returned r) = ret (Returned r)"

text \<open>A thread that runs alone: five steps from the entry to the return.\<close>

primrec malloc_steps :: "nat \<Rightarrow> malloc_pc \<Rightarrow> malloc_pc lib" where
  "malloc_steps 0 c = ret c"
| "malloc_steps (Suc k) c = bnd (malloc_step c) (malloc_steps k)"

fun returned :: "malloc_pc \<Rightarrow> ptr" where
  "returned (Returned r) = r"
| "returned _ = NULL"

lemma malloc_steps_returned [simp]: "malloc_steps k (Returned r) s = Done (Returned r) s"
  by (induction k) (simp_all add: ret_def)

lemma malloc_steps_rec:
  "malloc_steps 5 c = bnd (malloc_step c) (malloc_steps 4)" "malloc_steps 4 c = bnd (malloc_step c) (malloc_steps 3)"
  by (simp_all only: malloc_steps.simps(2) [symmetric] Suc_numeral semiring_norm)

lemma error_alone:
  "bnd (bnd (sn_error e NULL) (\<lambda>r. ret (Returned r))) (\<lambda>c. bnd (malloc_steps k c) (\<lambda>c. ret (returned c))) s = sn_error e NULL s"
  by (cases "(sn_error e NULL :: ptr lib) s") (simp_all add: ret_def)

lemma counted_alone:
  "bnd (malloc_step (Counted n pr)) (\<lambda>c. ret (returned c)) s =
   bnd (gets mem_list) (\<lambda>l. bnd plat_getTid (\<lambda>tid. bnd (linked_list_push l pr n tid) (\<lambda>_. ret pr))) s"
  by (cases "linked_list_push (mem_list s) pr n (thread_id s) s") (simp_all add: ret_def)

lemma allocated_alone:
  "bnd (malloc_steps 3 (Allocated n pr)) (\<lambda>c. ret (returned c)) s = account_and_track pr n n s"
proof -
  have "bnd (malloc_steps 3 (Allocated n pr)) (\<lambda>c. ret (returned c)) s =
    (case managers s (memory_manager s) of None \<Rightarrow> Halt UB s | Some M \<Rightarrow>
       bnd (malloc_step (Counted n pr)) (\<lambda>c. ret (returned c))
         (s\<lparr>managers := (managers s)(memory_manager s \<mapsto> M\<lparr>m_global_memory_usage := m_global_memory_usage M + n\<rparr>)\<rparr>))"
    by (cases "managers s (memory_manager s)")
      (simp_all add: numeral_3_eq_3 load_manager_def bnd_def ret_def gets_def upd_manager_def split: outcome.splits)
  then show ?thesis unfolding counted_alone
    by (cases "managers s (memory_manager s)") (simp_all add: account_and_track_def add_usage_def upd_manager_def)
qed

lemma admitted_alone:
  "bnd (malloc_steps 4 (Admitted n)) (\<lambda>c. ret (returned c)) s =
   bnd (plat_malloc n) (\<lambda>pr. if pr = NULL then sn_error SN_ERR_BAD_ALLOC NULL
     else bnd (gets cfg_sanitize) (\<lambda>z. bnd (if_do z (c_memset pr 0 n)) (\<lambda>_. account_and_track pr n n))) s"
proof (cases "plat_malloc n s")
  case (Done pr t)
  show ?thesis
  proof (cases "pr = NULL")
    case True
    then show ?thesis using Done error_alone [of SN_ERR_BAD_ALLOC 3 t] by (simp add: malloc_steps_rec)
  next
    case False
    then show ?thesis using Done allocated_alone [of n pr]
      by (cases "if_do (cfg_sanitize t) (c_memset pr 0 n) t") (simp_all add: malloc_steps_rec)
  qed
qed (simp add: malloc_steps_rec)

lemma malloc_alone: "bnd (malloc_steps 5 (Entered n)) (\<lambda>c. ret (returned c)) s = sn_malloc n s"
proof (cases "n = 0")
  case True
  then show ?thesis using error_alone [of SN_ERR_BAD_SIZE 4 s] by (simp add: malloc_steps_rec sn_malloc_def)
next
  case False
  show ?thesis
  proof (cases "memman_canAllocateBasedOnLimitAndSize (memory_manager s) n s")
    case (Done ok t)
    show ?thesis
    proof (cases ok)
      case True
      have "sn_malloc n s = bnd (plat_malloc n) (\<lambda>pr. if pr = NULL then sn_error SN_ERR_BAD_ALLOC NULL
          else bnd (gets cfg_sanitize) (\<lambda>z. bnd (if_do z (c_memset pr 0 n)) (\<lambda>_. account_and_track pr n n))) t"
        using False Done True unfolding sn_malloc_def account_and_track_def by simp
      then show ?thesis using False Done True admitted_alone [of n t] by (simp add: malloc_steps_rec(1))
    next
      case refused: False
      then show ?thesis using False Done error_alone [of SN_ERR_ALLOC_LIMIT_HIT 4 t]
        by (simp add: malloc_steps_rec(1) sn_malloc_def)
    qed
  qed (use False in \<open>simp add: malloc_steps_rec(1) sn_malloc_def\<close>)
qed

section \<open>Threads in the call\<close>

text \<open>Any thread that is in the call takes a step, as long as the list can count one more entry.\<close>

inductive race_step :: "machine \<times> (tid_t \<rightharpoonup> malloc_pc) \<Rightarrow> machine \<times> (tid_t \<rightharpoonup> malloc_pc) \<Rightarrow> bool" where
  move: "\<lbrakk>t \<noteq> 0; pool t = Some c; room s; malloc_step c (s\<lparr>current := t\<rparr>) = Done c' s'\<rbrakk>
    \<Longrightarrow> race_step (s, pool) (s', pool(t \<mapsto> c'))"

inductive_cases race_stepE: "race_step (s, pool) d"

text \<open>The steps on the abstract state; \<open>t\<close> is the thread recorded for the block.\<close>

inductive malloc_moves :: "tid_t \<Rightarrow> sn_state \<Rightarrow> malloc_pc \<Rightarrow> malloc_pc \<Rightarrow> sn_state \<Rightarrow> bool"
  for t :: tid_t and a :: sn_state where
  refuse: "n = 0 \<or> \<not> allowed a n \<Longrightarrow> malloc_moves t a (Entered n) (Returned NULL) (failed e a)"
| admit: "\<lbrakk>n \<noteq> 0; allowed a n\<rbrakk> \<Longrightarrow> malloc_moves t a (Entered n) (Admitted n) a"
| no_memory: "malloc_moves t a (Admitted n) (Returned NULL) (failed SN_ERR_BAD_ALLOC a)"
| place: "\<lbrakk>p \<noteq> NULL; memory a p = None; length bs = unat n\<rbrakk>
    \<Longrightarrow> malloc_moves t a (Admitted n) (Allocated n p) (a\<lparr>memory := (memory a)(p \<mapsto> bs)\<rparr>)"
| load: "malloc_moves t a (Allocated n p) (Loaded n p (usage a)) a"
| store: "malloc_moves t a (Loaded n p u) (Counted n p) (a\<lparr>usage := u + n\<rparr>)"
| push: "malloc_moves t a (Counted n p) (Returned p) (registered p n t a)"
| stay: "malloc_moves t a (Returned p) (Returned p) a"

text \<open>Writing the counter, and pushing, on a modelled state.\<close>

lemma store_usage_runs:
  assumes ok: "sn_ok s L M ns"
  shows "runs (bnd (gets memory_manager) (\<lambda>m. upd_manager m (\<lambda>M. M\<lparr>m_global_memory_usage := v\<rparr>))) s
    (\<lambda>_ t. keeps_locks {} s t \<and> models t ((abstract M ns s)\<lparr>usage := v\<rparr>))"
  by (rule runs_mono [OF manager_update_runs [OF ok, of "\<lambda>M. M\<lparr>m_global_memory_usage := v\<rparr>"]])
    (auto simp: abstract_def intro!: models_keeps)

lemma push_models:
  assumes ok: "sn_ok s L M ns" and room: "room s"
  shows "ends (linked_list_push (mem_list s) p n t) s
    (\<lambda>_ u. keeps_locks {} s u \<and> models u (registered p n t (abstract M ns s))) (\<lambda>h. h = Aborted)"
  by (rule ends_mono [OF push_ends [OF ok roomD [OF ok room], of p n t]]) (auto simp: registered_def intro!: models_keeps)

lemma malloc_step_ends:
  assumes m: "models s a" and room: "room s"
  shows "ends (malloc_step c) s (\<lambda>c' t. keeps_locks {} s t \<and> (\<exists>b. models t b \<and> malloc_moves (thread_id s) a c c' b))
    (\<lambda>h. h = Aborted)" (is "ends _ _ ?Q _")
  using m
proof (rule models_cases)
  fix L M ns assume ok: "sn_ok s L M ns" and a: "a = abstract M ns s"
  note D = sn_okD [OF ok]
  have err: "ends (bnd (sn_error e NULL) (\<lambda>r. ret (Returned r))) u ?Q (\<lambda>h. h = Aborted)"
    if u: "sn_ok u L M ns" "abstract M ns u = a" "keeps_locks {} s u"
      and move: "malloc_moves (thread_id s) a c (Returned NULL) (failed e a)" for e u
  proof (rule ends_bnd_runs [OF error_ends [OF u(1), of e NULL]], elim conjE)
    fix r t assume t: "r = NULL" "models t (failed e (abstract M ns u))" "keeps_locks {} u t"
    then have "keeps_locks {} s t" using u(3) keeps_locks_trans [of "{}" s u "{}" t] by simp
    then show "ends (ret (Returned r)) t ?Q (\<lambda>h. h = Aborted)" using t move u(2) by auto
  qed
  show ?thesis
  proof (cases c)
    case (Entered n)
    note can = canAllocate_eq [OF D(8,9), of n]
    have al: "allowed a n = within_limit M n" by (simp add: a allowed_abstract)
    show ?thesis
    proof (cases "n = 0 \<or> \<not> allowed a n")
      case True
      then have "malloc_moves (thread_id s) a c (Returned NULL) (failed e a)" for e
        unfolding Entered by (rule malloc_moves.refuse)
      then show ?thesis
        using True err [OF ok a [symmetric], of SN_ERR_BAD_SIZE] err [OF ok a [symmetric], of SN_ERR_ALLOC_LIMIT_HIT] can al
        by (cases "n = 0") (simp_all add: Entered ends_def keeps_locks_def)
    next
      case False
      then show ?thesis using m can al malloc_moves.admit [of n a "thread_id s"]
        by (auto simp: Entered ends_def ret_def keeps_locks_def)
    qed
  next
    case (Admitted n)
    show ?thesis
    proof (cases rule: plat_malloc_cases [of n s])
      case (fail rest)
      have "ends (bnd (sn_error SN_ERR_BAD_ALLOC NULL) (\<lambda>r. ret (Returned r))) (s\<lparr>malloc_answers := rest\<rparr>) ?Q (\<lambda>h. h = Aborted)"
        using malloc_moves.no_memory
        by (intro err sn_ok_answers [OF ok]) (simp_all add: Admitted a abstract_def keeps_locks_def released_def)
      then show ?thesis using fail by (simp add: Admitted ends_def)
    next
      case (ok p junk rest)
      note P = this
      let ?bs = "if cfg_sanitize s then replicate (unat n) 0 else fresh_bytes n junk"
      let ?s = "s\<lparr>malloc_answers := rest, blocks := (blocks s)(p \<mapsto> ?bs)\<rparr>"
      have "models ?s (a\<lparr>memory := (memory a)(p \<mapsto> ?bs)\<rparr>)"
        by (rule models_keeps [OF sn_ok_new_block [OF \<open>sn_ok s L M ns\<close> P(2)]]) (simp add: a abstract_def)
      moreover have "malloc_moves (thread_id s) a (Admitted n) (Allocated n p) (a\<lparr>memory := (memory a)(p \<mapsto> ?bs)\<rparr>)"
        using can_place_dom [OF P(2)] by (intro malloc_moves.place) (auto simp: a abstract_def)
      moreover have "malloc_step c s = Done (Allocated n p) ?s"
        using P can_place_dom [OF P(2)] by (cases "n = 0") (simp add: Admitted c_memset_def ret_def fresh_bytes_def, simp add: Admitted c_memset_def ret_def)
      ultimately show ?thesis by (auto simp: Admitted ends_def keeps_locks_def released_def)
    qed
  next
    case (Allocated n p)
    have "malloc_step c s = Done (Loaded n p (usage a)) s" using D(8) by (simp add: Allocated a abstract_def ret_def)
    then show ?thesis using m malloc_moves.load by (auto simp: Allocated ends_def keeps_locks_def)
  next
    case (Loaded n p u)
    have "malloc_step c = bnd (bnd (gets memory_manager) (\<lambda>m. upd_manager m (\<lambda>M. M\<lparr>m_global_memory_usage := u + n\<rparr>)))
        (\<lambda>_. ret (Counted n p))" by (rule ext) (simp add: Loaded)
    moreover have "ends \<dots> s ?Q (\<lambda>h. h = Aborted)"
      by (rule ends_bnd_runs [OF store_usage_runs [OF ok, of "u + n"]]) (use malloc_moves.store a in \<open>auto simp: Loaded\<close>)
    ultimately show ?thesis by (simp add: ends_def)
  next
    case (Counted n p)
    have "malloc_step c s = bnd (linked_list_push (mem_list s) p n (thread_id s)) (\<lambda>_. ret (Returned p)) s" by (simp add: Counted)
    moreover have "ends (bnd (linked_list_push (mem_list s) p n (thread_id s)) (\<lambda>_. ret (Returned p))) s ?Q (\<lambda>h. h = Aborted)"
      by (rule ends_bnd [OF push_models [OF ok room, of p n "thread_id s"]]) (use malloc_moves.push a in \<open>auto simp: Counted\<close>)
    ultimately show ?thesis by (simp add: ends_def)
  next
    case (Returned p)
    then show ?thesis using m malloc_moves.stay by (auto simp: keeps_locks_def)
  qed
qed

section \<open>What every interleaving keeps\<close>

text \<open>The block a thread has in hand: allocated, but not tracked yet.\<close>

fun in_hand :: "malloc_pc option \<Rightarrow> (ptr \<times> size_t) option" where
  "in_hand (Some (Allocated n p)) = Some (p, n)"
| "in_hand (Some (Loaded n p u)) = Some (p, n)"
| "in_hand (Some (Counted n p)) = Some (p, n)"
| "in_hand _ = None"

definition pool_ok :: "sn_state \<Rightarrow> (tid_t \<rightharpoonup> malloc_pc) \<Rightarrow> bool" where
  "pool_ok a pool \<longleftrightarrow>
     (\<forall>t p n. in_hand (pool t) = Some (p, n) \<longrightarrow> p \<noteq> NULL \<and> find_block p (registry a) = None \<and>
        (\<exists>bs. memory a p = Some bs \<and> unat n \<le> length bs)) \<and>
     (\<forall>t u p n k. in_hand (pool t) = Some (p, n) \<longrightarrow> in_hand (pool u) = Some (p, k) \<longrightarrow> t = u) \<and>
     (\<forall>t p. pool t = Some (Returned p) \<longrightarrow> p \<noteq> NULL \<longrightarrow> find_block p (registry a) \<noteq> None)"

lemma pool_okD:
  assumes "pool_ok a pool"
  shows "in_hand (pool t) = Some (p, n) \<Longrightarrow> p \<noteq> NULL \<and> find_block p (registry a) = None \<and>
      (\<exists>bs. memory a p = Some bs \<and> unat n \<le> length bs)"
    "\<lbrakk>in_hand (pool t) = Some (p, n); in_hand (pool u) = Some (p, k)\<rbrakk> \<Longrightarrow> t = u"
    "\<lbrakk>pool t = Some (Returned p); p \<noteq> NULL\<rbrakk> \<Longrightarrow> find_block p (registry a) \<noteq> None"
  using assms unfolding pool_ok_def by blast+

lemma pool_okI:
  assumes "\<And>t p n. in_hand (pool t) = Some (p, n) \<Longrightarrow> p \<noteq> NULL \<and> find_block p (registry a) = None \<and>
      (\<exists>bs. memory a p = Some bs \<and> unat n \<le> length bs)"
    and "\<And>t u p n k. \<lbrakk>in_hand (pool t) = Some (p, n); in_hand (pool u) = Some (p, k)\<rbrakk> \<Longrightarrow> t = u"
    and "\<And>t p. \<lbrakk>pool t = Some (Returned p); p \<noteq> NULL\<rbrakk> \<Longrightarrow> find_block p (registry a) \<noteq> None"
  shows "pool_ok a pool"
  unfolding pool_ok_def using assms by blast

text \<open>A step that changes neither the registry nor the memory.\<close>

lemma pool_ok_keeps:
  assumes ok: "pool_ok a pool" and b: "registry b = registry a" "memory b = memory a" and c: "pool t = Some c"
    and hand: "in_hand (Some c') = None \<or> in_hand (Some c') = in_hand (Some c)"
    and out: "\<And>p. c' = Returned p \<Longrightarrow> p = NULL \<or> c = c'"
  shows "pool_ok b (pool(t \<mapsto> c'))"
proof -
  have kept: "in_hand (pool u) = Some x" if "in_hand ((pool(t \<mapsto> c')) u) = Some x" for u x
    using that hand c by (auto split: if_splits)
  show ?thesis
  proof (rule pool_okI)
    fix u p assume "(pool(t \<mapsto> c')) u = Some (Returned p)" "p \<noteq> NULL"
    then have "pool u = Some (Returned p)" using out [of p] c by (auto split: if_splits)
    then show "find_block p (registry b) \<noteq> None" using pool_okD(3) [OF ok] \<open>p \<noteq> NULL\<close> b by simp
  next
    fix u p n assume "in_hand ((pool(t \<mapsto> c')) u) = Some (p, n)"
    from pool_okD(1) [OF ok kept [OF this]]
    show "p \<noteq> NULL \<and> find_block p (registry b) = None \<and> (\<exists>bs. memory b p = Some bs \<and> unat n \<le> length bs)"
      using b by simp
  next
    fix u v p n k assume "in_hand ((pool(t \<mapsto> c')) u) = Some (p, n)" "in_hand ((pool(t \<mapsto> c')) v) = Some (p, k)"
    from pool_okD(2) [OF ok kept [OF this(1)] kept [OF this(2)]] show "u = v" .
  qed
qed

lemma pool_ok_place:
  assumes ok: "pool_ok a pool" and o: "owned a" and p: "p \<noteq> NULL" "memory a p = None" "length bs = unat n"
  shows "pool_ok (a\<lparr>memory := (memory a)(p \<mapsto> bs)\<rparr>) (pool(t \<mapsto> Allocated n p))"
proof -
  have free: "find_block p (registry a) = None" using o p(2) by (fastforce simp: owned_def find_block_None)
  have other: "q \<noteq> p" if "in_hand (pool u) = Some (q, k)" for u q k using pool_okD(1) [OF ok that] p(2) by auto
  show ?thesis
  proof (rule pool_okI)
    fix u q k assume "in_hand ((pool(t \<mapsto> Allocated n p)) u) = Some (q, k)"
    then show "q \<noteq> NULL \<and> find_block q (registry (a\<lparr>memory := (memory a)(p \<mapsto> bs)\<rparr>)) = None \<and>
        (\<exists>bs'. memory (a\<lparr>memory := (memory a)(p \<mapsto> bs)\<rparr>) q = Some bs' \<and> unat k \<le> length bs')"
      using free p pool_okD(1) [OF ok, of u q k] by (auto split: if_splits)
  next
    fix u v q k l assume "in_hand ((pool(t \<mapsto> Allocated n p)) u) = Some (q, k)" "in_hand ((pool(t \<mapsto> Allocated n p)) v) = Some (q, l)"
    then show "u = v" using other pool_okD(2) [OF ok] by (auto split: if_splits)
  next
    fix u q assume "(pool(t \<mapsto> Allocated n p)) u = Some (Returned q)" "q \<noteq> NULL"
    then show "find_block q (registry (a\<lparr>memory := (memory a)(p \<mapsto> bs)\<rparr>)) \<noteq> None"
      using pool_okD(3) [OF ok] by (auto split: if_splits)
  qed
qed

lemma find_block_registered: "find_block q (registry (registered p n t a)) = None \<longleftrightarrow> find_block q (registry a) = None \<and> q \<noteq> p"
  by (auto simp: find_block_None registered_def)

lemma pool_ok_push:
  assumes ok: "pool_ok a pool" and c: "pool t = Some (Counted n p)"
  shows "pool_ok (registered p n u a) (pool(t \<mapsto> Returned p))"
proof (rule pool_okI)
  have p: "in_hand (pool t) = Some (p, n)" using c by simp
  fix v q k assume "in_hand ((pool(t \<mapsto> Returned p)) v) = Some (q, k)"
  then have v: "v \<noteq> t" "in_hand (pool v) = Some (q, k)" by (auto split: if_splits)
  then have "q \<noteq> p" using pool_okD(2) [OF ok p, of v] by auto
  then show "q \<noteq> NULL \<and> find_block q (registry (registered p n u a)) = None \<and>
      (\<exists>bs'. memory (registered p n u a) q = Some bs' \<and> unat k \<le> length bs')"
    using pool_okD(1) [OF ok v(2)] by (simp add: find_block_registered) (simp add: registered_def)
next
  fix v w q k l assume "in_hand ((pool(t \<mapsto> Returned p)) v) = Some (q, k)" "in_hand ((pool(t \<mapsto> Returned p)) w) = Some (q, l)"
  then show "v = w" using pool_okD(2) [OF ok] by (auto split: if_splits)
next
  fix v q assume "(pool(t \<mapsto> Returned p)) v = Some (Returned q)" "q \<noteq> NULL"
  then show "find_block q (registry (registered p n u a)) \<noteq> None"
    using pool_okD(3) [OF ok] by (auto simp: find_block_registered split: if_splits)
qed

lemma malloc_moves_keep:
  assumes move: "malloc_moves tid a c c' b" and ok: "pool_ok a pool" and o: "owned a" and c: "pool t = Some c"
  shows "pool_ok b (pool(t \<mapsto> c')) \<and> owned b"
  using move
proof cases
  case (refuse n e)
  then show ?thesis using pool_ok_keeps [OF ok, of b t c c'] c o by (simp add: failed_def owned_def)
next
  case (admit n)
  then show ?thesis using pool_ok_keeps [OF ok, of b t c c'] c o by simp
next
  case (no_memory n)
  then show ?thesis using pool_ok_keeps [OF ok, of b t c c'] c o by (simp add: failed_def owned_def)
next
  case (place p bs n)
  have "owned (a\<lparr>memory := (memory a)(p \<mapsto> bs)\<rparr>)" by (rule owned_memory [OF o]) (use place(5) in auto)
  then show ?thesis using pool_ok_place [OF ok o] place by simp
next
  case (load n p)
  then show ?thesis using pool_ok_keeps [OF ok, of b t c c'] c o by simp
next
  case (store n p u)
  then show ?thesis using pool_ok_keeps [OF ok, of b t c c'] c o by (simp add: owned_def)
next
  case (push n p)
  then have "in_hand (pool t) = Some (p, n)" using c by simp
  from pool_okD(1) [OF ok this] show ?thesis
    using push pool_ok_push [OF ok] owned_registered [OF o] c by auto
next
  case (stay p)
  then show ?thesis using pool_ok_keeps [OF ok, of b t c c'] c o by simp
qed

text \<open>The invariant of the race, and the progress of every thread in it.\<close>

definition race_ok :: "machine \<times> (tid_t \<rightharpoonup> malloc_pc) \<Rightarrow> bool" where
  "race_ok c \<longleftrightarrow> all_released (fst c) \<and> (\<exists>a. models (fst c) a \<and> owned a \<and> pool_ok a (snd c))"

lemma race_step_keeps: "\<lbrakk>race_step c d; race_ok c\<rbrakk> \<Longrightarrow> race_ok d"
proof (induction rule: race_step.induct)
  case (move t pool c s c' s')
  obtain a where a: "models s a" "owned a" "pool_ok a pool" and free: "all_released s"
    using move.prems by (auto simp: race_ok_def)
  have m: "models (s\<lparr>current := t\<rparr>) a" using thread_models [OF a(1) _ move.hyps(1)] free by (simp add: all_released_def)
  have "room (s\<lparr>current := t\<rparr>)" using move.hyps(3) by (simp add: room_def)
  from malloc_step_ends [OF m this, of c] obtain b where b: "keeps_locks {} (s\<lparr>current := t\<rparr>) s'" "models s' b"
      "malloc_moves (thread_id (s\<lparr>current := t\<rparr>)) a c c' b"
    using move.hyps(4) by (auto simp: ends_def)
  have "all_released s'" using b(1) free by (auto simp: all_released_def keeps_locks_def released_def)
  then show ?case using malloc_moves_keep [OF b(3) a(3,2) move.hyps(2)] b(2) by (auto simp: race_ok_def)
qed

lemma race_keeps: "\<lbrakk>race_step\<^sup>*\<^sup>* c d; race_ok c\<rbrakk> \<Longrightarrow> race_ok d"
  by (induction rule: rtranclp_induct) (blast dest: race_step_keeps)+

lemma race_ok_steps:
  assumes "race_ok (s, pool)" "pool t = Some c" "t \<noteq> 0" "room s"
  shows "ends (malloc_step c) (s\<lparr>current := t\<rparr>) (\<lambda>c' s'. race_step (s, pool) (s', pool(t \<mapsto> c'))) (\<lambda>h. h = Aborted)"
proof -
  obtain a where a: "models s a" and free: "all_released s" using assms(1) by (auto simp: race_ok_def)
  have m: "models (s\<lparr>current := t\<rparr>) a" using thread_models [OF a _ assms(3)] free by (simp add: all_released_def)
  have "room (s\<lparr>current := t\<rparr>)" using assms(4) by (simp add: room_def)
  from malloc_step_ends [OF m this, of c] show ?thesis
    using race_step.move [of t pool c s] assms by (auto simp: ends_def split: outcome.splits)
qed

text \<open>Threads about to call \<open>sn_malloc\<close>.\<close>

lemma race_starts:
  assumes r: "reachable s" and free: "all_released s" and pool: "\<And>t c. pool t = Some c \<Longrightarrow> \<exists>n. c = Entered n"
  shows "race_ok (s, pool)"
proof -
  obtain a where a: "models s a" "owned a" using reachable_models [OF r] by blast
  have none: "in_hand (pool t) = None" for t using pool by (cases "pool t") fastforce+
  have "pool_ok a pool" by (rule pool_okI) (use none pool in fastforce)+
  then show ?thesis using a free by (auto simp: race_ok_def)
qed

lemma race_sound:
  assumes "reachable s" "all_released s" "\<And>t c. pool t = Some c \<Longrightarrow> \<exists>n. c = Entered n"
    and "race_step\<^sup>*\<^sup>* (s, pool) (s', pool')"
  shows "race_ok (s', pool')"
  by (rule race_keeps [OF assms(4) race_starts [OF assms(1,2)]]) (rule assms(3))

section \<open>What they lose\<close>

lemma load_step: "models s a \<Longrightarrow> malloc_step (Allocated n p) s = Done (Loaded n p (usage a)) s"
  by (auto simp: models_def abstract_def ret_def dest!: sn_okD(8))

lemma store_step:
  assumes "models s a"
  shows "\<exists>s'. malloc_step (Loaded n p v) s = Done (Counted n p) s' \<and> models s' (a\<lparr>usage := v + n\<rparr>) \<and>
    room s' = room s \<and> all_released s' = all_released s"
  using assms
proof (rule models_cases)
  fix L M ns assume ok: "sn_ok s L M ns" and a: "a = abstract M ns s"
  let ?M = "M\<lparr>m_global_memory_usage := v + n\<rparr>"
  let ?s = "s\<lparr>managers := (managers s)(memory_manager s \<mapsto> ?M)\<rparr>"
  have "sn_ok ?s L ?M ns" using manager_update_runs [OF ok, of "\<lambda>M. M\<lparr>m_global_memory_usage := v + n\<rparr>"] sn_okD(8) [OF ok]
    by (simp add: runs_def)
  then have "models ?s (a\<lparr>usage := v + n\<rparr>)" by (rule models_keeps) (simp add: a abstract_def)
  then show ?thesis using sn_okD(8) [OF ok] by (auto simp: ret_def room_def all_released_def released_def)
qed

text \<open>Two threads have their blocks, and both read the counter before either writes it.\<close>

lemma update_lost:
  assumes m: "models s a" and free: "all_released s" and room: "room s" and t: "t \<noteq> 0" "u \<noteq> 0" "t \<noteq> u"
  shows "\<exists>s'. race_step\<^sup>*\<^sup>* (s, [t \<mapsto> Allocated n p, u \<mapsto> Allocated k q]) (s', [t \<mapsto> Counted n p, u \<mapsto> Counted k q]) \<and>
    models s' (a\<lparr>usage := usage a + k\<rparr>)"
proof -
  have on: "models (s'\<lparr>current := v\<rparr>) b" if "models s' b" "all_released s'" "v \<noteq> 0" for s' b v
    using thread_models [OF that(1) _ that(3)] that(2) by (simp add: all_released_def)
  have room_on: "room (s'\<lparr>current := v\<rparr>) = room s'" for s' v by (simp add: room_def)
  let ?s1 = "s\<lparr>current := t\<rparr>" and ?s2 = "s\<lparr>current := u\<rparr>"
  have m2: "models ?s2 a" "all_released ?s2" "room ?s2" using on [OF m free t(2)] free room room_on by simp_all
  obtain s3 where s3: "malloc_step (Loaded n p (usage a)) (s\<lparr>current := t\<rparr>) = Done (Counted n p) s3"
      "models s3 (a\<lparr>usage := usage a + n\<rparr>)" "room s3" "all_released s3"
    using store_step [OF on [OF m free t(1)], of n p "usage a"] free room room_on by auto
  obtain s4 where s4: "malloc_step (Loaded k q (usage a)) (s3\<lparr>current := u\<rparr>) = Done (Counted k q) s4"
      "models s4 (a\<lparr>usage := usage a + k\<rparr>)"
    using store_step [OF on [OF s3(2,4) t(2)], of k q "usage a"] by auto
  have "race_step (s, [t \<mapsto> Allocated n p, u \<mapsto> Allocated k q]) (?s1, [t \<mapsto> Loaded n p (usage a), u \<mapsto> Allocated k q])"
    using race_step.move [of t "[t \<mapsto> Allocated n p, u \<mapsto> Allocated k q]" "Allocated n p" s] load_step [OF on [OF m free t(1)], of n p] room t
    by (simp add: fun_upd_twist del: malloc_step.simps)
  moreover have "race_step (?s1, [t \<mapsto> Loaded n p (usage a), u \<mapsto> Allocated k q])
      (?s2, [t \<mapsto> Loaded n p (usage a), u \<mapsto> Loaded k q (usage a)])"
    using race_step.move [of u "[t \<mapsto> Loaded n p (usage a), u \<mapsto> Allocated k q]" "Allocated k q" ?s1] load_step [OF m2(1), of k q] room room_on t
    by (simp del: malloc_step.simps)
  moreover have "race_step (?s2, [t \<mapsto> Loaded n p (usage a), u \<mapsto> Loaded k q (usage a)])
      (s3, [t \<mapsto> Counted n p, u \<mapsto> Loaded k q (usage a)])"
    using race_step.move [of t "[t \<mapsto> Loaded n p (usage a), u \<mapsto> Loaded k q (usage a)]" "Loaded n p (usage a)" ?s2] s3(1) room room_on t
    by (simp add: fun_upd_twist del: malloc_step.simps)
  moreover have "race_step (s3, [t \<mapsto> Counted n p, u \<mapsto> Loaded k q (usage a)]) (s4, [t \<mapsto> Counted n p, u \<mapsto> Counted k q])"
    using race_step.move [of u "[t \<mapsto> Counted n p, u \<mapsto> Loaded k q (usage a)]" "Loaded k q (usage a)" s3] s4(1) s3(3) t
    by (simp del: malloc_step.simps)
  ultimately show ?thesis using s4(2) by (meson converse_rtranclp_into_rtranclp rtranclp.rtrancl_refl)
qed

text \<open>A race as the list of the threads that move.\<close>

fun race_run :: "tid_t list \<Rightarrow> machine \<times> (tid_t \<rightharpoonup> malloc_pc) \<Rightarrow> (machine \<times> (tid_t \<rightharpoonup> malloc_pc)) option" where
  "race_run [] c = Some c"
| "race_run (t # ts) (s, pool) = (case pool t of
     None \<Rightarrow> None
   | Some c \<Rightarrow> (if t = 0 \<or> \<not> room s then None else case malloc_step c (s\<lparr>current := t\<rparr>) of
       Done c' s' \<Rightarrow> race_run ts (s', pool(t \<mapsto> c'))
     | Halt h s' \<Rightarrow> None))"

lemma race_run_steps: "race_run ts c = Some d \<Longrightarrow> race_step\<^sup>*\<^sup>* c d"
proof (induction ts c rule: race_run.induct)
  case (2 t ts s pool)
  then obtain c c' s' where c: "pool t = Some c" "t \<noteq> 0" "room s" "malloc_step c (s\<lparr>current := t\<rparr>) = Done c' s'"
      "race_run ts (s', pool(t \<mapsto> c')) = Some d"
    by (auto split: option.splits if_splits outcome.splits)
  have "race_step\<^sup>*\<^sup>* (s', pool(t \<mapsto> c')) d" using "2.IH" c by simp
  then show ?case using race_step.move [of t pool c s c' s'] c(1-4) by (meson converse_rtranclp_into_rtranclp)
qed simp

text \<open>A limit of 20 bytes, two threads asking for 16 each: both are admitted before either is counted.\<close>

definition capped :: machine where
  "capped = state_of (sn_set_alloc_limit 20 booted)"

definition capped_pair :: "tid_t \<rightharpoonup> malloc_pc" where
  "capped_pair = [8 \<mapsto> Entered 16, 9 \<mapsto> Entered 16]"

lemma limit_passed:
  "\<exists>s pool. race_run [8, 9, 8, 9, 8, 8, 8, 9, 9, 9] (capped, capped_pair) = Some (s, pool) \<and>
     (\<exists>p q. pool 8 = Some (Returned p) \<and> pool 9 = Some (Returned q) \<and> p \<noteq> NULL \<and> q \<noteq> NULL) \<and>
     sn_query_total_memory_usage s = Done 32 s"
  by (simp add: capped_def capped_pair_def booted_run run room_def)

end
