(* ===== verification/Free_Race.thy ===== *)
theory Free_Race
  imports Malloc_Race
begin

text \<open>
  \<open>sn_free\<close> in the steps another thread can come between. The address leaves the cache before
  the entry leaves the list; a query of another thread in between runs the cache pass, which
  can put the entry back. The release then frees an entry the cache still points at. Alone the
  steps are \<open>sn_free\<close>.
\<close>

section \<open>The steps\<close>

datatype free_pc =
  Free_called ptr
| Missed ptr
| Found ptr ptr
| Wiped ptr ptr
| Usage_read ptr ptr size_t
| Uncounted ptr ptr
| Invalidated ptr ptr
| Data_freed ptr
| Free_done

fun free_step :: "free_pc \<Rightarrow> free_pc lib" where
  "free_step (Free_called p) =
     (if p = NULL then bnd (sn_error SN_ERR_NULL_PTR ()) (\<lambda>_. ret Free_done)
      else bnd (gets memory_manager) (\<lambda>m.
           bnd (memman_TryCacheHit m p) (\<lambda>e.
           ret (if e = MEMMAN_CACHE_MISS then Missed p else Found p e))))"
| "free_step (Missed p) =
     bnd (gets mem_list) (\<lambda>l.
     bnd (linked_list_getByPtr l p) (\<lambda>e.
     if e = NULL then bnd (sn_error SN_ERR_NO_ADDER_FOUND ()) (\<lambda>_. ret Free_done)
     else ret (Found p e)))"
| "free_step (Found p e) =
     bnd (gets cfg_sanitize) (\<lambda>z.
     bnd (if_do z (bnd (load_node e) (\<lambda>n. c_memset (e_data n) 0 (e_size n)))) (\<lambda>_.
     ret (Wiped p e)))"
| "free_step (Wiped p e) =
     bnd (load_node e) (\<lambda>n.
     bnd (gets memory_manager) (\<lambda>m.
     bnd (load_manager m) (\<lambda>M.
     ret (Usage_read p e (m_global_memory_usage M - e_size n)))))"
| "free_step (Usage_read p e u) =
     bnd (gets memory_manager) (\<lambda>m.
     bnd (upd_manager m (\<lambda>M. M\<lparr>m_global_memory_usage := u\<rparr>)) (\<lambda>_.
     ret (Uncounted p e)))"
| "free_step (Uncounted p e) =
     bnd (gets memory_manager) (\<lambda>m.
     bnd (memman_cacheInvalidate m p) (\<lambda>_.
     ret (Invalidated p e)))"
| "free_step (Invalidated p e) =
     bnd (linked_list_entry_getData e) (\<lambda>d.
     bnd (plat_free d) (\<lambda>_.
     ret (Data_freed p)))"
| "free_step (Data_freed p) =
     bnd (gets mem_list) (\<lambda>l.
     bnd (linked_list_removeEntryByPtr l p) (\<lambda>_.
     ret Free_done))"
| "free_step Free_done = ret Free_done"

primrec free_steps :: "nat \<Rightarrow> free_pc \<Rightarrow> free_pc lib" where
  "free_steps 0 c = ret c"
| "free_steps (Suc k) c = bnd (free_step c) (free_steps k)"

lemma free_steps_done [simp]: "free_steps k Free_done s = Done Free_done s"
  by (induction k) (simp_all add: ret_def)

text \<open>From the entry on, the steps are \<open>sn_free_entry\<close>; the read and the write of the counter are
  \<open>add_usage\<close>.\<close>

lemma uncounted_alone:
  "bnd (free_steps (3 + k) (Uncounted p e)) (\<lambda>_. ret ()) s =
   bnd (gets memory_manager) (\<lambda>m. bnd (memman_cacheInvalidate m p) (\<lambda>_.
   bnd (linked_list_entry_getData e) (\<lambda>d. bnd (plat_free d) (\<lambda>_.
   bnd (gets mem_list) (\<lambda>l. linked_list_removeEntryByPtr l p))))) s"
  by (simp add: numeral_3_eq_3 bnd_def ret_def gets_def split: outcome.splits)

lemma free_steps_first: "k = Suc j \<Longrightarrow> free_steps k c = bnd (free_step c) (free_steps j)"
  by simp

lemma free_steps_rec:
  "free_steps 8 c = bnd (free_step c) (free_steps 7)" "free_steps 7 c = bnd (free_step c) (free_steps 6)"
  "free_steps 6 c = bnd (free_step c) (free_steps 5)" "free_steps 5 c = bnd (free_step c) (free_steps 4)"
  "free_steps 4 c = bnd (free_step c) (free_steps 3)" "free_steps 3 c = bnd (free_step c) (free_steps 2)"
  "free_steps 2 c = bnd (free_step c) (free_steps 1)" "free_steps 1 c = bnd (free_step c) (free_steps 0)"
  "free_steps (6 + k) c = bnd (free_step c) (free_steps (5 + k))"
  by (rule free_steps_first, simp)+

lemma error_of_free_alone:
  "bnd (bnd (sn_error e ()) (\<lambda>_. ret Free_done)) (\<lambda>c. bnd (free_steps k c) (\<lambda>_. ret ())) s = sn_error e () s"
  by (cases "(sn_error e () :: unit lib) s") (simp_all add: ret_def)

lemma wiped_alone:
  "bnd (free_steps (5 + k) (Wiped p e)) (\<lambda>_. ret ()) s =
   bnd (load_node e) (\<lambda>n. bnd (add_usage (- e_size n)) (\<lambda>_.
   bnd (gets memory_manager) (\<lambda>m. bnd (memman_cacheInvalidate m p) (\<lambda>_.
   bnd (linked_list_entry_getData e) (\<lambda>d. bnd (plat_free d) (\<lambda>_.
   bnd (gets mem_list) (\<lambda>l. linked_list_removeEntryByPtr l p))))))) s"
proof (cases "nodes s e")
  case (Some n)
  show ?thesis
  proof (cases "managers s (memory_manager s)")
    case man: (Some M)
    let ?s = "s\<lparr>managers := (managers s)(memory_manager s \<mapsto> M\<lparr>m_global_memory_usage := m_global_memory_usage M - e_size n\<rparr>)\<rparr>"
    have "bnd (free_steps (5 + k) (Wiped p e)) (\<lambda>_. ret ()) s = bnd (free_steps (3 + k) (Uncounted p e)) (\<lambda>_. ret ()) ?s"
      using Some man by (simp add: eval_nat_numeral load_manager_def upd_manager_def bnd_def gets_def ret_def)
    then show ?thesis unfolding uncounted_alone
      using Some man by (simp add: add_usage_def upd_manager_def)
  qed (use Some in \<open>simp add: eval_nat_numeral load_manager_def add_usage_def upd_manager_def bnd_def gets_def\<close>)
qed (simp add: eval_nat_numeral load_node_def bnd_def)

lemma found_alone: "bnd (free_steps (6 + k) (Found p e)) (\<lambda>_. ret ()) s = sn_free_entry p e s"
proof -
  let ?w = "if_do (cfg_sanitize s) (bnd (load_node e) (\<lambda>n. c_memset (e_data n) 0 (e_size n)))"
  have "bnd (free_steps (6 + k) (Found p e)) (\<lambda>_. ret ()) s =
    bnd ?w (\<lambda>_. bnd (free_steps (5 + k) (Wiped p e)) (\<lambda>_. ret ())) s"
    unfolding free_steps_rec(9) by (cases "?w s") (simp_all add: ret_def)
  then show ?thesis
    by (cases "?w s") (simp_all add: sn_free_entry_def wiped_alone)
qed

lemma free_alone: "bnd (free_steps 8 (Free_called p)) (\<lambda>_. ret ()) s = sn_free p s"
proof (cases "p = NULL")
  case True
  then show ?thesis using error_of_free_alone [of SN_ERR_NULL_PTR 7 s] by (simp add: free_steps_rec(1) sn_free_def)
next
  case False
  show ?thesis
  proof (cases "memman_TryCacheHit (memory_manager s) p s")
    case (Done e t)
    show ?thesis
    proof (cases "e = MEMMAN_CACHE_MISS")
      case True
      show ?thesis
      proof (cases "linked_list_getByPtr (mem_list t) p t")
        case found: (Done e' u)
        have "bnd (free_steps 8 (Free_called p)) (\<lambda>_. ret ()) s =
          (if e' = NULL then sn_error SN_ERR_NO_ADDER_FOUND () else sn_free_entry p e') u"
          using False Done True found error_of_free_alone [of SN_ERR_NO_ADDER_FOUND 6 u] found_alone [of 0 p e' u]
          by (simp add: free_steps_rec(1,2) ret_def)
        then show ?thesis using False Done True found by (simp add: sn_free_def)
      qed (use False Done True in \<open>simp add: free_steps_rec(1,2) sn_free_def ret_def\<close>)
    next
      case hit: False
      then show ?thesis using False Done found_alone [of 1 p e t] by (simp add: free_steps_rec(1) sn_free_def ret_def)
    qed
  qed (use False in \<open>simp add: free_steps_rec(1) sn_free_def\<close>)
qed

section \<open>A query between the last two steps\<close>

text \<open>Two blocks, the entries at 28672 and 36864; the second is released by thread 8, the first is
  asked for by thread 9.\<close>

definition two_blocks :: machine where "two_blocks = state_of (sn_malloc 16 one_block)"

lemma free_races_a_query:
  "\<exists>s1 s2 s3 s4. free_steps 7 (Free_called 32768) (two_blocks\<lparr>current := 8\<rparr>) = Done (Data_freed 32768) s1 \<and>
     sn_query_size 24576 (s1\<lparr>current := 9\<rparr>) = Done 16 s2 \<and>
     free_step (Data_freed 32768) (s2\<lparr>current := 8\<rparr>) = Done Free_done s3 \<and>
     sn_query_size 24576 s3 = Halt UB s4"
  by (simp add: two_blocks_def one_block_run free_steps_rec run)

text \<open>Without the query in between, the same calls are answered.\<close>

lemma free_before_a_query:
  "\<exists>s1 s2. sn_free 32768 (two_blocks\<lparr>current := 8\<rparr>) = Done () s1 \<and> sn_query_size 24576 (s1\<lparr>current := 9\<rparr>) = Done 16 s2"
  by (simp add: two_blocks_def one_block_run run)

end
