(* ===== verification/Release_Race.thy ===== *)
theory Release_Race
  imports Free_Race
begin

text \<open>
  Threads that release different blocks at the same time, with nobody else in the library:
  whatever the order of their steps, none waits, none touches memory that is not live, and when
  all have returned exactly their blocks are gone.
\<close>

section \<open>Where a thread is\<close>

text \<open>The block a thread is releasing, as long as it has not returned.\<close>

fun releasing :: "free_pc \<Rightarrow> ptr option" where
  "releasing (Free_called p) = Some p"
| "releasing (Missed p) = Some p"
| "releasing (Found p e) = Some p"
| "releasing (Wiped p e) = Some p"
| "releasing (Usage_read p e u) = Some p"
| "releasing (Uncounted p e) = Some p"
| "releasing (Invalidated p e) = Some p"
| "releasing (Data_freed p) = Some p"
| "releasing Free_done = None"

definition records :: "ptr list \<Rightarrow> (ptr \<rightharpoonup> linked_list_entry_t) \<Rightarrow> ptr \<Rightarrow> ptr \<Rightarrow> bool" where
  "records ns h e p \<longleftrightarrow> e \<in> set ns \<and> e_data (the (h e)) = p"

definition no_slot :: "alloc_manager_t \<Rightarrow> ptr \<Rightarrow> bool" where
  "no_slot M p \<longleftrightarrow> (\<forall>c \<in> set (m_cache_list M). \<not> key_hit p c)"

definition tracked_live :: "ptr \<Rightarrow> sn_state \<Rightarrow> bool" where
  "tracked_live p a \<longleftrightarrow> p \<noteq> NULL \<and> (\<exists>x bs. find_block p (registry a) = Some x \<and> memory a p = Some bs \<and> unat (tb_size x) \<le> length bs)"

text \<open>What a thread relies on at each step.\<close>

fun pc_ok :: "alloc_manager_t \<Rightarrow> ptr list \<Rightarrow> (ptr \<rightharpoonup> linked_list_entry_t) \<Rightarrow> sn_state \<Rightarrow> free_pc \<Rightarrow> bool" where
  "pc_ok M ns h a (Free_called p) \<longleftrightarrow> tracked_live p a"
| "pc_ok M ns h a (Missed p) \<longleftrightarrow> tracked_live p a"
| "pc_ok M ns h a (Found p e) \<longleftrightarrow> tracked_live p a \<and> records ns h e p"
| "pc_ok M ns h a (Wiped p e) \<longleftrightarrow> tracked_live p a \<and> records ns h e p"
| "pc_ok M ns h a (Usage_read p e u) \<longleftrightarrow> tracked_live p a \<and> records ns h e p"
| "pc_ok M ns h a (Uncounted p e) \<longleftrightarrow> tracked_live p a \<and> records ns h e p"
| "pc_ok M ns h a (Invalidated p e) \<longleftrightarrow> tracked_live p a \<and> records ns h e p \<and> no_slot M p"
| "pc_ok M ns h a (Data_freed p) \<longleftrightarrow> p \<noteq> NULL \<and> find_block p (registry a) \<noteq> None \<and> no_slot M p \<and> memory a p = None"
| "pc_ok M ns h a Free_done \<longleftrightarrow> True"

text \<open>The steps on the abstract state.\<close>

inductive free_moves :: "sn_state \<Rightarrow> free_pc \<Rightarrow> free_pc \<Rightarrow> sn_state \<Rightarrow> bool" for a :: sn_state where
  find: "\<lbrakk>c = Free_called p \<or> c = Missed p; c' = Missed p \<or> c' = Found p e\<rbrakk> \<Longrightarrow> free_moves a c c' a"
| wipe: "\<lbrakk>memory a p = Some bs; length bs' = length bs\<rbrakk>
    \<Longrightarrow> free_moves a (Found p e) (Wiped p e) (a\<lparr>memory := (memory a)(p \<mapsto> bs')\<rparr>)"
| read: "free_moves a (Wiped p e) (Usage_read p e u) a"
| count: "free_moves a (Usage_read p e u) (Uncounted p e) (a\<lparr>usage := u\<rparr>)"
| invalidate: "free_moves a (Uncounted p e) (Invalidated p e) a"
| release: "free_moves a (Invalidated p e) (Data_freed p) (a\<lparr>memory := (memory a)(p := None)\<rparr>)"
| untrack: "free_moves a (Data_freed p) Free_done (a\<lparr>registry := filter (\<lambda>b. tb_data b \<noteq> p) (registry a)\<rparr>)"
| rest: "free_moves a Free_done Free_done a"

section \<open>One step\<close>

lemma records_blocks:
  assumes "blocks_of h' ns = blocks_of h ns"
  shows "records ns h' e p = records ns h e p"
proof -
  have "tb_data (block_of (the (h' e))) = tb_data (block_of (the (h e)))" if "e \<in> set ns"
    using assms that by (auto simp: blocks_of_def)
  then show ?thesis by (auto simp: records_def block_of_def)
qed

definition keeps_others :: "free_pc \<Rightarrow> alloc_manager_t \<Rightarrow> ptr list \<Rightarrow> (ptr \<rightharpoonup> linked_list_entry_t) \<Rightarrow>
    alloc_manager_t \<Rightarrow> ptr list \<Rightarrow> (ptr \<rightharpoonup> linked_list_entry_t) \<Rightarrow> bool" where
  "keeps_others c M ns h M' ns' h' \<longleftrightarrow> (\<forall>q. no_slot M q \<longrightarrow> no_slot M' q) \<and>
     (\<forall>e q. records ns h e q \<and> releasing c \<noteq> Some q \<longrightarrow> records ns' h' e q)"

lemma find_records:
  assumes ok: "sn_ok s L M ns" and p: "find_block p (registry (abstract M ns s)) \<noteq> None"
  shows "\<exists>e. records ns (nodes s) e p"
  using p by (auto simp: find_block_None registry_abstract blocks_of_def records_def)

lemma last_step:
  assumes ok: "sn_ok s L M ns" and dist: "distinct (map tb_data (registry (abstract M ns s)))"
    and p: "p \<noteq> NULL" "find_block p (registry (abstract M ns s)) \<noteq> None" "no_slot M p"
  shows "runs (linked_list_removeEntryByPtr (mem_list s) p) s (\<lambda>_ t. keeps_locks {} s t \<and> (\<exists>L' M' ns'. sn_ok t L' M' ns' \<and>
    free_moves (abstract M ns s) (Data_freed p) Free_done (abstract M' ns' t) \<and>
    keeps_others (Data_freed p) M ns (nodes s) M' ns' (nodes t)))"
proof -
  note D = sn_okD [OF ok]
  obtain e' where "records ns (nodes s) e' p" using find_records [OF ok p(2)] by blast
  then have "lookup (\<lambda>e. e_data e = p) (nodes s) ns \<noteq> NULL"
    using lookup_NULL_iff [OF list_okD(5) [OF D(1)]] by (auto simp: records_def)
  then obtain e xs ys where ns: "ns = xs @ e # ys" and de: "e_data (the (nodes s e)) = p"
      and first: "\<forall>q \<in> set xs. e_data (the (nodes s q)) \<noteq> p"
    using lookup_split [OF refl, of "\<lambda>e. e_data e = p" "nodes s" ns] by blast
  note okn = ok [unfolded ns]
  have e0: "e \<noteq> NULL" using list_okD(5) [OF D(1)] ns by auto
  have none: "cp_value c \<noteq> e" if "c \<in> set (m_cache_list M)" for c
    using cache_okD(1) [OF D(5) that] e0 de p(1,3) that by (fastforce simp: no_slot_def key_hit_def)
  obtain t where t: "linked_list_removeEntryByPtr (mem_list s) p s = Done () t" "settled {} s (untracked_in s L xs e ys) t"
    using remove_untracks [OF okn p(1) de first] by (auto simp: runs_def)
  note X = sn_ok_untracked_in [OF okn none]
  have okt: "sn_ok t (removed_list xs ys L) M (xs @ ys)" using sn_ok_lockeq [OF settled_lockeq [OF t(2)] X(1)] .
  have a: "abstract M (xs @ ys) t = (abstract M ns s)\<lparr>registry := blocks_of (nodes s) (xs @ ys)\<rparr>"
    using abstract_lockeq [OF settled_lockeq [OF t(2)]] X(2) ns by simp
  have other: "e_data (the (nodes s y)) \<noteq> p" if "y \<in> set (xs @ ys)" for y
  proof -
    have "y \<noteq> e" using list_okD(4) [OF D(1)] that ns by auto
    then show ?thesis using data_unique [of "nodes s" ns y e] dist that ns de by (auto simp: registry_abstract)
  qed
  have "filter (\<lambda>b. tb_data b \<noteq> p) (registry (abstract M ns s)) = blocks_of (nodes s) (xs @ ys)"
    using other de by (simp add: registry_abstract ns blocks_of_def filter_map comp_def block_of_def)
  then have move: "free_moves (abstract M ns s) (Data_freed p) Free_done (abstract M (xs @ ys) t)"
    unfolding a using free_moves.untrack [of "abstract M ns s" p] by simp
  have "blocks_of (nodes t) (xs @ ys) = blocks_of (nodes s) (xs @ ys)" using a by (simp add: abstract_def)
  from records_blocks [OF this] have "keeps_others (Data_freed p) M ns (nodes s) M (xs @ ys) (nodes t)"
    using de by (auto simp: keeps_others_def ns) (auto simp: records_def)
  then show ?thesis using t(1) settled_keeps [OF t(2)] okt move by (auto simp: runs_def)
qed

lemma find_block_unique: "\<lbrakk>distinct (map tb_data bs); x \<in> set bs\<rbrakk> \<Longrightarrow> find_block (tb_data x) bs = Some x"
  by (induction bs) (auto simp: find_block_def)

lemma free_step_effect:
  assumes ok: "sn_ok s L M ns" and dist: "distinct (map tb_data (registry (abstract M ns s)))"
    and pc: "pc_ok M ns (nodes s) (abstract M ns s) c"
  shows "runs (free_step c) s (\<lambda>c' t. keeps_locks {} s t \<and> (\<exists>L' M' ns'. sn_ok t L' M' ns' \<and>
    free_moves (abstract M ns s) c c' (abstract M' ns' t) \<and> pc_ok M' ns' (nodes t) (abstract M' ns' t) c' \<and>
    keeps_others c M ns (nodes s) M' ns' (nodes t)))" (is "runs _ _ ?Q")
proof -
  let ?a = "abstract M ns s"
  note D = sn_okD [OF ok]
  have read: "?Q c' t" if r: "reads {} (error_code s) s L M ns t L' M'" and move: "free_moves ?a c c' ?a"
      and pc': "pc_ok M' ns (nodes t) ?a c'" and slots: "\<And>q. no_slot M q \<Longrightarrow> no_slot M' q" for c' t L' M'
  proof -
    have "abstract M' ns t = ?a" using reads_abstract [OF ok r] by (simp add: abstract_def)
    moreover have "keeps_others c M ns (nodes s) M' ns (nodes t)"
      using records_blocks [OF blocks_of_cores [OF readsD(2) [OF r] sn_ok_dom [OF ok]]] slots by (simp add: keeps_others_def)
    ultimately show ?thesis using readsD(1) [OF r] reads_keeps [OF r] move pc' by metis
  qed
  have rec: "records ns (nodes t) e q = records ns (nodes s) e q" if "reads A x s L M ns t L' M'" for t A x L' M' e q
    using records_blocks [OF blocks_of_cores [OF readsD(2) [OF that] sn_ok_dom [OF ok]]] .
  show ?thesis
  proof (cases c)
    case (Free_called p)
    then have p: "p \<noteq> NULL" "tracked_live p ?a" using pc by (auto simp: tracked_live_def)
    obtain e t where t: "memman_TryCacheHit (memory_manager s) p s = Done e t" "e = cached_entry M p"
        "reads {} (error_code s) s L M ns t L M"
      using reads_TryCacheHit [OF ok, of p] by (auto simp: runs_def)
    show ?thesis
    proof (cases "e = MEMMAN_CACHE_MISS")
      case True
      then show ?thesis using t(1) p read [OF t(3), of "Missed p"] Free_called
        by (simp add: runs_def ret_def free_moves.find)
    next
      case False
      then have "records ns (nodes s) e p" using cached_entry_hit [OF D(5), of p] t(2) by (auto simp: records_def)
      then have "records ns (nodes t) e p" using rec [OF t(3)] by simp
      then show ?thesis using t(1) p False read [OF t(3), of "Found p e"] Free_called
        by (simp add: runs_def ret_def free_moves.find)
    qed
  next
    case (Missed p)
    then have p: "p \<noteq> NULL" "tracked_live p ?a" using pc by (auto simp: tracked_live_def)
    let ?e = "lookup (\<lambda>e. e_data e = p) (nodes s) ns"
    have "find_block p (registry ?a) \<noteq> None" using p(2) by (auto simp: tracked_live_def)
    then obtain e where e: "records ns (nodes s) e p" using find_records [OF ok] by blast
    then have e0: "?e \<noteq> NULL" using lookup_NULL_iff [OF list_okD(5) [OF D(1)]] by (auto simp: records_def)
    then have "records ns (nodes s) ?e p" using lookup_in [of "\<lambda>e. e_data e = p" "nodes s" ns] by (simp add: records_def)
    moreover have "leaks L ns = {}" using e by (auto simp: leaks_def records_def)
    moreover obtain t L' where t: "linked_list_getByPtr (mem_list s) p s = Done ?e t" "reads (leaks L ns) (error_code s) s L M ns t L' M"
      using reads_getByPtr [OF ok p(1)] by (auto simp: runs_def)
    ultimately have "?Q (Found p ?e) t" using p(2) rec [OF t(2)] Missed by (intro read) (auto intro: free_moves.find)
    then show ?thesis using t(1) e0 Missed by (simp add: runs_def ret_def)
  next
    case (Found p e)
    then have p: "tracked_live p ?a" "records ns (nodes s) e p" using pc by auto
    obtain x where x: "nodes s e = Some x" "e_data x = p" using list_ok_node [OF D(1), of e] p(2) by (auto simp: records_def)
    have "block_of x \<in> set (registry ?a)" using p(2) x by (force simp: registry_abstract blocks_of_def records_def)
    then have "find_block p (registry ?a) = Some (block_of x)" using find_block_unique [OF dist, of "block_of x"] x(2) by (simp add: block_of_def)
    then obtain bs where bs: "blocks s p = Some bs" "unat (e_size x) \<le> length bs"
      using p(1) by (auto simp: tracked_live_def abstract_def block_of_def)
    define B where "B = (if cfg_sanitize s \<and> e_size x \<noteq> 0 then replicate (unat (e_size x)) 0 @ drop (unat (e_size x)) bs else bs)"
    let ?t = "s\<lparr>blocks := (blocks s)(p \<mapsto> B)\<rparr>"
    have len: "length B = length bs" using bs(2) by (simp add: B_def)
    have run: "free_step c s = Done (Wiped p e) ?t"
      using x bs Found by (cases "cfg_sanitize s") (simp_all add: c_memset_def B_def ret_def fun_upd_idem)
    have ok': "sn_ok ?t L M ns" using bs by (intro sn_ok_blocks [OF ok]) auto
    have a: "abstract M ns ?t = ?a\<lparr>memory := (memory ?a)(p \<mapsto> B)\<rparr>" by (simp add: abstract_def)
    have "free_moves ?a c (Wiped p e) (abstract M ns ?t)"
      unfolding a Found using bs len by (intro free_moves.wipe) (simp_all add: abstract_def)
    moreover have "tracked_live p (abstract M ns ?t)" unfolding a using p(1) bs len by (auto simp: tracked_live_def abstract_def)
    ultimately have "?Q (Wiped p e) ?t" using ok' p(2)
      by (auto simp: keeps_others_def keeps_locks_def released_def intro!: exI [of _ L] exI [of _ M] exI [of _ ns])
    then show ?thesis using run unfolding runs_def by blast
  next
    case (Wiped p e)
    then have p: "tracked_live p ?a" "records ns (nodes s) e p" using pc by auto
    obtain x where x: "nodes s e = Some x" using list_ok_node [OF D(1), of e] p(2) by (auto simp: records_def)
    have "?Q (Usage_read p e u) s" for u
      using read [OF reads_refl [OF ok], of "Usage_read p e u"] p Wiped by (simp add: free_moves.read)
    then show ?thesis using x D(8) Wiped by (simp add: runs_def ret_def)
  next
    case (Usage_read p e u)
    then have p: "tracked_live p ?a" "records ns (nodes s) e p" using pc by auto
    let ?M = "M\<lparr>m_global_memory_usage := u\<rparr>"
    let ?t = "s\<lparr>managers := (managers s)(memory_manager s \<mapsto> ?M)\<rparr>"
    have ok': "sn_ok ?t L ?M ns"
      using manager_update_runs [OF ok, of "\<lambda>M. M\<lparr>m_global_memory_usage := u\<rparr>"] D(8) by (simp add: runs_def)
    have run: "free_step c s = Done (Uncounted p e) ?t" using Usage_read D(8) by (simp add: ret_def)
    have a: "abstract ?M ns ?t = ?a\<lparr>usage := u\<rparr>" by (simp add: abstract_def)
    have "free_moves ?a c (Uncounted p e) (abstract ?M ns ?t)" unfolding a Usage_read by (rule free_moves.count)
    moreover have "tracked_live p (abstract ?M ns ?t)" unfolding a using p(1) by (simp add: tracked_live_def)
    ultimately have "?Q (Uncounted p e) ?t" using ok' p(2)
      by (auto simp: keeps_others_def no_slot_def keeps_locks_def released_def intro!: exI [of _ L] exI [of _ ?M] exI [of _ ns])
    then show ?thesis using run unfolding runs_def by blast
  next
    case (Uncounted p e)
    then have p: "tracked_live p ?a" "records ns (nodes s) e p" using pc by auto
    obtain t where t: "memman_cacheInvalidate (memory_manager s) p s = Done () t"
        "reads {} (error_code s) s L M ns t L (emptied (key_hit p) M)"
      using reads_cacheInvalidate [OF ok, of p] by (auto simp: runs_def)
    have "no_slot (emptied (key_hit p) M) p" "\<And>q. no_slot M q \<Longrightarrow> no_slot (emptied (key_hit p) M) q"
      by (auto simp: no_slot_def dropped_pairs_def key_hit_def zero_pair_def split: if_splits)
    then have "?Q (Invalidated p e) t" using p rec [OF t(2)] Uncounted by (intro read [OF t(2)]) (auto intro: free_moves.invalidate)
    then show ?thesis using t(1) Uncounted by (simp add: runs_def ret_def)
  next
    case (Invalidated p e)
    then have p: "tracked_live p ?a" "records ns (nodes s) e p" "no_slot M p" using pc by auto
    obtain x where x: "nodes s e = Some x" "e_data x = p" using list_ok_node [OF D(1), of e] p(2) by (auto simp: records_def)
    have e0: "e \<noteq> NULL" using list_okD(5) [OF D(1)] p(2) by (auto simp: records_def)
    obtain bs where bs: "blocks s p = Some bs" "p \<noteq> NULL" using p(1) by (auto simp: tracked_live_def abstract_def)
    let ?t = "s\<lparr>blocks := (blocks s)(p := None)\<rparr>"
    have run: "free_step c s = Done (Data_freed p) ?t"
      using Invalidated x e0 plat_free_block [OF D(6) bs] by (simp add: linked_list_entry_getData_def ret_def)
    have ok': "sn_ok ?t L M ns" by (intro sn_ok_blocks [OF ok]) auto
    have a: "abstract M ns ?t = ?a\<lparr>memory := (memory ?a)(p := None)\<rparr>" by (simp add: abstract_def)
    have "free_moves ?a c (Data_freed p) (abstract M ns ?t)" unfolding a Invalidated by (rule free_moves.release)
    moreover have "pc_ok M ns (nodes ?t) (abstract M ns ?t) (Data_freed p)" unfolding a using p by (auto simp: tracked_live_def)
    ultimately have "?Q (Data_freed p) ?t" using ok'
      by (auto simp: keeps_others_def keeps_locks_def released_def simp del: pc_ok.simps intro!: exI [of _ L] exI [of _ M] exI [of _ ns])
    then show ?thesis using run unfolding runs_def by blast
  next
    case (Data_freed p)
    then have p: "p \<noteq> NULL" "find_block p (registry ?a) \<noteq> None" "no_slot M p" using pc by auto
    obtain t where t: "linked_list_removeEntryByPtr (mem_list s) p s = Done () t" "?Q Free_done t"
      using last_step [OF ok dist p] Data_freed unfolding runs_def by auto
    have "free_step c s = Done Free_done t" using t(1) Data_freed by (simp add: ret_def)
    then show ?thesis using t(2) unfolding runs_def by blast
  next
    case Free_done
    then show ?thesis using read [OF reads_refl [OF ok], of Free_done] by (simp add: runs_def ret_def free_moves.rest)
  qed
qed

section \<open>All threads\<close>

text \<open>Any thread that is in the call takes a step.\<close>

inductive release_step :: "machine \<times> (tid_t \<rightharpoonup> free_pc) \<Rightarrow> machine \<times> (tid_t \<rightharpoonup> free_pc) \<Rightarrow> bool" where
  move: "\<lbrakk>t \<noteq> 0; pool t = Some c; free_step c (s\<lparr>current := t\<rparr>) = Done c' s'\<rbrakk>
    \<Longrightarrow> release_step (s, pool) (s', pool(t \<mapsto> c'))"

text \<open>The blocks of the threads that have returned are off the registry and the heap, the blocks
  nobody releases are as they were.\<close>

definition released_so_far :: "(tid_t \<rightharpoonup> ptr) \<Rightarrow> (tid_t \<rightharpoonup> free_pc) \<Rightarrow> ptr set" where
  "released_so_far keys pool = {p. \<exists>t. keys t = Some p \<and> pool t = Some Free_done}"

definition progress :: "(tid_t \<rightharpoonup> ptr) \<Rightarrow> (tid_t \<rightharpoonup> free_pc) \<Rightarrow> sn_state \<Rightarrow> sn_state \<Rightarrow> bool" where
  "progress keys pool a b \<longleftrightarrow> registry b = filter (\<lambda>x. tb_data x \<notin> released_so_far keys pool) (registry a) \<and>
     (\<forall>p. p \<notin> ran keys \<longrightarrow> memory b p = memory a p) \<and> (\<forall>p \<in> released_so_far keys pool. memory b p = None) \<and>
     cap b = cap a \<and> last_error b = last_error a"

definition release_ok :: "(tid_t \<rightharpoonup> ptr) \<Rightarrow> sn_state \<Rightarrow> machine \<times> (tid_t \<rightharpoonup> free_pc) \<Rightarrow> bool" where
  "release_ok keys a c \<longleftrightarrow> all_released (fst c) \<and> dom (snd c) = dom keys \<and>
     (\<forall>t c'. snd c t = Some c' \<longrightarrow> releasing c' = keys t \<or> c' = Free_done) \<and>
     (\<exists>L M ns. sn_ok (fst c) L M ns \<and> progress keys (snd c) a (abstract M ns (fst c)) \<and>
        (\<forall>t c'. snd c t = Some c' \<longrightarrow> pc_ok M ns (nodes (fst c)) (abstract M ns (fst c)) c'))"

lemma find_block_filter: "q \<noteq> p \<Longrightarrow> find_block q (filter (\<lambda>b. tb_data b \<noteq> p) bs) = find_block q bs"
  by (induction bs) (auto simp: find_block_def)

lemma pc_ok_other:
  assumes ok: "pc_ok M ns h a d" and move: "free_moves a c c' b" and keep: "keeps_others c M ns h M' ns' h'"
    and other: "releasing d \<noteq> releasing c \<or> releasing d = None"
  shows "pc_ok M' ns' h' b d"
proof (cases "releasing d")
  case None
  then show ?thesis by (cases d) simp_all
next
  case (Some q)
  have tl: "tracked_live q b" if "tracked_live q a"
    using move that other Some
    by cases (auto simp: tracked_live_def find_block_filter)
  have fb: "find_block q (registry b) \<noteq> None" "memory b q = None" if "find_block q (registry a) \<noteq> None" "memory a q = None"
    using move that other Some by (cases; auto simp: find_block_filter)+
  have keep': "no_slot M q \<Longrightarrow> no_slot M' q" "records ns h e q \<Longrightarrow> records ns' h' e q" for e
    using keep other Some by (auto simp: keeps_others_def)
  show ?thesis using ok Some tl fb keep' by (cases d) auto
qed

lemma free_moves_releasing:
  "free_moves a c c' b \<Longrightarrow> c \<noteq> Free_done \<and> releasing c' = releasing c \<or> c' = Free_done"
  by (induction rule: free_moves.induct) auto

lemma progress_move:
  assumes pr: "progress keys pool a b" and move: "free_moves b c c' b'" and at: "pool t = Some c"
    and key: "releasing c = keys t \<or> c = Free_done" and uniq: "\<And>t u p. \<lbrakk>keys t = Some p; keys u = Some p\<rbrakk> \<Longrightarrow> t = u"
    and gone: "\<And>p. c = Data_freed p \<Longrightarrow> memory b p = None"
  shows "progress keys (pool(t \<mapsto> c')) a b'"
proof (cases "c' = Free_done \<and> c \<noteq> Free_done")
  case True
  with move obtain p where c: "c = Data_freed p" by cases auto
  have b': "b' = b\<lparr>registry := filter (\<lambda>x. tb_data x \<noteq> p) (registry b)\<rparr>" using move [unfolded c] by cases auto
  have "released_so_far keys (pool(t \<mapsto> c')) = insert p (released_so_far keys pool)"
  proof -
    have "keys t = Some p" "c' = Free_done" "pool t \<noteq> Some Free_done" using True c key at by auto
    then show ?thesis unfolding released_so_far_def by (auto split: if_splits)
  qed
  then show ?thesis using pr gone [OF c] by (auto simp: progress_def b' conj_commute)
next
  case False
  have same: "released_so_far keys (pool(t \<mapsto> c')) = released_so_far keys pool"
  proof -
    have "c' = Free_done" if "c = Free_done" using move [unfolded that] by cases auto
    then have "(pool(t \<mapsto> c')) u = Some Free_done \<longleftrightarrow> pool u = Some Free_done" for u using False at by auto
    then show ?thesis by (simp only: released_so_far_def)
  qed
  have mem: "memory b' q = memory b q" if "releasing c \<noteq> Some q" for q
    using move that by cases auto
  have other: "releasing c \<noteq> Some q" if q: "q \<notin> ran keys \<or> q \<in> released_so_far keys pool" for q
  proof
    assume "releasing c = Some q"
    then have t: "keys t = Some q" "c \<noteq> Free_done" using key by auto
    then have "q \<in> ran keys" by (auto simp: ran_def)
    then obtain u where u: "keys u = Some q" "pool u = Some Free_done" using q by (auto simp: released_so_far_def)
    then show False using uniq [OF t(1) u(1)] t(2) at by simp
  qed
  have "registry b' = registry b \<and> cap b' = cap b \<and> last_error b' = last_error b" using move False by cases auto
  then show ?thesis using pr mem other by (simp add: progress_def same)
qed

lemma release_next:
  assumes ok: "release_ok keys a (s, pool)" and t: "t \<noteq> 0" "pool t = Some c"
    and uniq: "\<And>t u p. \<lbrakk>keys t = Some p; keys u = Some p\<rbrakk> \<Longrightarrow> t = u" and dist: "distinct (map tb_data (registry a))"
  shows "runs (free_step c) (s\<lparr>current := t\<rparr>) (\<lambda>c' s'. release_ok keys a (s', pool(t \<mapsto> c')))"
proof -
  obtain L M ns where okM: "sn_ok s L M ns" and pr: "progress keys pool a (abstract M ns s)"
    and pcs: "\<And>t c. pool t = Some c \<Longrightarrow> pc_ok M ns (nodes s) (abstract M ns s) c"
    and free: "all_released s" and dom: "dom pool = dom keys"
    and keys: "\<And>t c. pool t = Some c \<Longrightarrow> releasing c = keys t \<or> c = Free_done"
    using ok by (auto simp: release_ok_def)
  let ?s = "s\<lparr>current := t\<rparr>"
  have okt: "sn_ok ?s L M ns" using sn_ok_thread [OF okM _ t(1)] free by (simp add: all_released_def)
  have a: "abstract M ns ?s = abstract M ns s" by (simp add: abstract_def)
  have "distinct (map tb_data (registry (abstract M ns s)))"
    using pr dist by (simp add: progress_def distinct_map_filter)
  then have dist': "distinct (map tb_data (registry (abstract M ns ?s)))" using a by simp
  have "pc_ok M ns (nodes ?s) (abstract M ns ?s) c" using pcs [OF t(2)] a by simp
  from free_step_effect [OF okt dist' this] obtain c' s' L' M' ns' where
      run: "free_step c ?s = Done c' s'" and kl: "keeps_locks {} ?s s'" and ok': "sn_ok s' L' M' ns'"
      and move: "free_moves (abstract M ns s) c c' (abstract M' ns' s')"
      and pc': "pc_ok M' ns' (nodes s') (abstract M' ns' s') c'"
      and keep: "keeps_others c M ns (nodes s) M' ns' (nodes s')"
    unfolding runs_def a by auto
  have gone: "memory (abstract M ns s) p = None" if "c = Data_freed p" for p using pcs [OF t(2)] that by simp
  have pr': "progress keys (pool(t \<mapsto> c')) a (abstract M' ns' s')"
    by (rule progress_move [OF pr move t(2) keys [OF t(2)] uniq gone])
  have "pc_ok M' ns' (nodes s') (abstract M' ns' s') d" if d: "(pool(t \<mapsto> c')) u = Some d" for u d
  proof (cases "u = t")
    case True
    then show ?thesis using pc' d by simp
  next
    case False
    then have u: "pool u = Some d" using d by simp
    have "releasing d \<noteq> releasing c \<or> releasing d = None"
      using keys [OF u] keys [OF t(2)] uniq [of u _ t] False by (cases "releasing d") fastforce+
    then show ?thesis using pc_ok_other [OF pcs [OF u] move keep] by blast
  qed
  moreover have "all_released s'" using kl free by (auto simp: all_released_def keeps_locks_def released_def)
  moreover have "releasing d = keys u \<or> d = Free_done" if "(pool(t \<mapsto> c')) u = Some d" for u d
    using that keys [of u d] keys [OF t(2)] free_moves_releasing [OF move] by (auto split: if_splits)
  moreover have "dom (pool(t \<mapsto> c')) = dom keys" using dom t(2) by auto
  ultimately have "release_ok keys a (s', pool(t \<mapsto> c'))"
    using ok' pr' unfolding release_ok_def fst_conv snd_conv by blast
  then show ?thesis using run by (simp add: runs_def)
qed

text \<open>Threads about to release different tracked blocks.\<close>

lemma release_starts:
  assumes m: "models s a" "owned a" and free: "all_released s"
    and keys: "\<And>t p. keys t = Some p \<Longrightarrow> find_block p (registry a) \<noteq> None"
  shows "release_ok keys a (s, map_option Free_called \<circ> keys)"
  using m(1)
proof (rule models_cases)
  fix L M ns assume ok: "sn_ok s L M ns" and a: "a = abstract M ns s"
  have "tracked_live p a" if t: "keys t = Some p" for t p
  proof -
    obtain x where x: "find_block p (registry a) = Some x" using keys [OF t] by blast
    then have "x \<in> set (registry a)" "tb_data x = p" using find_block_in by blast+
    then show ?thesis using m(2) x by (fastforce simp: owned_def tracked_live_def)
  qed
  moreover have "progress keys (map_option Free_called \<circ> keys) a a"
    by (auto simp: progress_def released_so_far_def)
  ultimately show ?thesis using ok free unfolding release_ok_def a [symmetric]
    by (auto simp: a dom_def intro!: exI [of _ L] exI [of _ M] exI [of _ ns])
qed

lemma release_keeps:
  assumes "release_step\<^sup>*\<^sup>* c d" "release_ok keys a c"
    and uniq: "\<And>t u p. \<lbrakk>keys t = Some p; keys u = Some p\<rbrakk> \<Longrightarrow> t = u" and dist: "distinct (map tb_data (registry a))"
  shows "release_ok keys a d"
  using assms(1,2)
proof (induction rule: rtranclp_induct)
  case (step d e)
  from step.hyps(2) step.IH [OF step.prems] show ?case
  proof (induction rule: release_step.induct)
    case (move t pool c s c' s')
    then show ?case using release_next [OF move.prems move.hyps(1,2) uniq dist] by (simp add: runs_def)
  qed
qed

text \<open>When all have returned, their blocks are gone and nothing else is.\<close>

lemma release_finished:
  assumes ok: "release_ok keys a (s, pool)" and fin: "\<And>t c. pool t = Some c \<Longrightarrow> c = Free_done"
    and o: "owned a"
  shows "\<exists>b. models s b \<and> owned b \<and> registry b = filter (\<lambda>x. tb_data x \<notin> ran keys) (registry a) \<and>
    memory b = (memory a) |` (- ran keys) \<and> cap b = cap a \<and> last_error b = last_error a"
proof -
  obtain L M ns where okM: "sn_ok s L M ns" and pr: "progress keys pool a (abstract M ns s)" and dom: "dom pool = dom keys"
    using ok by (auto simp: release_ok_def)
  let ?b = "abstract M ns s"
  have "released_so_far keys pool = ran keys"
  proof -
    have "pool t = Some Free_done" if "keys t = Some p" for t p
    proof -
      have "t \<in> dom pool" using dom that by blast
      then show ?thesis using fin [of t] by blast
    qed
    then show ?thesis by (auto simp: released_so_far_def ran_def)
  qed
  then have b: "registry ?b = filter (\<lambda>x. tb_data x \<notin> ran keys) (registry a)" "memory ?b = (memory a) |` (- ran keys)"
      "cap ?b = cap a" "last_error ?b = last_error a"
    using pr by (auto simp: progress_def restrict_map_def)
  have "owned ?b" using o b(1,2) by (auto simp: owned_def distinct_map_filter)
  then show ?thesis using okM b by (auto simp: models_def)
qed

text \<open>A race as the list of the threads that move.\<close>

fun release_run :: "tid_t list \<Rightarrow> machine \<times> (tid_t \<rightharpoonup> free_pc) \<Rightarrow> (machine \<times> (tid_t \<rightharpoonup> free_pc)) option" where
  "release_run [] c = Some c"
| "release_run (t # ts) (s, pool) = (case pool t of
     None \<Rightarrow> None
   | Some c \<Rightarrow> (if t = 0 then None else case free_step c (s\<lparr>current := t\<rparr>) of
       Done c' s' \<Rightarrow> release_run ts (s', pool(t \<mapsto> c'))
     | Halt h s' \<Rightarrow> None))"

lemma release_run_steps: "release_run ts c = Some d \<Longrightarrow> release_step\<^sup>*\<^sup>* c d"
proof (induction ts c rule: release_run.induct)
  case (2 t ts s pool)
  then obtain c c' s' where c: "pool t = Some c" "t \<noteq> 0" "free_step c (s\<lparr>current := t\<rparr>) = Done c' s'"
      "release_run ts (s', pool(t \<mapsto> c')) = Some d"
    by (auto split: option.splits if_splits outcome.splits)
  have "release_step\<^sup>*\<^sup>* (s', pool(t \<mapsto> c')) d" using "2.IH" c by simp
  then show ?case using release_step.move [of t pool c s c' s'] c(1-3) by (meson converse_rtranclp_into_rtranclp)
qed simp

text \<open>Two threads, the two blocks of \<open>two_blocks\<close>, alternating.\<close>

definition both_keys :: "tid_t \<rightharpoonup> ptr" where
  "both_keys = [8 \<mapsto> 24576, 9 \<mapsto> 32768]"

lemma both_released:
  "\<exists>s pool. release_run [8, 9, 8, 9, 8, 9, 8, 9, 8, 9, 8, 9, 8, 9, 8, 9] (two_blocks, map_option Free_called \<circ> both_keys) =
     Some (s, pool) \<and> (\<forall>t c. pool t = Some c \<longrightarrow> c = Free_done)"
  by (simp add: two_blocks_def both_keys_def one_block_run run)

end
