(* ===== verification/Crash_Report.thy ===== *)
theory Crash_Report
  imports File_Contract
begin

text \<open>
  What \<open>__sn__pri__crash__\<close> writes to \<open>stderr\<close> before it ends the program, one constructor for
  each format string of \<open>sn_crash.c\<close>. The lines are collected in a list; the report ends the
  way \<open>sn_crash\<close> does, in every state, and on a well-formed one it names every tracked block.
\<close>

section \<open>The lines\<close>

datatype crash_line =
  Crash_in string "32 word" string | Error_number err_t | Error_name string | Error_msg string | Crash_on_tid tid_t
| Stack_trace_heading | Frame nat ptr | Empty_line
| List_state_heading | Last_access_heading | Two_empty_lines | Nodes_heading
| Node_is_null | Node_at ptr bool | Node_previous ptr | Node_data ptr | Node_size size_t | Node_tid tid_t
| Node_is_head bool | Node_next ptr | Node_weight byte
| Node_number size_t | Node_number_null size_t ptr

text \<open>The two build options of the handler, both on by default.\<close>

record crash_options =
  stack_trace :: bool
  dump_list_crash :: bool

section \<open>The handler\<close>

text \<open>The count of characters \<open>print_node\<close> adds up is not used by any caller.\<close>

definition node_lines :: "ptr \<Rightarrow> linked_list_entry_t \<Rightarrow> crash_line list" where
  "node_lines node e =
     [Node_at node (e_isHead e), Node_previous (e_previous e), Node_data (e_data e), Node_size (e_size e),
      Node_tid (e_tid e), Node_is_head (e_isHead e), Node_next (e_next e), Node_weight (e_weight e)]"

definition print_node_report :: "ptr \<Rightarrow> crash_line list \<Rightarrow> crash_line list lib" where
  "print_node_report node out =
     (if node = NULL then ret (out @ [Node_is_null])
      else bnd (load_node node) (\<lambda>e. ret (out @ node_lines node e)))"

definition list_nodeas_report :: "crash_line list worker" where
  "list_nodeas_report self ctx index out =
     (if ctx = NULL then ret (LIST_FOR_EACH_LOOP_BRAKE, out @ [Node_number_null index ctx])
      else bnd (print_node_report ctx (out @ [Node_number index])) (\<lambda>out. ret (NULL, out @ [Empty_line])))"

text \<open>
  \<open>__builtin_return_address(k)\<close> for \<open>k\<close> up to 4, on the chain of callers the environment
  gives; beyond the outermost caller its behaviour is undefined.
\<close>

definition print_stack_trace :: "ptr list \<Rightarrow> crash_line list \<Rightarrow> crash_line list lib" where
  "print_stack_trace frames out =
     (if length frames < 5 then halt UB
      else ret (out @ map (\<lambda>k. Frame k (frames ! k)) [0, 1, 2, 3, 4]))"

definition crash_head :: "string \<Rightarrow> 32 word \<Rightarrow> string \<Rightarrow> sn_error_codes_e \<Rightarrow> tid_t \<Rightarrow> crash_line list" where
  "crash_head fname line func err tid =
     [Crash_in fname line func, Error_number (err_code err), Error_name (sn_get_error_name (err_code err)),
      Error_msg (sn_get_error_msg (err_code err)), Crash_on_tid tid]"

definition crash_report ::
    "crash_options \<Rightarrow> ptr list \<Rightarrow> sn_error_codes_e \<Rightarrow> 32 word \<Rightarrow> string \<Rightarrow> string \<Rightarrow> (crash_line list \<times> halt) lib" where
  "crash_report opts frames err line fname func =
     bnd plat_getTid (\<lambda>tid.
     bnd (if stack_trace opts
          then bnd (print_stack_trace frames (crash_head fname line func err tid @ [Stack_trace_heading]))
                 (\<lambda>out. ret (out @ [Empty_line]))
          else ret (crash_head fname line func err tid)) (\<lambda>out.
     if err_code err = err_code SN_ERR_CATASTROPHIC then ret (out, Aborted)
     else if err_code err = err_code SN_ERR_SYS_FAIL then ret (out, Exited (err_code err))
     else
       bnd (gets mem_list) (\<lambda>l.
       bnd (load_list l) (\<lambda>L.
       bnd (print_node_report (l_lastAccess L) (out @ [List_state_heading, Last_access_heading])) (\<lambda>out.
       if dump_list_crash opts
       then bnd (linked_list_forEach l list_nodeas_report (out @ [Two_empty_lines, Nodes_heading])) (\<lambda>(r, out).
            ret (out, Exited (err_code err)))
       else ret (out, Exited (err_code err)))))))"

section \<open>The report ends as the handler does\<close>

text \<open>A callback that sees less of the caller's object takes the same walk.\<close>

definition forget :: "('a \<Rightarrow> 'b) \<Rightarrow> ('r \<times> 'a, 's) outcome \<Rightarrow> ('r \<times> 'b, 's) outcome" where
  "forget f x = (case x of Done (r, g) s \<Rightarrow> Done (r, f g) s | Halt h s \<Rightarrow> Halt h s)"

lemma forget_simps [simp]: "forget f (Done (r, g) s) = Done (r, f g) s" "forget f (Halt h s) = Halt h s"
  by (simp_all add: forget_def)

lemma forget_split: "forget f x = (case x of Done y s \<Rightarrow> Done (fst y, f (snd y)) s | Halt h s \<Rightarrow> Halt h s)"
  by (simp add: forget_def split: outcome.splits prod.splits)

lemma walk_step_forgets:
  assumes "\<And>s. v l p i (f g) s = forget f (w l p i g s)"
  shows "walk_step v l p i (f g) s = (case walk_step w l p i g s of
    Done (n, t, g') s' \<Rightarrow> Done (n, t, f g') s' | Halt h s' \<Rightarrow> Halt h s')"
  unfolding walk_step_def bnd_def assms by (auto simp: ret_def split: outcome.splits)

lemma walk_forgets:
  assumes "\<And>p i g s. v l p i (f g) s = forget f (w l p i g s)"
  shows "walk v l p i (f g) s = forget f (walk w l p i g s)"
  using assms
proof (induction w l p i g s rule: walk.induct)
  case (1 w l p i g s)
  show ?case
  proof (cases "p = NULL \<or> i = - 1")
    case True
    then show ?thesis
      by (cases "list_unlock l s") (auto simp: walk.simps [of v l p] walk.simps [of w l p] ret_def)
  next
    case False
    note step = walk_step_forgets [of v l p i f g w s, OF "1.prems"]
    show ?thesis
    proof (cases "walk_step w l p i g s")
      case (Halt h s')
      then show ?thesis using False step by (simp add: walk.simps [of v l p] walk.simps [of w l p])
    next
      case (Done x s')
      obtain n t g' where x: "x = (n, t, g')" by (cases x)
      show ?thesis
      proof (cases "t = NULL")
        case True
        have "walk v l n (i + 1) (f g') s' = forget f (walk w l n (i + 1) g' s')"
          by (rule "1.IH") (use False Done x True "1.prems" in simp_all)
        then show ?thesis using False step Done x True by (simp add: walk.simps [of v l p] walk.simps [of w l p])
      next
        case t: False
        then show ?thesis using False step Done x
          by (cases "list_unlock l s'") (simp_all add: walk.simps [of v l p] walk.simps [of w l p] ret_def)
      qed
    qed
  qed
qed

lemma forEach_forgets:
  assumes "\<And>p i g s. v l p i (f g) s = forget f (w l p i g s)"
  shows "linked_list_forEach l v (f g) s = forget f (linked_list_forEach l w g s)"
  unfolding linked_list_forEach_def bnd_def walk_forgets [of v l f w, OF assms]
  by (simp add: ret_def split: outcome.splits)

lemma list_nodeas_forgets: "list_nodeas l p i () s = forget (\<lambda>_. ()) (list_nodeas_report l p i out s)"
  by (cases "nodes s p")
    (simp_all add: list_nodeas_def list_nodeas_report_def print_node_def print_node_report_def load_node_def ret_def bnd_def)

text \<open>The part of the report before the handler looks at the error code.\<close>

definition report_head :: "crash_options \<Rightarrow> ptr list \<Rightarrow> string \<Rightarrow> 32 word \<Rightarrow> string \<Rightarrow> sn_error_codes_e \<Rightarrow> tid_t \<Rightarrow> crash_line list" where
  "report_head opts frames fname line func err tid = crash_head fname line func err tid @
     (if stack_trace opts
      then Stack_trace_heading # map (\<lambda>k. Frame k (frames ! k)) [0, 1, 2, 3, 4] @ [Empty_line] else [])"

definition thread_shown :: "machine \<Rightarrow> tid_t" where
  "thread_shown s = (if cfg_mutex s then current s else 0)"

lemma crash_report_unfold:
  assumes "stack_trace opts \<longrightarrow> 5 \<le> length frames"
  shows "crash_report opts frames err line fname func s =
    (let out = report_head opts frames fname line func err (thread_shown s) in
     if err_code err = err_code SN_ERR_CATASTROPHIC then Done (out, Aborted) s
     else if err_code err = err_code SN_ERR_SYS_FAIL then Done (out, Exited (err_code err)) s
     else bnd (load_list (mem_list s)) (\<lambda>L.
       bnd (print_node_report (l_lastAccess L) (out @ [List_state_heading, Last_access_heading])) (\<lambda>out.
       if dump_list_crash opts
       then bnd (linked_list_forEach (mem_list s) list_nodeas_report (out @ [Two_empty_lines, Nodes_heading])) (\<lambda>(r, out).
            ret (out, Exited (err_code err)))
       else ret (out, Exited (err_code err)))) s)"
proof -
  have tid: "plat_getTid s = Done (thread_shown s) s" by (simp add: plat_getTid_def thread_shown_def gets_def)
  have head: "(if stack_trace opts
       then bnd (print_stack_trace frames (crash_head fname line func err tid @ [Stack_trace_heading]))
              (\<lambda>out. ret (out @ [Empty_line]))
       else ret (crash_head fname line func err tid)) s = Done (report_head opts frames fname line func err tid) s" for tid
    using assms by (cases "stack_trace opts") (simp_all add: print_stack_trace_def report_head_def ret_def not_less)
  show ?thesis using head [of "thread_shown s"] unfolding crash_report_def by (simp only: bnd_Done tid) (simp add: Let_def ret_def gets_def)
qed

lemma print_node_forgets:
  "print_node p s = (case print_node_report p out s of Done _ t \<Rightarrow> Done () t | Halt h t \<Rightarrow> Halt h t)"
  by (cases "nodes s p") (simp_all add: print_node_def print_node_report_def load_node_def ret_def bnd_def)

lemma crash_report_ends:
  assumes "dump_list_crash opts" "stack_trace opts \<longrightarrow> 5 \<le> length frames"
  shows "bnd (crash_report opts frames err line fname func) (\<lambda>(out, h). halt h) s = sn_crash err s"
proof -
  have walk: "linked_list_forEach l list_nodeas () s' = forget (\<lambda>_. ()) (linked_list_forEach l list_nodeas_report out s')"
    for l out s' using forEach_forgets [of list_nodeas l "\<lambda>_. ()" list_nodeas_report out s'] list_nodeas_forgets by simp
  let ?out = "report_head opts frames fname line func err (thread_shown s)"
  show ?thesis
  proof (cases "load_list (mem_list s) s")
    case (Done L s1)
    show ?thesis
    proof (cases "print_node_report (l_lastAccess L) (?out @ [List_state_heading, Last_access_heading]) s1")
      case n: (Done out s2)
      show ?thesis
        by (cases "linked_list_forEach (mem_list s) list_nodeas_report (out @ [Two_empty_lines, Nodes_heading]) s2")
          (simp_all add: bnd_def [of "crash_report opts frames err line fname func"] crash_report_unfold [OF assms(2)] assms(1) sn_crash_def plat_getTid_def Done n walk [where out = "out @ [Two_empty_lines, Nodes_heading]"]
            print_node_forgets [where out = "?out @ [List_state_heading, Last_access_heading]"] Let_def halt_def ret_def forget_def split: prod.splits)
    next
      case n: (Halt h s2)
      then show ?thesis
        by (simp add: bnd_def [of "crash_report opts frames err line fname func"] crash_report_unfold [OF assms(2)] sn_crash_def plat_getTid_def Done Let_def halt_def ret_def print_node_forgets [where out = "?out @ [List_state_heading, Last_access_heading]"])
    qed
  next
    case (Halt h s1)
    then show ?thesis
      by (simp add: bnd_def [of "crash_report opts frames err line fname func"] crash_report_unfold [OF assms(2)] sn_crash_def plat_getTid_def Let_def halt_def ret_def)
  qed
qed

section \<open>What it says about a well-formed list\<close>

text \<open>The lines of the walk over the entries \<open>ns\<close>, numbered from \<open>i\<close>.\<close>

primrec dump_lines :: "(ptr \<rightharpoonup> linked_list_entry_t) \<Rightarrow> size_t \<Rightarrow> ptr list \<Rightarrow> crash_line list" where
  "dump_lines h i [] = []"
| "dump_lines h i (p # ps) = Node_number i # node_lines p (the (h p)) @ Empty_line # dump_lines h (i + 1) ps"

lemma dump_lines_append [simp]:
  "dump_lines h i (ps @ qs) = dump_lines h i ps @ dump_lines h (i + of_nat (length ps)) qs"
  by (induction ps arbitrary: i) (simp_all add: algebra_simps)

text \<open>The data pointers, sizes and threads the lines name, in order.\<close>

definition named_data :: "crash_line list \<Rightarrow> ptr list" where
  "named_data out = concat (map (\<lambda>x. case x of Node_data p \<Rightarrow> [p] | _ \<Rightarrow> []) out)"

definition named_sizes :: "crash_line list \<Rightarrow> size_t list" where
  "named_sizes out = concat (map (\<lambda>x. case x of Node_size n \<Rightarrow> [n] | _ \<Rightarrow> []) out)"

definition named_tids :: "crash_line list \<Rightarrow> tid_t list" where
  "named_tids out = concat (map (\<lambda>x. case x of Node_tid t \<Rightarrow> [t] | _ \<Rightarrow> []) out)"

lemma named_dump:
  "named_data (dump_lines h i ns) = map (\<lambda>p. e_data (the (h p))) ns"
  "named_sizes (dump_lines h i ns) = map (\<lambda>p. e_size (the (h p))) ns"
  "named_tids (dump_lines h i ns) = map (\<lambda>p. e_tid (the (h p))) ns"
  by (induction ns arbitrary: i)
    (simp_all add: named_data_def named_sizes_def named_tids_def node_lines_def)

text \<open>The walk in the middle: \<open>gone\<close> has been printed.\<close>

definition dumping :: "ptr \<Rightarrow> ptr \<Rightarrow> machine \<Rightarrow> ptr list \<Rightarrow> crash_line list \<Rightarrow> ptr list \<Rightarrow> size_t \<Rightarrow>
    crash_line list \<Rightarrow> machine \<Rightarrow> bool" where
  "dumping l m s0 ns out0 rest i out s \<longleftrightarrow>
     (\<exists>L gone. list_ok s0 l L ns \<and> l_mutex L = m \<and> ready m s0 \<and> ns = gone @ rest \<and> s = locked m s0 \<and>
        i = of_nat (length gone) \<and> out = out0 @ dump_lines (nodes s0) 0 gone)"

lemma dumping_next:
  assumes "dumping l m s0 ns out0 (p # rest) i out s"
  obtains e where "p \<noteq> NULL" "nodes s p = Some e" "e_next e = hd_or NULL rest" "ready m s"
    "\<exists>L. lists s l = Some L \<and> l_mutex L = m"
    "dumping l m s0 ns out0 rest (i + 1) (out @ Node_number i # node_lines p e @ [Empty_line]) (locked m s)"
proof -
  obtain L gone where I: "list_ok s0 l L (gone @ p # rest)" "l_mutex L = m" "ready m s0"
      "ns = gone @ p # rest" "s = locked m s0" "i = of_nat (length gone)" "out = out0 @ dump_lines (nodes s0) 0 gone"
    using assms unfolding dumping_def by blast
  obtain e where e: "nodes s0 p = Some e" "e_next e = hd_or NULL rest" using list_ok_suffix(1) [OF I(1)] by blast
  have "dumping l m s0 ns out0 rest (i + 1) (out @ Node_number i # node_lines p e @ [Empty_line]) (locked m s)"
    unfolding dumping_def using I e by (intro exI [of _ L] exI [of _ "gone @ [p]"]) simp
  then show ?thesis using that [of e] I e list_okD(2) [OF I(1)] list_ok_suffix(2) [OF I(1)]
    by (simp add: ready_with_mutex)
qed

interpretation dumper: visitor list_nodeas_report l m "dumping l m s0 ns out0" for l m s0 ns out0
proof unfold_locales
  fix p rest i out s
  assume I: "dumping l m s0 ns out0 (p # rest) i out s"
  obtain e where e: "p \<noteq> NULL" "nodes s p = Some e" "e_next e = hd_or NULL rest" "ready m s"
      "\<exists>L. lists s l = Some L \<and> l_mutex L = m"
      "dumping l m s0 ns out0 rest (i + 1) (out @ Node_number i # node_lines p e @ [Empty_line]) (locked m s)"
    by (rule dumping_next [OF I])
  show "p \<noteq> NULL \<and> (\<exists>e. nodes s p = Some e \<and> e_next e = hd_or NULL rest)" using e by blast
  show "runs (list_nodeas_report l p i out) s (\<lambda>(r, out') s'. r = NULL \<and> ready m s' \<and>
      (\<exists>L. lists s' l = Some L \<and> l_mutex L = m) \<and> dumping l m s0 ns out0 rest (i + 1) out' (locked m s'))"
    using e by (simp add: runs_def list_nodeas_report_def print_node_report_def ret_def)
next
  fix i out s
  assume "dumping l m s0 ns out0 [] i out s"
  then show "ready m s \<and> (\<exists>L. lists s l = Some L \<and> l_mutex L = m)"
    by (auto simp: dumping_def ready_with_mutex dest: list_okD(2))
qed

lemma dump_list_lines:
  assumes ok: "list_ok s l L ns" and rdy: "ready (l_mutex L) s"
  shows "\<exists>t. linked_list_forEach l list_nodeas_report out s = Done (NULL, out @ dump_lines (nodes s) 0 ns) t"
proof (cases "ns = []")
  case True
  then show ?thesis using forEach_empty [of s l L list_nodeas_report out] ok rdy by simp
next
  case False
  have "dumping l (l_mutex L) s ns out ns 0 out (locked (l_mutex L) s)"
    unfolding dumping_def using ok rdy by (intro exI [of _ L] exI [of _ "[]"]) simp
  from dumper.forEach_visits [OF ok False refl rdy this] show ?thesis by (auto simp: runs_def dumping_def)
qed

text \<open>The report of a failure the handler lets the program exit with.\<close>

lemma crash_report_lists:
  assumes m: "models s a" and live: "last_access_live s"
    and err: "err \<noteq> SN_ERR_CATASTROPHIC" "err \<noteq> SN_ERR_SYS_FAIL"
    and opts: "dump_list_crash opts" "stack_trace opts \<longrightarrow> 5 \<le> length frames"
  shows "\<exists>shown out t. crash_report opts frames err line fname func s =
      Done (report_head opts frames fname line func err (thread_shown s) @ shown @ out, Exited (err_code err)) t \<and>
      named_data out = map tb_data (registry a) \<and> named_sizes out = map tb_size (registry a) \<and>
      named_tids out = map tb_tid (registry a)"
  using m
proof (rule models_cases)
  fix L M ns assume ok: "sn_ok s L M ns" and a: "a = abstract M ns s"
  let ?out = "report_head opts frames fname line func err (thread_shown s)"
  note L = sn_ok_lists [OF ok]
  have "\<exists>xs. print_node_report (l_lastAccess L) (?out @ [List_state_heading, Last_access_heading]) s =
      Done (?out @ [List_state_heading, Last_access_heading] @ xs) s"
    using live L by (auto simp: last_access_live_def print_node_report_def ret_def)
  then obtain xs where xs: "print_node_report (l_lastAccess L) (?out @ [List_state_heading, Last_access_heading]) s =
      Done (?out @ [List_state_heading, Last_access_heading] @ xs) s" by blast
  have "err_code err \<noteq> err_code SN_ERR_CATASTROPHIC" "err_code err \<noteq> err_code SN_ERR_SYS_FAIL"
    using err by (cases err; simp)+
  moreover obtain t where t: "linked_list_forEach (mem_list s) list_nodeas_report
      ((?out @ [List_state_heading, Last_access_heading] @ xs) @ [Two_empty_lines, Nodes_heading]) s =
      Done (NULL, ((?out @ [List_state_heading, Last_access_heading] @ xs) @ [Two_empty_lines, Nodes_heading]) @
        dump_lines (nodes s) 0 ns) t"
    using dump_list_lines [OF sn_okD(1,2) [OF ok]] by blast
  ultimately have "crash_report opts frames err line fname func s = Done (?out @
      ([List_state_heading, Last_access_heading] @ xs @ [Two_empty_lines, Nodes_heading]) @ dump_lines (nodes s) 0 ns,
      Exited (err_code err)) t"
    using opts L xs by (simp add: crash_report_unfold Let_def ret_def)
  moreover have "map f (registry a) = map (\<lambda>p. f (block_of (the (nodes s p)))) ns" for f :: "tracked_block \<Rightarrow> 64 word"
    by (simp add: a abstract_def blocks_of_def)
  ultimately show ?thesis
    by (intro exI [of _ "[List_state_heading, Last_access_heading] @ xs @ [Two_empty_lines, Nodes_heading]"]
        exI [of _ "dump_lines (nodes s) 0 ns"] exI [of _ t]) (simp add: named_dump block_of_def)
qed

end
