(* ===== verification/Critical_Sections.thy ===== *)
theory Critical_Sections
  imports Plat_Threading
begin

text \<open>
  What the callers of \<open>plat_mutex_lock\<close> and \<open>plat_mutex_unlock\<close> rely on, as an interface:
  a mutex with a holder, and threads that enter and leave critical sections in any order.
  The laws give mutual exclusion, progress, and the answers of every sequence of calls in
  which only the holder unlocks. The Unix mutex is an instance here, the Windows mutex in
  the next theory.
\<close>

section \<open>Calls on one mutex\<close>

datatype mutex_op = Lock | Unlock

text \<open>One thread calling one of the two functions.\<close>

type_synonym 's mutex_call = "tid_t \<Rightarrow> 's \<Rightarrow> (unit, 's) outcome"

text \<open>
  The answers of a sequence of calls: did each return? A call that has to wait has no effect,
  and the calls of other threads go on.
\<close>

fun observe :: "'s mutex_call \<Rightarrow> 's mutex_call \<Rightarrow> (tid_t \<times> mutex_op) list \<Rightarrow> 's \<Rightarrow> bool list" where
  "observe acq rel [] s = []"
| "observe acq rel ((t, op) # ops) s = (case (if op = Lock then acq t s else rel t s) of
     Done _ s' \<Rightarrow> True # observe acq rel ops s'
   | Halt _ _ \<Rightarrow> False # observe acq rel ops s)"

text \<open>
  The abstract mutex knows its holder only: a lock is granted when nobody else holds it, an
  unlock is for the holder alone (\<open>None\<close>: somebody else unlocked). A second lock by the
  holder is granted, and not counted.
\<close>

fun mutex_spec :: "tid_t option \<Rightarrow> (tid_t \<times> mutex_op) list \<Rightarrow> bool list option" where
  "mutex_spec h [] = Some []"
| "mutex_spec h ((t, Lock) # ops) =
     (if t = 0 then None
      else if h = None \<or> h = Some t then map_option ((#) True) (mutex_spec (Some t) ops)
      else map_option ((#) False) (mutex_spec h ops))"
| "mutex_spec h ((t, Unlock) # ops) =
     (if h = Some t then map_option ((#) True) (mutex_spec None ops) else None)"

text \<open>Threads around a critical section; the set holds the threads inside.\<close>

inductive section_step :: "'s mutex_call \<Rightarrow> 's mutex_call \<Rightarrow> 's \<times> tid_t set \<Rightarrow> 's \<times> tid_t set \<Rightarrow> bool"
  for acq rel where
  enter: "\<lbrakk>t \<noteq> 0; t \<notin> I; acq t s = Done u s'\<rbrakk> \<Longrightarrow> section_step acq rel (s, I) (s', insert t I)"
| leave: "\<lbrakk>t \<in> I; rel t s = Done u s'\<rbrakk> \<Longrightarrow> section_step acq rel (s, I) (s', I - {t})"

section \<open>The interface\<close>

locale mutex =
  fixes acq rel :: "'s mutex_call" and sound :: "'s \<Rightarrow> bool" and holder :: "'s \<Rightarrow> tid_t option"
  assumes acq_free: "\<lbrakk>sound s; holder s = None; t \<noteq> 0\<rbrakk> \<Longrightarrow> \<exists>s'. acq t s = Done () s' \<and> sound s' \<and> holder s' = Some t"
    and acq_again: "\<lbrakk>sound s; holder s = Some t\<rbrakk> \<Longrightarrow> \<exists>s'. acq t s = Done () s' \<and> sound s' \<and> holder s' = Some t"
    and acq_held: "\<lbrakk>sound s; holder s = Some u; u \<noteq> t; t \<noteq> 0\<rbrakk> \<Longrightarrow> \<exists>s'. acq t s = Halt Blocked s'"
    and rel_held: "\<lbrakk>sound s; holder s = Some t\<rbrakk> \<Longrightarrow> \<exists>s'. rel t s = Done () s' \<and> sound s' \<and> holder s' = None"
begin

text \<open>Refinement of the abstract mutex.\<close>

lemma observe_spec: "\<lbrakk>sound s; mutex_spec (holder s) ops = Some bs\<rbrakk> \<Longrightarrow> observe acq rel ops s = bs"
proof (induction ops arbitrary: s bs)
  case Nil
  then show ?case by simp
next
  case (Cons x ops)
  obtain t op where x: "x = (t, op)" by (cases x)
  show ?case
  proof (cases op)
    case Lock
    with Cons.prems(2) have t: "t \<noteq> 0" by (auto simp: x split: if_splits)
    show ?thesis
    proof (cases "holder s = None \<or> holder s = Some t")
      case True
      then obtain s' where s': "acq t s = Done () s'" "sound s'" "holder s' = Some t"
        using acq_free acq_again Cons.prems(1) t by blast
      then show ?thesis using Cons True t by (auto simp: x Lock)
    next
      case False
      then obtain u where "holder s = Some u" "u \<noteq> t" by auto
      then obtain s' where "acq t s = Halt Blocked s'" using acq_held Cons.prems(1) t by blast
      then show ?thesis using Cons False t by (auto simp: x Lock)
    qed
  next
    case Unlock
    then have h: "holder s = Some t" using Cons.prems(2) by (auto simp: x split: if_splits)
    then obtain s' where "rel t s = Done () s'" "sound s'" "holder s' = None" using rel_held Cons.prems(1) by blast
    then show ?thesis using Cons h by (auto simp: x Unlock)
  qed
qed

text \<open>The holder is the one thread inside.\<close>

definition guarded :: "'s \<times> tid_t set \<Rightarrow> bool" where
  "guarded c \<longleftrightarrow> sound (fst c) \<and> 0 \<notin> snd c \<and> snd c = set_option (holder (fst c))"

lemma step_guarded: "\<lbrakk>section_step acq rel c d; guarded c\<rbrakk> \<Longrightarrow> guarded d"
proof (induction rule: section_step.induct)
  case (enter t I s u s')
  then have "holder s = None" using acq_held [of s _ t] by (cases "holder s") (auto simp: guarded_def)
  then show ?case using acq_free [of s t] enter by (auto simp: guarded_def)
next
  case (leave t I s u s')
  then have "holder s = Some t" by (auto simp: guarded_def elem_set)
  then show ?case using rel_held [of s t] leave by (auto simp: guarded_def)
qed

lemma run_guarded: "\<lbrakk>(section_step acq rel)\<^sup>*\<^sup>* c d; guarded c\<rbrakk> \<Longrightarrow> guarded d"
  by (induction rule: rtranclp_induct) (blast dest: step_guarded)+

lemma guarded_exclusive: "guarded (s, I) \<Longrightarrow> t \<in> I \<Longrightarrow> u \<in> I \<Longrightarrow> t = u"
  by (auto simp: guarded_def elem_set)

lemma guarded_waits: "\<lbrakk>guarded (s, I); t \<in> I; u \<noteq> 0; u \<notin> I\<rbrakk> \<Longrightarrow> \<exists>s'. acq u s = Halt Blocked s'"
  using acq_held [of s t u] by (auto simp: guarded_def elem_set)

lemma sections_exclusive:
  assumes "sound s" "holder s = None" "(section_step acq rel)\<^sup>*\<^sup>* (s, {}) (s', I)"
  shows "(\<forall>t \<in> I. \<forall>u \<in> I. t = u) \<and> (\<forall>t \<in> I. \<forall>u. u \<noteq> 0 \<longrightarrow> u \<notin> I \<longrightarrow> (\<exists>x. acq u s' = Halt Blocked x))"
proof -
  have "guarded (s, {})" using assms(1,2) by (simp add: guarded_def)
  then have "guarded (s', I)" by (rule run_guarded [OF assms(3)])
  then show ?thesis using guarded_exclusive guarded_waits by blast
qed

text \<open>Nobody waits for ever because of the mutex: after at most one other thread has left, any
  thread gets in.\<close>

lemma guarded_enters:
  assumes g: "guarded (s, I)" and t: "t \<noteq> 0" "t \<notin> I"
  shows "\<exists>s'. (section_step acq rel)\<^sup>*\<^sup>* (s, I) (s', {t})"
proof (cases "holder s")
  case None
  then have I: "I = {}" using g by (simp add: guarded_def)
  obtain s' where "acq t s = Done () s'" using acq_free [of s t] None g t by (auto simp: guarded_def)
  then have "section_step acq rel (s, I) (s', {t})" using section_step.enter [of t I acq s] t I by simp
  then show ?thesis by (intro exI [of _ s']) (rule r_into_rtranclp)
next
  case (Some v)
  then have I: "I = {v}" using g by (simp add: guarded_def)
  obtain s1 where s1: "rel v s = Done () s1" "sound s1" "holder s1 = None"
    using rel_held [of s v] Some g by (auto simp: guarded_def)
  obtain s2 where s2: "acq t s1 = Done () s2" using acq_free [OF s1(2,3) t(1)] by blast
  have "section_step acq rel (s, I) (s1, {})" using section_step.leave [of v I rel s _ s1 acq] s1(1) I by simp
  moreover have "section_step acq rel (s1, {}) (s2, {t})" using section_step.enter [of t "{}" acq s1] s2 t(1) by simp
  ultimately show ?thesis by (meson converse_rtranclp_into_rtranclp r_into_rtranclp)
qed

lemma sections_progress:
  assumes "sound s" "holder s = None" "(section_step acq rel)\<^sup>*\<^sup>* (s, {}) (s', I)" "t \<noteq> 0" "t \<notin> I"
  shows "\<exists>x. (section_step acq rel)\<^sup>*\<^sup>* (s', I) (x, {t})"
proof -
  have "guarded (s, {})" using assms(1,2) by (simp add: guarded_def)
  then have "guarded (s', I)" by (rule run_guarded [OF assms(3)])
  then show ?thesis using assms(4,5) by (rule guarded_enters)
qed

end

section \<open>The Unix mutex\<close>

definition unix_lock :: "ptr \<Rightarrow> machine mutex_call" where
  "unix_lock m t s = plat_mutex_lock m (s\<lparr>current := t\<rparr>)"

definition unix_unlock :: "ptr \<Rightarrow> machine mutex_call" where
  "unix_unlock m t s = plat_mutex_unlock m (s\<lparr>current := t\<rparr>)"

definition unix_holder :: "ptr \<Rightarrow> machine \<Rightarrow> tid_t option" where
  "unix_holder m s = (case mutexes s m of None \<Rightarrow> None | Some mx \<Rightarrow> mx_owner mx)"

definition unix_sound :: "ptr \<Rightarrow> machine \<Rightarrow> bool" where
  "unix_sound m s \<longleftrightarrow> m \<noteq> NULL \<and> cfg_mutex s \<and>
     (mutexes s m = Some free_mutex \<or> (\<exists>t. t \<noteq> 0 \<and> mutexes s m = Some (held_mutex t)))"

interpretation unix: mutex "unix_lock m" "unix_unlock m" "unix_sound m" "unix_holder m" for m
  by unfold_locales
    (auto simp: unix_lock_def unix_unlock_def unix_holder_def unix_sound_def plat_mutex_lock_def
      plat_mutex_unlock_def free_mutex_def held_mutex_def)

text \<open>An unlock by a thread that is not the holder frees the mutex.\<close>

lemma unix_second_unlock:
  assumes "unix_sound m s" "unix_holder m s = None" "distinct [0, t, u, v]"
  shows "observe (unix_lock m) (unix_unlock m)
      [(t, Lock), (t, Lock), (t, Unlock), (u, Lock), (t, Unlock), (v, Lock)] s = [True, True, True, True, True, True]"
proof -
  have "m \<noteq> NULL" "cfg_mutex s" "mutexes s m = Some free_mutex"
    using assms(1,2) by (auto simp: unix_sound_def unix_holder_def held_mutex_def)
  then show ?thesis using assms(3)
    by (simp add: unix_lock_def unix_unlock_def plat_mutex_lock_def plat_mutex_unlock_def free_mutex_def)
qed

end
