(* ===== verification/Plat_Threading_Win.thy ===== *)
theory Plat_Threading_Win
  imports Critical_Sections
begin

text \<open>
  \<open>platform_independent/plat_threading.c\<close>, the Windows branch: a \<open>plat_mutex_t\<close> is the handle
  of a kernel mutex and the id of the thread that locked it last. A kernel mutex, unlike a
  default pthread mutex, counts the locks of its owner and is only released by its owner;
  the code looks at none of the answers of \<open>WaitForSingleObject\<close> and \<open>ReleaseMutex\<close>.
  With \<open>SN_CONFIG_ENABLE_MUTEX\<close> off both branches are the same code.
\<close>

section \<open>The kernel's mutexes\<close>

type_synonym handle = "64 word"

record kernel_mutex =
  km_owner :: "tid_t option"
  km_count :: nat

record plat_mutex_win_t =
  w_plat_mutex :: handle
  w_locker_tid :: tid_t

text \<open>
  The machine with the Windows part beside it: \<open>structs\<close> holds the fields of the live
  \<open>plat_mutex_t\<close> objects, whose memory stays a raw block of \<open>mem\<close>; \<open>kernel\<close> the objects behind
  the open handles; \<open>create_answers\<close> what \<open>CreateMutexW\<close> will answer.
\<close>

record windows =
  mem :: machine
  structs :: "ptr \<rightharpoonup> plat_mutex_win_t"
  kernel :: "handle \<rightharpoonup> kernel_mutex"
  create_answers :: "handle list"

definition on_mem :: "'a lib \<Rightarrow> (windows, 'a) prog" where
  "on_mem m w = (case m (mem w) of
     Done x s \<Rightarrow> Done x (w\<lparr>mem := s\<rparr>)
   | Halt h s \<Rightarrow> Halt h (w\<lparr>mem := s\<rparr>))"

definition thread :: "windows \<Rightarrow> tid_t" where "thread w = current (mem w)"

text \<open>\<open>CreateMutexW(NULL, FALSE, NULL)\<close>: a new mutex nobody owns, or 0. An answer that is
  already an open handle stands for failure, as an empty queue does.\<close>

definition CreateMutexW :: "(windows, handle) prog" where
  "CreateMutexW w = (case create_answers w of
     [] \<Rightarrow> Done 0 w
   | h # rest \<Rightarrow>
       (if h = 0 \<or> kernel w h \<noteq> None then Done 0 (w\<lparr>create_answers := rest\<rparr>)
        else Done h (w\<lparr>create_answers := rest,
                       kernel := (kernel w)(h \<mapsto> \<lparr>km_owner = None, km_count = 0\<rparr>)\<rparr>)))"

text \<open>\<open>WaitForSingleObject(h, INFINITE)\<close>: fails at once on a handle that is not open.\<close>

definition WaitForSingleObject :: "handle \<Rightarrow> (windows, unit) prog" where
  "WaitForSingleObject h w = (case kernel w h of
     None \<Rightarrow> Done () w
   | Some k \<Rightarrow>
       (if km_owner k = None \<or> km_owner k = Some (thread w)
        then Done () (w\<lparr>kernel := (kernel w)(h \<mapsto>
               \<lparr>km_owner = Some (thread w), km_count = Suc (km_count k)\<rparr>)\<rparr>)
        else Halt Blocked w))"

text \<open>\<open>ReleaseMutex(h)\<close>: fails, without effect, when the caller is not the owner.\<close>

definition ReleaseMutex :: "handle \<Rightarrow> (windows, unit) prog" where
  "ReleaseMutex h w = (case kernel w h of
     None \<Rightarrow> Done () w
   | Some k \<Rightarrow>
       (if km_owner k = Some (thread w)
        then Done () (w\<lparr>kernel := (kernel w)(h \<mapsto>
               \<lparr>km_owner = (if km_count k = 1 then None else Some (thread w)), km_count = km_count k - 1\<rparr>)\<rparr>)
        else Done () w))"

definition CloseHandle :: "handle \<Rightarrow> (windows, unit) prog" where
  "CloseHandle h w = Done () (w\<lparr>kernel := (kernel w)(h := None)\<rparr>)"

section \<open>The operations\<close>

text \<open>\<open>sizeof(plat_mutex_t)\<close>: a handle and a thread id, or the padding byte.\<close>

definition sizeof_plat_mutex_win_t :: "bool \<Rightarrow> size_t" where
  "sizeof_plat_mutex_win_t on = (if on then 16 else 1)"

definition zero_mutex_win_at :: "ptr \<Rightarrow> (windows, unit) prog" where
  "zero_mutex_win_at p w = (case blocks (mem w) p of
     Some bs \<Rightarrow> (if length bs = unat (sizeof_plat_mutex_win_t (cfg_mutex (mem w)))
       then Done () (w\<lparr>structs := (structs w)(p \<mapsto> \<lparr>w_plat_mutex = 0, w_locker_tid = 0\<rparr>)\<rparr>) else Halt UB w)
   | None \<Rightarrow> Halt UB w)"

definition free_mutex_win :: "ptr \<Rightarrow> (windows, unit) prog" where
  "free_mutex_win p = bnd (on_mem (plat_free p)) (\<lambda>_. modify (\<lambda>w. w\<lparr>structs := (structs w)(p := None)\<rparr>))"

definition load_mutex_win :: "ptr \<Rightarrow> (windows, plat_mutex_win_t) prog" where
  "load_mutex_win p w = (case structs w p of None \<Rightarrow> Halt UB w | Some x \<Rightarrow> Done x w)"

definition upd_mutex_win :: "ptr \<Rightarrow> (plat_mutex_win_t \<Rightarrow> plat_mutex_win_t) \<Rightarrow> (windows, unit) prog" where
  "upd_mutex_win p f w = (case structs w p of
     None \<Rightarrow> Halt UB w | Some x \<Rightarrow> Done () (w\<lparr>structs := (structs w)(p \<mapsto> f x)\<rparr>))"

definition plat_getTid_win :: "(windows, tid_t) prog" where
  "plat_getTid_win = gets (\<lambda>w. if cfg_mutex (mem w) then thread w else 0)"

definition plat_mutex_new_win :: "(windows, ptr) prog" where
  "plat_mutex_new_win =
     bnd (gets (\<lambda>w. cfg_mutex (mem w))) (\<lambda>on.
     bnd (on_mem (plat_malloc (sizeof_plat_mutex_win_t on))) (\<lambda>self.
     if self = NULL then ret NULL
     else bnd (zero_mutex_win_at self) (\<lambda>_.
          if \<not> on then ret self
          else bnd CreateMutexW (\<lambda>h.
               bnd (upd_mutex_win self (\<lambda>x. x\<lparr>w_plat_mutex := h\<rparr>)) (\<lambda>_.
               if h = 0 then bnd (free_mutex_win self) (\<lambda>_. ret NULL)
               else ret self)))))"

definition plat_mutex_lock_win :: "ptr \<Rightarrow> (windows, unit) prog" where
  "plat_mutex_lock_win self =
     bnd (gets (\<lambda>w. cfg_mutex (mem w))) (\<lambda>on.
     if self = NULL \<or> \<not> on then ret ()
     else bnd plat_getTid_win (\<lambda>tid.
          bnd (load_mutex_win self) (\<lambda>x.
          if tid = w_locker_tid x then ret ()
          else bnd (WaitForSingleObject (w_plat_mutex x)) (\<lambda>_.
               bnd plat_getTid_win (\<lambda>tid. upd_mutex_win self (\<lambda>x. x\<lparr>w_locker_tid := tid\<rparr>))))))"

definition plat_mutex_unlock_win :: "ptr \<Rightarrow> (windows, unit) prog" where
  "plat_mutex_unlock_win self =
     bnd (gets (\<lambda>w. cfg_mutex (mem w))) (\<lambda>on.
     if self = NULL \<or> \<not> on then ret ()
     else bnd (load_mutex_win self) (\<lambda>x.
          bnd (ReleaseMutex (w_plat_mutex x)) (\<lambda>_.
          upd_mutex_win self (\<lambda>x. x\<lparr>w_locker_tid := 0\<rparr>))))"

definition plat_mutex_destroy_win :: "ptr \<Rightarrow> (windows, unit) prog" where
  "plat_mutex_destroy_win self =
     bnd (gets (\<lambda>w. cfg_mutex (mem w))) (\<lambda>on.
     if self = NULL then ret ()
     else bnd (load_mutex_win self) (\<lambda>x.
          bnd (if_do on (CloseHandle (w_plat_mutex x))) (\<lambda>_. free_mutex_win self)))"

lemmas run_threading_win [run] =
  on_mem_def thread_def CreateMutexW_def WaitForSingleObject_def ReleaseMutex_def CloseHandle_def
  sizeof_plat_mutex_win_t_def zero_mutex_win_at_def free_mutex_win_def load_mutex_win_def
  upd_mutex_win_def plat_getTid_win_def plat_mutex_new_win_def plat_mutex_lock_win_def
  plat_mutex_unlock_win_def plat_mutex_destroy_win_def

section \<open>The Windows mutex as an instance of the interface\<close>

definition as_thread :: "tid_t \<Rightarrow> windows \<Rightarrow> windows" where
  "as_thread t w = w\<lparr>mem := (mem w)\<lparr>current := t\<rparr>\<rparr>"

definition win_lock :: "ptr \<Rightarrow> windows mutex_call" where
  "win_lock m t w = plat_mutex_lock_win m (as_thread t w)"

definition win_unlock :: "ptr \<Rightarrow> windows mutex_call" where
  "win_unlock m t w = plat_mutex_unlock_win m (as_thread t w)"

text \<open>Nobody holds the mutex, or one thread does, once.\<close>

definition win_state :: "ptr \<Rightarrow> tid_t option \<Rightarrow> windows \<Rightarrow> bool" where
  "win_state m h w \<longleftrightarrow> m \<noteq> NULL \<and> cfg_mutex (mem w) \<and> h \<noteq> Some 0 \<and>
     (\<exists>x k. structs w m = Some x \<and> w_locker_tid x = (case h of None \<Rightarrow> 0 | Some t \<Rightarrow> t) \<and>
        kernel w (w_plat_mutex x) = Some k \<and> km_owner k = h \<and>
        km_count k = (case h of None \<Rightarrow> 0 | Some _ \<Rightarrow> 1))"

definition win_holder :: "ptr \<Rightarrow> windows \<Rightarrow> tid_t option" where
  "win_holder m w = (case structs w m of None \<Rightarrow> None | Some x \<Rightarrow>
     (case kernel w (w_plat_mutex x) of None \<Rightarrow> None | Some k \<Rightarrow> km_owner k))"

definition win_sound :: "ptr \<Rightarrow> windows \<Rightarrow> bool" where
  "win_sound m w \<longleftrightarrow> win_state m (win_holder m w) w"

lemma win_state_holder: "win_state m h w \<Longrightarrow> win_holder m w = h"
  by (auto simp: win_state_def win_holder_def)

lemma win_state_sound: "win_state m h w \<Longrightarrow> win_sound m w \<and> win_holder m w = h"
  using win_state_holder by (simp add: win_sound_def)

lemma win_stateE:
  assumes "win_state m h w"
  obtains x k where "m \<noteq> NULL" "cfg_mutex (mem w)" "h \<noteq> Some 0" "structs w m = Some x"
    "w_locker_tid x = (case h of None \<Rightarrow> 0 | Some t \<Rightarrow> t)" "kernel w (w_plat_mutex x) = Some k" "km_owner k = h"
    "km_count k = (case h of None \<Rightarrow> 0 | Some _ \<Rightarrow> 1)"
  using assms by (auto simp: win_state_def)

lemma win_lock_free: "\<lbrakk>win_state m None w; t \<noteq> 0\<rbrakk> \<Longrightarrow> \<exists>w'. win_lock m t w = Done () w' \<and> win_state m (Some t) w'"
  by (erule win_stateE) (simp add: win_state_def win_lock_def as_thread_def run)

lemma win_lock_again: "win_state m (Some t) w \<Longrightarrow> \<exists>w'. win_lock m t w = Done () w' \<and> win_state m (Some t) w'"
  by (erule win_stateE) (simp add: win_state_def win_lock_def as_thread_def run)

lemma win_lock_held: "\<lbrakk>win_state m (Some u) w; u \<noteq> t; t \<noteq> 0\<rbrakk> \<Longrightarrow> \<exists>w'. win_lock m t w = Halt Blocked w'"
  by (erule win_stateE) (simp add: win_lock_def as_thread_def run)

lemma win_unlock_held: "win_state m (Some t) w \<Longrightarrow> \<exists>w'. win_unlock m t w = Done () w' \<and> win_state m None w'"
  by (erule win_stateE) (simp add: win_state_def win_unlock_def as_thread_def run)

interpretation win: mutex "win_lock m" "win_unlock m" "win_sound m" "win_holder m" for m
proof unfold_locales
  fix s :: windows and t :: tid_t assume "win_sound m s" "win_holder m s = None" "t \<noteq> 0"
  then show "\<exists>s'. win_lock m t s = Done () s' \<and> win_sound m s' \<and> win_holder m s' = Some t"
    using win_lock_free [of m s t] win_state_sound by (auto simp: win_sound_def)
next
  fix s :: windows and t :: tid_t assume "win_sound m s" "win_holder m s = Some t"
  then show "\<exists>s'. win_lock m t s = Done () s' \<and> win_sound m s' \<and> win_holder m s' = Some t"
    using win_lock_again [of m t s] win_state_sound by (auto simp: win_sound_def)
next
  fix s :: windows and u t :: tid_t assume "win_sound m s" "win_holder m s = Some u" "u \<noteq> t" "t \<noteq> 0"
  then show "\<exists>s'. win_lock m t s = Halt Blocked s'" using win_lock_held by (auto simp: win_sound_def)
next
  fix s :: windows and t :: tid_t assume "win_sound m s" "win_holder m s = Some t"
  then show "\<exists>s'. win_unlock m t s = Done () s' \<and> win_sound m s' \<and> win_holder m s' = None"
    using win_unlock_held [of m t s] win_state_sound by (auto simp: win_sound_def)
qed

text \<open>The kernel refuses the unlock of a thread that is not the owner.\<close>

lemma win_second_unlock:
  assumes "win_sound m w" "win_holder m w = None" "distinct [0, t, u, v]"
  shows "observe (win_lock m) (win_unlock m)
      [(t, Lock), (t, Lock), (t, Unlock), (u, Lock), (t, Unlock), (v, Lock)] w = [True, True, True, True, True, False]"
proof -
  have "win_state m None w" using assms(1,2) by (simp add: win_sound_def)
  then obtain x k where "m \<noteq> NULL" "cfg_mutex (mem w)" "structs w m = Some x" "w_locker_tid x = 0"
      "kernel w (w_plat_mutex x) = Some k" "km_owner k = None" "km_count k = 0"
    by (elim win_stateE) simp
  moreover have "u \<noteq> t" "v \<noteq> u" "v \<noteq> t" using assms(3) by auto
  ultimately show ?thesis using assms(3) by (simp add: win_lock_def win_unlock_def as_thread_def run)
qed

section \<open>Creation and destruction\<close>

text \<open>What a mutex takes from the heap and the kernel is given back: by its destruction, and by
  its constructor when the kernel has no mutex to give.\<close>

definition same_resources :: "windows \<Rightarrow> windows \<Rightarrow> bool" where
  "same_resources w w' \<longleftrightarrow> structs w' = structs w \<and> kernel w' = kernel w \<and> blocks (mem w') = blocks (mem w)"

lemma free_mutex_win_fresh:
  assumes "p \<noteq> NULL" "blocks (mem w) p \<noteq> None"
  shows "\<exists>w'. free_mutex_win p w = Done () w' \<and> structs w' = (structs w)(p := None) \<and> kernel w' = kernel w \<and>
    blocks (mem w') = (blocks (mem w))(p := None)"
  using assms by (simp add: free_mutex_win_def on_mem_def plat_free_def live_def modify_def)

lemma create_mutex_cases:
  obtains (none) rest where "CreateMutexW w = Done 0 (w\<lparr>create_answers := rest\<rparr>)"
  | (new) h rest where "h \<noteq> 0" "kernel w h = None" "CreateMutexW w = Done h (w\<lparr>create_answers := rest,
      kernel := (kernel w)(h \<mapsto> \<lparr>km_owner = None, km_count = 0\<rparr>)\<rparr>)"
proof (cases "create_answers w")
  case Nil
  then have "CreateMutexW w = Done 0 (w\<lparr>create_answers := []\<rparr>)" by (simp add: CreateMutexW_def)
  then show ?thesis by (rule none)
next
  case (Cons h rest)
  show ?thesis
  proof (cases "h = 0 \<or> kernel w h \<noteq> None")
    case True
    then have "CreateMutexW w = Done 0 (w\<lparr>create_answers := rest\<rparr>)" using Cons by (auto simp: CreateMutexW_def)
    then show ?thesis by (rule none)
  next
    case False
    then show ?thesis using Cons by (intro new [of h rest]) (simp_all add: CreateMutexW_def)
  qed
qed

lemma win_new:
  assumes on: "cfg_mutex (mem w)" and kept: "dom (structs w) \<subseteq> dom (blocks (mem w))"
  shows "\<exists>m w'. plat_mutex_new_win w = Done m w' \<and> (if m = NULL then same_resources w w' else win_state m None w' \<and>
    (\<exists>w''. plat_mutex_destroy_win m w' = Done () w'' \<and> same_resources w w''))"
proof (cases rule: plat_malloc_cases [of 16 "mem w"])
  case (fail rest)
  then show ?thesis using on by (simp add: plat_mutex_new_win_def on_mem_def sizeof_plat_mutex_win_t_def ret_def same_resources_def)
next
  case (ok p junk rest)
  have p: "p \<noteq> NULL" "blocks (mem w) p = None" using ok(2) by (auto simp: can_place_def live_def)
  then have none: "structs w p = None" using kept by blast
  let ?w = "w\<lparr>mem := (mem w)\<lparr>malloc_answers := rest, blocks := (blocks (mem w))(p \<mapsto> fresh_bytes 16 junk)\<rparr>,
      structs := (structs w)(p \<mapsto> \<lparr>w_plat_mutex = 0, w_locker_tid = 0\<rparr>)\<rparr>"
  have new: "plat_mutex_new_win w = bnd CreateMutexW (\<lambda>h. bnd (upd_mutex_win p (\<lambda>x. x\<lparr>w_plat_mutex := h\<rparr>)) (\<lambda>_.
      if h = 0 then bnd (free_mutex_win p) (\<lambda>_. ret NULL) else ret p)) ?w"
    using on ok(3) p by (simp add: plat_mutex_new_win_def on_mem_def sizeof_plat_mutex_win_t_def zero_mutex_win_at_def)
  show ?thesis
  proof (cases rule: create_mutex_cases [of ?w])
    case (none r)
    have "upd_mutex_win p (\<lambda>x. x\<lparr>w_plat_mutex := 0\<rparr>) (?w\<lparr>create_answers := r\<rparr>) = Done () (?w\<lparr>create_answers := r\<rparr>)"
      by (simp add: upd_mutex_win_def)
    then show ?thesis using free_mutex_win_fresh [of p "?w\<lparr>create_answers := r\<rparr>"] p \<open>structs w p = None\<close>
      by (auto simp: new none same_resources_def ret_def fun_upd_idem)
  next
    case h: (new h r)
    let ?v = "?w\<lparr>create_answers := r, kernel := (kernel w)(h \<mapsto> \<lparr>km_owner = None, km_count = 0\<rparr>),
        structs := (structs w)(p \<mapsto> \<lparr>w_plat_mutex = h, w_locker_tid = 0\<rparr>)\<rparr>"
    let ?u = "?v\<lparr>kernel := (kernel ?v)(h := None)\<rparr>"
    have "plat_mutex_new_win w = Done p ?v" using h by (simp add: new upd_mutex_win_def ret_def)
    moreover have "win_state p None ?v" using p(1) on by (simp add: win_state_def)
    moreover have "plat_mutex_destroy_win p ?v = free_mutex_win p ?u"
      using p(1) on by (simp add: plat_mutex_destroy_win_def load_mutex_win_def CloseHandle_def)
    moreover obtain u where "free_mutex_win p ?u = Done () u" "same_resources w u"
      using free_mutex_win_fresh [of p ?u] p \<open>structs w p = None\<close> h(2) by (auto simp: same_resources_def fun_upd_idem)
    ultimately show ?thesis using p(1) by auto
  qed
qed

end
