(* ===== verification/Instances.thy ===== *)
theory Instances
  imports Call_Patterns List_Deadlock Stale_Key List_Contract Release_Race Crash_Report Plat_Threading_Win
begin

text \<open>
  Facts about concrete machines, computed by running the model: the states on which the
  properties of the root theory are applied.
\<close>

text \<open>The list and the manager of the machine with one tracked block of 16 bytes.\<close>

definition tracked_list :: linked_list_t where
  "tracked_list = the (lists one_block (mem_list one_block))"

definition tracked_manager :: alloc_manager_t where
  "tracked_manager = the (managers one_block (memory_manager one_block))"

lemma one_block_list: "list_ok one_block (mem_list one_block) tracked_list [28672]"
  "ready (l_mutex tracked_list) one_block" "l_len tracked_list \<noteq> - 1"
  by (simp_all add: tracked_list_def one_block_run run list_ok_def ready_def free_mutex_def held_mutex_def)

lemma one_block_manager: "manager_at one_block (memory_manager one_block) tracked_manager"
  "cache_ok (nodes one_block) [28672] (m_cache_list tracked_manager)"
  by (simp_all add: tracked_manager_def one_block_run run manager_at_def ready_def free_mutex_def
      held_mutex_def cache_ok_def pair_ok_def)

lemma one_block_memory: "\<exists>junk rest. malloc_answers one_block = (32768, junk) # rest"
  "can_place one_block 32768 sizeof_linked_list_entry_t"
  "\<exists>e. nodes one_block 28672 = Some e \<and> light e \<and> e_isHead e = False"
  "blocks_of (nodes one_block) [28672] = registry one_block_state"
  "uncached one_block 24576" "cache_open one_block" "cache_room one_block"
  "\<exists>c \<in> set (m_cache_list tracked_manager). eligible (nodes one_block) c"
  "alloc_mutex one_block \<noteq> NULL"
  by (simp_all add: tracked_manager_def one_block_run run can_place_def live_def blocks_of_def block_of_def
      one_block_state_def with_block_def loaded_def uncached_def cache_open_def cache_room_def free_slot_def
      light_def eligible_def)

lemma one_block_split: "split_ok one_block"
  using one_block_models sn_okD(6) by (auto simp: models_def)

lemma booted_owned: "owned (loaded process)"
  by (rule loaded_owned)

lemma booted_reachable: "reachable booted"
  by (rule reachable.loaded [OF process_ok booted_eq])

lemma booted_step: "step booted one_block"
  by (rule step.call [where c = "Malloc 16", OF booted_models(1)]) (simp_all add: booted_models(2) one_block_eq)

lemma booted_audited: "audited booted"
  by (rule audited.loaded [OF process_ok booted_eq])

lemma one_block_fields: "thread_id one_block = 7" "cfg_sanitize one_block" "doFree one_block" "cfg_mutex one_block"
  "mem_list one_block = 4096"
  by (simp_all add: one_block_run run thread_id_def)

text \<open>A program that allocated a block of its own; the dump of a cached block; a cache whose slots
  are all taken while one still counts as available.\<close>

definition with_own_block :: machine where
  "with_own_block = booted\<lparr>blocks := [24576 \<mapsto> replicate 8 0]\<rparr>"

definition own_block_state :: sn_state where
  "own_block_state = (loaded process)\<lparr>memory := [24576 \<mapsto> replicate 8 0]\<rparr>"

lemma own_block_models: "models with_own_block own_block_state"
  unfolding with_own_block_def own_block_state_def
  by (rule models_memory [OF booted_models(1)]) (auto simp: booted_run run split_ok_def)

lemma own_block_room: "room with_own_block"
  by (simp add: with_own_block_def booted_run run room_def)

lemma own_block_owned: "owned own_block_state"
  by (simp add: own_block_state_def owned_def loaded_def)

lemma own_block_fields: "registry own_block_state = []" "usage own_block_state = 0" "find_block p [] = None"
  "memory own_block_state 24576 = Some (replicate 8 0)"
  by (simp_all add: own_block_state_def loaded_def find_block_def)

definition dumped_block :: machine where
  "dumped_block = state_of (sn_dump_to_file (Some ''a'') 24576 cached_block)"

lemma dumped_block_eq: "sn_dump_to_file (Some ''a'') 24576 cached_block = Done True dumped_block"
proof -
  have "\<exists>t. sn_dump_to_file (Some ''a'') 24576 cached_block = Done True t"
    by (simp add: cached_block_run run)
  then show ?thesis by (auto simp: dumped_block_def)
qed

lemma dumped_block_models: "models dumped_block one_block_state"
proof -
  obtain b where b: "models dumped_block b"
      "dump_spec (Some ''a'') 24576 one_block_state (files cached_block) True b (files dumped_block)"
    using dump_runs [OF cached_block_models one_block_owned, of "Some ''a''" 24576] dumped_block_eq
    unfolding runs_def by (elim exE conjE) simp
  from b(2) have "b = one_block_state" by cases simp_all
  then show ?thesis using b(1) by simp
qed

lemma dumped_block_fields: "room dumped_block" "io_answers dumped_block = []"
  by (simp_all add: dumped_block_def cached_block_run run room_def)

definition full_cache :: machine where
  "full_cache = state_of (bnd (sn_query_size 24576) (\<lambda>_. bnd (sn_request_to_fast_cache 24576) (\<lambda>_.
     bnd (sn_request_to_fast_cache 24576) (\<lambda>_. bnd (sn_request_to_fast_cache 24576) (\<lambda>_.
     sn_request_to_fast_cache 24576)))) one_block)"

lemma full_cache_run:
  "full_cache = \<lparr>nodes = [8192 \<mapsto> \<lparr>e_previous = 0, e_data = 0, e_size = 0, e_tid = 7, e_cached = False,
     e_block_id = 0, e_isHead = True, e_weight = 0, e_mutex = 0, e_next = 28672\<rparr>, 28672 \<mapsto>
     \<lparr>e_previous = 8192, e_data = 24576, e_size = 16, e_tid = 7, e_cached = True, e_block_id = 0, e_isHead =
     False, e_weight = 5, e_mutex = 12288, e_next = 0\<rparr>], lists = [4096 \<mapsto> \<lparr>l_head = 8192, l_len =
     1, l_firstEntry = 28672, l_lastEntry = 28672, l_lastAccess = 28672, l_mutex = 12288\<rparr>], managers = [20480
     \<mapsto> \<lparr>m_cache_list = [\<lparr>cp_key = 24576, cp_value = 28672\<rparr>, \<lparr>cp_key = 24576,
     cp_value = 28672\<rparr>, \<lparr>cp_key = 24576, cp_value = 28672\<rparr>, \<lparr>cp_key = 24576, cp_value =
     28672\<rparr>, \<lparr>cp_key = 24576, cp_value = 28672\<rparr>], m_available_cache_slots = 1, m_cache_lock =
     False, m_use_cache = True, m_alloc_limit = 0, m_global_memory_usage = 16, m_mutex_ref = 16384\<rparr>], mutexes =
     [12288 \<mapsto> \<lparr>mx_owner = None, mx_locker_tid = 0\<rparr>, 16384 \<mapsto> \<lparr>mx_owner = None,
     mx_locker_tid = 0\<rparr>], blocks = [24576 \<mapsto> [0, 0, 0, 0, 0, 0, 0, 0, 0, 0, 0, 0, 0, 0, 0, 0]],
     malloc_answers = [(32768, []), (36864, []), (40960, []), (45056, []), (49152, []), (53248, []), (57344, []),
     (61440, []), (65536, [])], mutex_init_answers = [], files = \<lambda>x. None, io_answers = [], current = 7,
     cfg_mutex = True, cfg_sanitize = True, mem_list = 4096, alloc_mutex = 16384, memory_manager = 20480, doFree =
     True, error_code = 0\<rparr>"
  by (simp add: full_cache_def one_block_run run)

definition full_manager :: alloc_manager_t where
  "full_manager = the (managers full_cache (memory_manager full_cache))"

lemma full_cache_ok: "sn_ok full_cache (the (lists full_cache (mem_list full_cache))) full_manager [28672]"
  by (simp add: full_manager_def full_cache_run run sn_ok_def list_ok_def manager_at_def ready_def free_mutex_def
      held_mutex_def cache_ok_def pair_ok_def split_ok_def mutexes_ok_def)

lemma full_cache_block: "find_block 24576 (registry (abstract full_manager [28672] full_cache)) \<noteq> None"
  by (simp add: full_manager_def full_cache_run run abstract_def blocks_of_def block_of_def find_block_def)

lemma full_cache_owned: "owned (abstract full_manager [28672] full_cache)"
  by (simp add: full_manager_def full_cache_run run abstract_def blocks_of_def block_of_def owned_def)

lemma full_manager_fields: "\<not> m_cache_lock full_manager" "m_use_cache full_manager"
  "m_available_cache_slots full_manager \<noteq> 0" "\<forall>c \<in> set (m_cache_list full_manager). \<not> free_slot c"
  by (simp_all add: full_manager_def full_cache_run run free_slot_def)

text \<open>Threads: the global mutex of the loaded library, a Windows process with one mutex, and a
  schedule of two threads on one block.\<close>

lemma booted_mutex: "unix_sound (alloc_mutex booted) booted" "unix_holder (alloc_mutex booted) booted = None"
  by (simp_all add: unix_sound_def unix_holder_def booted_run run)

definition windows_process :: windows where
  "windows_process = \<lparr>mem = process, structs = Map.empty, kernel = Map.empty, create_answers = [4, 8]\<rparr>"

definition windows_mutex :: windows where
  "windows_mutex = state_of (plat_mutex_new_win windows_process)"

lemma windows_mutex_eq: "plat_mutex_new_win windows_process = Done 4096 windows_mutex"
proof -
  have "\<exists>w. plat_mutex_new_win windows_process = Done 4096 w" by (simp add: windows_process_def run)
  then show ?thesis by (auto simp: windows_mutex_def)
qed

lemma windows_mutex_fresh: "win_sound 4096 windows_mutex" "win_holder 4096 windows_mutex = None"
proof -
  have "win_state 4096 None windows_mutex"
    using win_new [of windows_process] windows_mutex_eq by (auto simp: windows_process_def process_def)
  then show "win_sound 4096 windows_mutex" "win_holder 4096 windows_mutex = None" using win_state_sound by simp_all
qed

lemma booted_released: "all_released booted"
  by (simp add: all_released_def released_def booted_run run)

lemma one_block_released: "all_released one_block"
  by (simp add: all_released_def released_def one_block_run run)

lemma one_block_reachable: "reachable one_block"
  by (rule reachable.more [OF booted_reachable booted_step])

definition two_thread_calls :: "(tid_t \<times> api_call) list" where
  "two_thread_calls = [(8, Query_size 24576), (9, Free 24576)]"

lemma two_threads_schedulable: "schedulable two_thread_calls one_block"
proof -
  have m: "models (one_block\<lparr>current := 8\<rparr>) one_block_state"
    using thread_models [OF one_block_models] one_block_released by (simp add: all_released_def)
  have some: "registry one_block_state \<noteq> []" by (simp add: one_block_state_def with_block_def)
  have "\<exists>a. models (u\<lparr>current := 9\<rparr>) a \<and> registry a \<noteq> []" if u: "sn_query_size 24576 (one_block\<lparr>current := 8\<rparr>) = Done r u" for r u
  proof -
    obtain b where b: "models u b" "keeps_locks {} (one_block\<lparr>current := 8\<rparr>) u" "b = queried 24576 one_block_state"
      using query_size_answers [OF m, of 24576] u some by (auto simp: answers_def runs_def may_leak_def)
    have "\<forall>m. released m u" using b(2) one_block_released by (auto simp: keeps_locks_def all_released_def released_def)
    from thread_models [OF b(1) this, of 9] show ?thesis using b(3) some by (auto simp: queried_def looked_up_def one_block_find)
  qed
  then show ?thesis using m some by (auto simp: two_thread_calls_def)
qed

lemma one_block_crash: "last_access_live one_block"
  by (simp add: one_block_run run last_access_live_def)

definition default_options :: crash_options where
  "default_options = \<lparr>stack_trace = True, dump_list_crash = True\<rparr>"

text \<open>Two tracked blocks.\<close>

definition two_blocks_state :: sn_state where
  "two_blocks_state = with_block 32768 (replicate 16 0) 16 16 7 one_block_state"

lemma two_blocks_eq: "sn_malloc 16 one_block = Done 32768 two_blocks"
proof -
  have "\<exists>t. sn_malloc 16 one_block = Done 32768 t" by (simp add: one_block_run run)
  then show ?thesis by (auto simp: two_blocks_def)
qed

lemma two_blocks_models: "models two_blocks two_blocks_state" "owned two_blocks_state"
proof -
  obtain a where a: "models two_blocks a" "malloc_spec True 7 16 one_block_state 32768 a"
    using malloc_serves [OF one_block_models one_block_room, of 16] two_blocks_eq one_block_fields
    by (auto simp: serves_def ends_def)
  from a(2) have "a = two_blocks_state" by cases (auto simp: two_blocks_state_def)
  then show "models two_blocks two_blocks_state" "owned two_blocks_state"
    using a malloc_spec_owned [OF a(2) one_block_owned] by simp_all
qed

lemma two_blocks_registry: "map tb_data (registry two_blocks_state) = [24576, 32768]"
  by (simp add: two_blocks_state_def one_block_state_def with_block_def loaded_def)

lemma two_blocks_released: "all_released two_blocks"
  by (simp add: all_released_def released_def two_blocks_def one_block_run run)

text \<open>The two blocks are released, the older first: no block is tracked, and the list still counts
  one.\<close>

definition emptied_list :: machine where
  "emptied_list = state_of (bnd (sn_free 24576) (\<lambda>_. sn_free 32768) two_blocks)"

lemma emptied_list_models: "\<exists>a. models emptied_list a \<and> registry a = []"
proof -
  let ?a = two_blocks_state
  obtain u where u: "sn_free 24576 two_blocks = Done () u" "models u (free_spec 24576 ?a)"
    using free_answers [OF two_blocks_models, of 24576] by (auto simp: answers_def runs_def)
  obtain v where v: "sn_free 32768 u = Done () v" "models v (free_spec 32768 (free_spec 24576 ?a))"
    using free_answers [OF u(2) free_spec_owned [OF two_blocks_models(2)], of 32768] by (auto simp: answers_def runs_def)
  have "registry (free_spec 32768 (free_spec 24576 ?a)) = []"
    by (simp add: two_blocks_state_def one_block_state_def free_spec_def with_block_def without_block_def loaded_def find_block_def)
  then show ?thesis using v u(1) by (auto simp: emptied_list_def)
qed

lemma emptied_list_run:
  "emptied_list = \<lparr>nodes = [8192 \<mapsto> \<lparr>e_previous = 0, e_data = 0, e_size = 0, e_tid = 7, e_cached = False,
     e_block_id = 0, e_isHead = True, e_weight = 0, e_mutex = 0, e_next = 0\<rparr>], lists = [4096 \<mapsto>
     \<lparr>l_head = 8192, l_len = 1, l_firstEntry = 8192, l_lastEntry = 8192, l_lastAccess = 36864, l_mutex =
     12288\<rparr>], managers = [20480 \<mapsto> \<lparr>m_cache_list = [\<lparr>cp_key = 0, cp_value = 0\<rparr>,
     \<lparr>cp_key = 0, cp_value = 0\<rparr>, \<lparr>cp_key = 0, cp_value = 0\<rparr>, \<lparr>cp_key = 0, cp_value
     = 0\<rparr>, \<lparr>cp_key = 0, cp_value = 0\<rparr>], m_available_cache_slots = 5, m_cache_lock = False,
     m_use_cache = True, m_alloc_limit = 0, m_global_memory_usage = 0, m_mutex_ref = 16384\<rparr>], mutexes = [16384
     \<mapsto> \<lparr>mx_owner = None, mx_locker_tid = 0\<rparr>, 12288 \<mapsto> \<lparr>mx_owner = None,
     mx_locker_tid = 0\<rparr>], blocks = \<lambda>x. None, malloc_answers = [(40960, []), (45056, []), (49152, []),
     (53248, []), (57344, []), (61440, []), (65536, [])], mutex_init_answers = [], files = \<lambda>x. None,
     io_answers = [], current = 7, cfg_mutex = True, cfg_sanitize = True, mem_list = 4096, alloc_mutex = 16384,
     memory_manager = 20480, doFree = True, error_code = 0\<rparr>"
  by (simp add: emptied_list_def two_blocks_def one_block_run run)

lemma emptied_list_fields:
  "\<exists>L. lists emptied_list (mem_list emptied_list) = Some L \<and> l_len L \<noteq> 0 \<and> l_mutex L \<noteq> NULL"
  "cfg_mutex emptied_list" "alloc_mutex emptied_list \<noteq> NULL" "current emptied_list = 7"
  by (simp_all add: emptied_list_run run)

end
