(* ===== verification/Spec2Isabelle.thy ===== *)
theory Spec2Isabelle
  imports Instances
begin

text \<open>
  libsafetynet is a C library that wraps the allocator of the C library. Every block a program
  obtains through it is recorded in one linked list of metadata entries: the data pointer, the
  size, the thread that allocated it and a block id. The public calls allocate, release and
  resize blocks, answer questions about them, dump them to files and load files into them; at
  unload the library releases what the program left behind. A five-slot cache maps addresses
  to entries, an allocation manager counts the bytes and enforces a limit, and two mutexes
  guard the list and the rest.

  The parts, their sources and their theories:

    \<^item> \<open>include/libsafetynet.h\<close>, \<open>linked_list_c.h\<close>, \<open>alloc_manager_c.h\<close>: the structs and constants.
      \<open>SN_Machine\<close> has each struct as a record with the source's fields and the state the library
      runs on, \<open>machine\<close>: one map from addresses to objects per kind of object (entries, lists,
      managers, mutexes, raw blocks), the globals \<open>mem_list\<close>, \<open>alloc_mutex\<close>, \<open>memory_manager\<close>,
      \<open>doFree\<close> and \<open>error_code\<close>, the current thread, the build options, the files, and the answers
      the environment will give. Pointers and \<open>size_t\<close> are \<open>64 word\<close>, so arithmetic wraps.
    \<^item> \<open>plat_allocators.c\<close> in \<open>Plat_Allocators\<close>: the environment decides the address and the initial
      contents of each allocation, or that it fails; \<open>can_place\<close> says which addresses it may give.
    \<^item> \<open>plat_threading.c\<close> in \<open>Plat_Threading\<close> (the Unix branch, which the rest of the development
      runs on) and \<open>Plat_Threading_Win\<close> (the Windows branch, over the kernel's mutexes);
      \<open>Critical_Sections\<close> has the interface both implement.
    \<^item> \<open>linked_list_c.c\<close> in \<open>List_Entry\<close> (entries), \<open>List_Walk\<close> (the traversal) and \<open>Linked_List\<close>
      (the list operations); \<open>List_Fold\<close> and \<open>List_Contract\<close> hold what the operations do to the
      sequence of blocks.
    \<^item> \<open>sn_error.c\<close> and the macro \<open>sn_error\<close> of \<open>_pri_api.h\<close> in \<open>SN_Error\<close>, \<open>sn_crash.c\<close> and
      \<open>sn_debug.c\<close> in \<open>SN_Crash\<close> (what the handler reads and how it ends) and \<open>Crash_Report\<close> (what
      it writes, a line for each format string); \<open>Error_Codes\<close> proves the tables.
    \<^item> \<open>alloc_manager_c.c\<close> in \<open>Alloc_Manager\<close>: the cache, its pass over the list, the limit.
    \<^item> \<open>sn_allocator.c\<close>, \<open>sn_cache.c\<close>, \<open>sn_metadata.c\<close>, \<open>sn_file_work.c\<close> and \<open>setup.c\<close> in
      \<open>SN_Allocator\<close>, \<open>SN_Cache\<close>, \<open>SN_Metadata\<close>, \<open>SN_File_Work\<close> and \<open>SN_Setup\<close>.

  Every C function is a definition of the same name, a function from \<open>machine\<close> to an \<open>outcome\<close>
  (\<open>SN_Prelude\<close>): \<open>Done r t\<close>, or \<open>Halt h t\<close> where \<open>h\<close> is undefined behaviour (an access to
  memory that is not live, a release of something that is not allocated), \<open>abort\<close>, \<open>exit\<close> with a
  code, a wait for a lock that is held, or an endless loop. \<open>bnd\<close> is the semicolon. Guards and
  early returns are the source's; where the macro \<open>sn_error\<close>, two statements, is the unbraced
  body of an \<open>if\<close>, the return is unconditional in the model as it is in the program
  (\<open>sn_error_unbraced\<close>, \<open>cached_or_return\<close>).

  What is proved, and where:

    \<^item> \<open>List_Walk\<close> states the contract of a traversal callback as the locales \<open>visitor\<close> and
      \<open>searcher\<close>, \<open>List_Fold\<close> derives \<open>folder\<close> from \<open>visitor\<close>; each callback of the library is an
      interpretation (searches, destruction, the cache pass, the sum per thread, the crash dump,
      the release at exit).
    \<^item> \<open>Critical_Sections\<close> states what users of a mutex rely on as the locale \<open>mutex\<close>, and proves
      mutual exclusion, progress and the answers of every disciplined sequence of calls inside it;
      \<open>unix\<close> and \<open>win\<close> are its interpretations.
    \<^item> \<open>Registry\<close> defines the abstract state \<open>sn_state\<close> (the sequence of tracked blocks, the usage,
      the limit, the last error, the memory), the invariant \<open>sn_ok\<close> of the state between calls
      and the abstraction \<open>models\<close>; \<open>Api_Spec\<close> says on the abstract state what the calls promise.
    \<^item> \<open>SN_Allocator\<close>, \<open>SN_Cache\<close>, \<open>SN_Metadata\<close> and \<open>SN_Setup\<close> prove each operation on every
      branch; \<open>Api_Contract\<close>, \<open>Copy_Contract\<close> and \<open>File_Contract\<close> restate the results as contracts
      of the public calls over the abstract state (\<open>serves\<close>, \<open>answers\<close>).
    \<^item> \<open>Api_Steps\<close> makes programs of the calls (a step relation with thread switches between calls
      and the program's own use of the heap), proves the forward simulation and the invariant of
      all reachable states; \<open>Progress\<close> adds that sequences of calls by several threads run to their
      end, and the typing of memory; \<open>Malloc_Race\<close> takes \<open>sn_malloc\<close> apart into the steps other
      threads can come between, and proves what every interleaving keeps and what it can lose;
      \<open>Free_Race\<close> does it for \<open>sn_free\<close> and a query that comes between, and \<open>Release_Race\<close> proves that
      releases of different blocks do not disturb each other in any interleaving;
    \<^item> \<open>Stale_Key\<close> and \<open>List_Deadlock\<close> prove, for every state of their kind, what a cached block
      that moves and a list that is emptied from the front lead to;
    \<^item> \<open>Accounting\<close> adds the accounting invariant and what a release undoes,
      \<open>Call_Patterns\<close> sequences of calls, and \<open>Scenarios\<close> and \<open>Instances\<close> concrete machines.

  Bounds. The traversal counts its steps in a \<open>size_t\<close>; the model stops with \<open>Endless\<close> when
  the counter would wrap, which a list of pairwise different 64-bit addresses cannot reach, so
  the traversals proved to return do so. There is no other fuel. Sizes of structs are those of
  the LP64 ABI (an entry has 56 bytes, the public metadata 32). The build options
  \<open>SN_CONFIG_ENABLE_MUTEX\<close> and the sanitizing of memory are the fields \<open>cfg_mutex\<close> and
  \<open>cfg_sanitize\<close>, and all theorems hold for both values.

  Assumptions. A call needs \<open>room\<close>: the list counts its pushes in a \<open>size_t\<close> and never counts a
  removal from its middle back. A block to be resized must not be in the cache (\<open>uncached\<close>), and
  a block handed over must be a live heap block of the size given: without these the calls are
  unsafe, and the last properties below show how. \<open>pthread_mutex_unlock\<close> of a mutex nobody holds
  is taken to leave it free, and \<open>pthread_mutex_destroy\<close> of a mutex that is held to do nothing, as
  glibc has it (POSIX leaves both open). \<open>__builtin_return_address\<close> is defined for the frames that
  exist only.

  Not modelled: races other than those of \<open>sn_malloc\<close> with itself and of \<open>sn_free\<close> with itself or
  with a query (elsewhere threads switch between calls only, while all locks are free); the rest of the library on the Windows mutex, which the
  equivalence of the two mutexes stands for; abandoned mutexes and the limit of the kernel's lock
  count; null function pointers passed as callbacks; blocks in static storage given to
  \<open>sn_register\<close>; functions the program registers with \<open>atexit\<close>; the C++ wrappers, tests and build
  files. What the map leaves out of the sources are prototypes, preprocessor text and comments.
\<close>



text \<open>C2 Forward simulation: whatever step a program takes (a permitted call, a mount that
  returns, a thread switch, its own use of the heap), the abstract state takes a step of the abstract system, and the
  tracked blocks stay distinct live heap blocks.\<close>

theorem steps_are_simulated:
  assumes "step s t" "models s a" "owned a"
  shows "\<exists>b. models t b \<and> owned b \<and> abs_step a b"
  using assms by (rule step_simulated)

lemma steps_are_simulated_witness: "\<exists>b. models one_block b \<and> owned b \<and> abs_step (loaded process) b"
  by (rule steps_are_simulated [OF booted_step booted_models(1) booted_owned])

text \<open>C3 The invariant of all programs: in every reachable state the list, the cache, the manager
  and the locks are well formed and show an abstract state that the abstract system reaches,
  in which the tracked blocks are distinct live heap blocks of at least the recorded size.\<close>

theorem reachable_states_are_modelled:
  assumes "reachable s"
  shows "\<exists>a. models s a \<and> owned a \<and> abs_reachable a"
  using assms by (rule reachable_refines)

lemma reachable_states_are_modelled_witness: "\<exists>a. models booted a \<and> owned a \<and> abs_reachable a"
  by (rule reachable_states_are_modelled [OF booted_reachable])

text \<open>C4 No call makes another wait: from a reachable state in which no lock is held, every sequence
  of permitted calls by any threads, each made while at least one block is tracked, runs to its
  end with an answer for each call and no lock held, or ends the program with \<open>abort\<close> for want
  of memory for a list entry.\<close>

theorem schedules_finish:
  assumes "reachable s" "all_released s" "schedulable calls s"
  shows "ends (run_schedule calls) s (\<lambda>rs t. length rs = length calls \<and> reachable t \<and> all_released t) (\<lambda>h. h = Aborted)"
  using assms by (rule schedule_ends)

lemma schedules_finish_witness:
  "ends (run_schedule two_thread_calls) one_block (\<lambda>rs t. length rs = 2 \<and> reachable t \<and> all_released t) (\<lambda>h. h = Aborted)"
  by (rule ends_mono [OF schedules_finish [OF one_block_reachable one_block_released two_threads_schedulable]])
    (simp_all add: two_thread_calls_def)

text \<open>C5 Memory stays typed: in every reachable state \<open>mem_list\<close>, \<open>memory_manager\<close> and \<open>alloc_mutex\<close>
  point at a list, a manager and a mutex, and the address of every tracked block is that of a
  live heap block of at least the recorded size, and of none of the library's own objects.\<close>

theorem memory_is_typed:
  assumes "reachable s" "models s a"
  shows "lists s (mem_list s) \<noteq> None \<and> managers s (memory_manager s) \<noteq> None \<and>
     (alloc_mutex s \<noteq> NULL \<and> cfg_mutex s \<longrightarrow> mutexes s (alloc_mutex s) \<noteq> None) \<and>
     (\<forall>x \<in> set (registry a). tb_data x \<noteq> NULL \<and> (\<exists>bs. blocks s (tb_data x) = Some bs \<and> unat (tb_size x) \<le> length bs) \<and>
        nodes s (tb_data x) = None \<and> lists s (tb_data x) = None \<and>
        managers s (tb_data x) = None \<and> mutexes s (tb_data x) = None)"
  using reachable_typed [OF assms] by (simp add: well_typed_def)

lemma memory_is_typed_witness:
  "lists one_block (mem_list one_block) \<noteq> None \<and> managers one_block (memory_manager one_block) \<noteq> None \<and>
   nodes one_block 24576 = None \<and> (\<exists>bs. blocks one_block 24576 = Some bs \<and> 16 \<le> length bs)"
  using memory_is_typed [OF one_block_reachable one_block_models] by (auto simp: one_block_state_def with_block_def)

text \<open>C6 A block obtained from \<open>sn_malloc\<close> has the size asked for, is fresh and, with sanitizing
  on, zeroed; it is tracked under its address and thread and counted; failures set the error
  for size 0, for the limit and for the allocator.\<close>

theorem malloc_meets_spec:
  assumes "models s a" "room s"
  shows "serves (sn_malloc n) s a (malloc_spec (cfg_sanitize s) (thread_id s) n a)"
  using assms by (rule malloc_serves)

lemma malloc_meets_spec_witness:
  "serves (sn_malloc 16) booted (loaded process) (malloc_spec True 7 16 (loaded process))"
  using malloc_meets_spec [OF booted_models] booted_fields by simp

text \<open>C7 \<open>sn_free\<close> always returns: the block at the address leaves the heap, the list, the cache
  and the usage counter; an address that is not tracked only sets the error and stays
  untouched, so a second release of a block is harmless.\<close>

theorem free_meets_spec:
  assumes "models s a" "owned a"
  shows "answers (sn_free p) s a (\<lambda>_ b. b = free_spec p a)"
  using assms by (rule free_answers)

lemma free_meets_spec_witness:
  "answers (sn_free 24576) one_block one_block_state (\<lambda>_ b. b = free_spec 24576 one_block_state)"
  by (rule free_meets_spec [OF one_block_models one_block_owned])

text \<open>C8 \<open>sn_realloc\<close> of a block that is not in the cache keeps the contents up to the smaller
  size, moves the record to the new address and size and the counter by the difference; every
  failure leaves the block as it was.\<close>

theorem realloc_meets_spec:
  assumes "models s a" "owned a" "uncached s p"
  shows "answers (sn_realloc p n) s a (realloc_spec p n a)"
  using assms by (rule realloc_answers)

lemma realloc_meets_spec_witness:
  "answers (sn_realloc 24576 32) one_block one_block_state (realloc_spec 24576 32 one_block_state)"
  by (rule realloc_meets_spec [OF one_block_models one_block_owned one_block_memory(5)])

text \<open>C9 \<open>sn_calloc\<close> hands out \<open>num * size\<close> zeroed bytes and counts them all, but the record of
  the block says \<open>size\<close>; products that do not fit in a \<open>size_t\<close> are refused by the allocator.\<close>

theorem calloc_meets_spec:
  assumes "models s a" "room s"
  shows "serves (sn_calloc num n) s a (calloc_spec (thread_id s) num n a)"
  using assms by (rule calloc_serves)

lemma calloc_meets_spec_witness:
  "serves (sn_calloc 4 8) booted (loaded process) (calloc_spec 7 4 8 (loaded process))"
  using calloc_meets_spec [OF booted_models] booted_fields by simp

text \<open>C10 Allocation and release cancel out: after \<open>sn_malloc\<close> and \<open>sn_free\<close> of its result the
  registry, the usage, the limit, the last error and the memory are what they were.\<close>

theorem malloc_then_free:
  assumes "models s a" "owned a" "room s"
  shows "ends (and_free (sn_malloc n)) s (\<lambda>p u. p \<noteq> NULL \<longrightarrow> models u a) (\<lambda>h. h = Aborted)"
  using assms by (rule malloc_and_free)

lemma malloc_then_free_witness:
  "ends (and_free (sn_malloc 16)) booted (\<lambda>p u. p \<noteq> NULL \<longrightarrow> models u (loaded process)) (\<lambda>h. h = Aborted)"
  by (rule malloc_then_free [OF booted_models(1) booted_owned booted_models(2)])



text \<open>C12 What \<open>sn_calloc\<close> counts is not what \<open>sn_free\<close> gives back: after both, everything is as
  before but the usage, which is higher by \<open>n * num - n\<close>.\<close>

theorem calloc_then_free:
  assumes "models s a" "owned a" "room s"
  shows "ends (and_free (sn_calloc num n)) s
    (\<lambda>p u. p \<noteq> NULL \<longrightarrow> models u (a\<lparr>usage := usage a + n * num - n\<rparr>)) (\<lambda>h. h = Aborted)"
  using assms by (rule calloc_and_free)

lemma calloc_then_free_witness:
  "ends (and_free (sn_calloc 4 8)) booted
    (\<lambda>p u. p \<noteq> NULL \<longrightarrow> models u ((loaded process)\<lparr>usage := 24\<rparr>)) (\<lambda>h. h = Aborted)"
  using calloc_then_free [OF booted_models(1) booted_owned booted_models(2), of 4 8] by (simp add: loaded_def)

text \<open>C13 A block handed over with \<open>sn_register_size\<close> is not counted, but its release subtracts
  its size: from a fresh library the counter wraps to \<open>2 ^ 64 - n\<close>.\<close>

theorem registered_then_freed:
  assumes "models s a" "owned a" "room s"
    and "p \<noteq> NULL" "n \<noteq> 0" "find_block p (registry a) = None" "memory a p = Some bs" "unat n \<le> length bs"
  shows "ends (and_free (sn_register_size p n)) s (\<lambda>q u. q = p \<and>
    models u (a\<lparr>usage := usage a - n, memory := (memory a)(p := None)\<rparr>)) (\<lambda>h. h = Aborted)"
  using assms by (rule register_size_and_free)

lemma registered_then_freed_witness:
  "ends (and_free (sn_register_size 24576 8)) with_own_block (\<lambda>q u. q = 24576 \<and>
    models u (own_block_state\<lparr>usage := - 8, memory := (memory own_block_state)(24576 := None)\<rparr>)) (\<lambda>h. h = Aborted)"
  using registered_then_freed [OF own_block_models own_block_owned own_block_room, of 24576 8] own_block_fields
  by simp

text \<open>C14 With a limit set, a successful \<open>sn_malloc\<close> or \<open>sn_calloc\<close> leaves the usage strictly
  below it: a request that reaches the limit exactly is already refused.\<close>

theorem allocations_keep_the_limit:
  assumes "models s a" "room s"
  shows "serves (sn_malloc n) s a (\<lambda>p b. p \<noteq> NULL \<longrightarrow> cap b = 0 \<or> usage b < cap b) \<and>
    serves (sn_calloc num n) s a (\<lambda>p b. p \<noteq> NULL \<longrightarrow> cap b = 0 \<or> usage b < cap b)"
proof
  show "serves (sn_malloc n) s a (\<lambda>p b. p \<noteq> NULL \<longrightarrow> cap b = 0 \<or> usage b < cap b)"
    by (rule serves_mono [OF malloc_serves [OF assms]]) (use malloc_spec_limit in blast)
  show "serves (sn_calloc num n) s a (\<lambda>p b. p \<noteq> NULL \<longrightarrow> cap b = 0 \<or> usage b < cap b)"
    by (rule serves_mono [OF calloc_serves [OF assms]]) (use calloc_spec_limit in blast)
qed

lemma allocations_keep_the_limit_witness:
  "serves (sn_malloc 16) booted (loaded process) (\<lambda>p b. p \<noteq> NULL \<longrightarrow> cap b = 0 \<or> usage b < cap b) \<and>
   serves (sn_calloc 4 16) booted (loaded process) (\<lambda>p b. p \<noteq> NULL \<longrightarrow> cap b = 0 \<or> usage b < cap b)"
  by (rule allocations_keep_the_limit [OF booted_models])




text \<open>C17 \<open>global_memory_usage += size\<close> is not protected: when two threads read the counter before
  either writes it, both blocks end up tracked but only the size of the second is counted.\<close>

theorem racing_allocations_lose_usage:
  assumes "models s a" "all_released s" "room s" "t \<noteq> 0" "u \<noteq> 0" "t \<noteq> u"
  shows "\<exists>s'. race_step\<^sup>*\<^sup>* (s, [t \<mapsto> Allocated n p, u \<mapsto> Allocated k q]) (s', [t \<mapsto> Counted n p, u \<mapsto> Counted k q]) \<and>
    models s' (a\<lparr>usage := usage a + k\<rparr>)"
  using assms by (rule update_lost)

lemma racing_allocations_lose_usage_witness:
  "\<exists>s'. race_step\<^sup>*\<^sup>* (booted, [8 \<mapsto> Allocated 16 24576, 9 \<mapsto> Allocated 16 28672])
      (s', [8 \<mapsto> Counted 16 24576, 9 \<mapsto> Counted 16 28672]) \<and> models s' ((loaded process)\<lparr>usage := 16\<rparr>)"
  using racing_allocations_lose_usage [OF booted_models(1) booted_released booted_models(2), of 8 9 16 24576 16 28672]
  by (simp add: loaded_def)





text \<open>C21 Loading the library from any process either aborts or brings up a well-formed empty
  registry with usage 0 and no limit, all its locks free; the process's memory is unchanged.\<close>

theorem library_loads:
  assumes "split_ok s" "current s \<noteq> 0"
  shows "ends library_init s (\<lambda>_ t. models t (loaded s) \<and> room t \<and>
    (\<forall>L. lists t (mem_list t) = Some L \<longrightarrow> released (l_mutex L) t) \<and> released (alloc_mutex t) t) (\<lambda>h. h = Aborted)"
  using doinit_ends [OF assms] by (simp only: library_init_def)

lemma library_loads_witness: "models booted (loaded process) \<and> room booted"
  using library_loads [OF process_ok] booted_eq by (simp add: ends_def)

text \<open>C22 Unloading the library always returns: with auto-free on, exactly the tracked blocks leave
  the heap; the entries and the head, the list, both mutexes and the manager are freed once
  each, and no other entry is.\<close>

theorem library_unloads:
  assumes "models s a" "owned a"
  shows "runs library_cleanup s (\<lambda>_ t. unloaded s a t)"
  using assms by (rule unload_runs)

lemma library_unloads_witness: "runs library_cleanup one_block (\<lambda>_ t. unloaded one_block one_block_state t)"
  by (rule library_unloads [OF one_block_models one_block_owned])

text \<open>C23 The two platforms agree: for every sequence of lock and unlock calls by any threads in which
  only the holder unlocks, nested locks included, the Unix mutex and the Windows mutex let the
  same calls return and make the same calls wait, as the abstract mutex says.\<close>

theorem windows_mutex_answers_as_unix:
  assumes "unix_sound m s" "unix_holder m s = None" "win_sound q w" "win_holder q w = None"
    and "mutex_spec None ops = Some expected"
  shows "observe (unix_lock m) (unix_unlock m) ops s = expected \<and> observe (win_lock q) (win_unlock q) ops w = expected"
  using unix.observe_spec [of m s ops] win.observe_spec [of q w ops] assms by simp

lemma windows_mutex_answers_as_unix_witness:
  "observe (unix_lock (alloc_mutex booted)) (unix_unlock (alloc_mutex booted))
      [(7, Lock), (7, Lock), (8, Lock), (7, Unlock), (8, Lock)] booted = [True, True, False, True, True] \<and>
   observe (win_lock 4096) (win_unlock 4096)
      [(7, Lock), (7, Lock), (8, Lock), (7, Unlock), (8, Lock)] windows_mutex = [True, True, False, True, True]"
  by (rule windows_mutex_answers_as_unix [OF booted_mutex windows_mutex_fresh]) simp

text \<open>C24 Mutual exclusion: threads that call \<open>plat_mutex_lock\<close> and \<open>plat_mutex_unlock\<close> in turns, in
  any interleaving, are never two in the critical section, and while one is inside the call of
  every other waits. This holds for the mutex of either platform.\<close>

theorem critical_sections_exclude:
  assumes "unix_sound m s" "unix_holder m s = None" "win_sound q w" "win_holder q w = None"
  shows "((section_step (unix_lock m) (unix_unlock m))\<^sup>*\<^sup>* (s, {}) (s', I) \<longrightarrow>
      (\<forall>t \<in> I. \<forall>u \<in> I. t = u) \<and> (\<forall>t \<in> I. \<forall>u. u \<noteq> 0 \<longrightarrow> u \<notin> I \<longrightarrow> (\<exists>x. unix_lock m u s' = Halt Blocked x))) \<and>
    ((section_step (win_lock q) (win_unlock q))\<^sup>*\<^sup>* (w, {}) (w', J) \<longrightarrow>
      (\<forall>t \<in> J. \<forall>u \<in> J. t = u) \<and> (\<forall>t \<in> J. \<forall>u. u \<noteq> 0 \<longrightarrow> u \<notin> J \<longrightarrow> (\<exists>x. win_lock q u w' = Halt Blocked x)))"
  by (rule conjI; rule impI; rule unix.sections_exclusive [OF assms(1,2)] win.sections_exclusive [OF assms(3,4)])

lemma critical_sections_exclude_witness:
  "\<exists>s' x. (section_step (unix_lock (alloc_mutex booted)) (unix_unlock (alloc_mutex booted)))\<^sup>*\<^sup>* (booted, {}) (s', {8}) \<and>
    unix_lock (alloc_mutex booted) 9 s' = Halt Blocked x"
proof -
  obtain s' where "unix_lock (alloc_mutex booted) 8 booted = Done () s'"
    using unix.acq_free [OF booted_mutex, of 8] by auto
  then have "section_step (unix_lock (alloc_mutex booted)) (unix_unlock (alloc_mutex booted)) (booted, {}) (s', {8})"
    using section_step.enter [of 8 "{}" "unix_lock (alloc_mutex booted)" booted] by simp
  then have "(section_step (unix_lock (alloc_mutex booted)) (unix_unlock (alloc_mutex booted)))\<^sup>*\<^sup>* (booted, {}) (s', {8})" by blast
  moreover from this have "\<exists>x. unix_lock (alloc_mutex booted) 9 s' = Halt Blocked x"
    using critical_sections_exclude [OF booted_mutex windows_mutex_fresh, of s' "{8}"] by auto
  ultimately show ?thesis by blast
qed

text \<open>C25 Progress: whatever such threads have done, each of them can still get into the critical
  section, after the one inside (if any) has left, on either platform.\<close>

theorem every_thread_enters:
  assumes "unix_sound m s" "unix_holder m s = None" "win_sound q w" "win_holder q w = None" "t \<noteq> 0"
  shows "((section_step (unix_lock m) (unix_unlock m))\<^sup>*\<^sup>* (s, {}) (s', I) \<longrightarrow> t \<notin> I \<longrightarrow>
      (\<exists>x. (section_step (unix_lock m) (unix_unlock m))\<^sup>*\<^sup>* (s', I) (x, {t}))) \<and>
    ((section_step (win_lock q) (win_unlock q))\<^sup>*\<^sup>* (w, {}) (w', J) \<longrightarrow> t \<notin> J \<longrightarrow>
      (\<exists>x. (section_step (win_lock q) (win_unlock q))\<^sup>*\<^sup>* (w', J) (x, {t})))"
  by (rule conjI; intro impI; rule unix.sections_progress [OF assms(1,2) _ assms(5)] win.sections_progress [OF assms(3,4) _ assms(5)])

lemma every_thread_enters_witness:
  "\<exists>x y. (section_step (unix_lock (alloc_mutex booted)) (unix_unlock (alloc_mutex booted)))\<^sup>*\<^sup>* (booted, {}) (x, {8}) \<and>
    (section_step (win_lock 4096) (win_unlock 4096))\<^sup>*\<^sup>* (windows_mutex, {}) (y, {8})"
  using every_thread_enters [OF booted_mutex windows_mutex_fresh, of 8 booted "{}" windows_mutex "{}"] by simp

text \<open>C26 Critical sections do not nest: after two locks and one unlock of a thread another gets in.
  The second unlock of the first thread then ends the section of the other: on Unix a third
  thread enters beside it, on Windows the kernel refuses the unlock and the third waits.\<close>

theorem second_unlock_differs:
  assumes "unix_sound m s" "unix_holder m s = None" "win_sound q w" "win_holder q w = None"
    and "distinct [0, t, u, v]"
  defines "ops \<equiv> [(t, Lock), (t, Lock), (t, Unlock), (u, Lock), (t, Unlock), (v, Lock)]"
  shows "observe (unix_lock m) (unix_unlock m) ops s = [True, True, True, True, True, True] \<and>
    observe (win_lock q) (win_unlock q) ops w = [True, True, True, True, True, False]"
  unfolding ops_def using unix_second_unlock [OF assms(1,2,5)] win_second_unlock [OF assms(3,4,5)] by blast

lemma second_unlock_differs_witness:
  "observe (unix_lock (alloc_mutex booted)) (unix_unlock (alloc_mutex booted))
      [(7, Lock), (7, Lock), (7, Unlock), (8, Lock), (7, Unlock), (9, Lock)] booted = [True, True, True, True, True, True] \<and>
   observe (win_lock 4096) (win_unlock 4096)
      [(7, Lock), (7, Lock), (7, Unlock), (8, Lock), (7, Unlock), (9, Lock)] windows_mutex = [True, True, True, True, True, False]"
  by (rule second_unlock_differs [OF booted_mutex windows_mutex_fresh]) simp

text \<open>C27 Every outcome of \<open>sn_dump_to_file\<close>: the error for null arguments, for a file that exists,
  for a failed open and for a short write, nothing at all for a block outside the cache, or
  the bytes of the block in the file; for a cached block and a working file system, the last.\<close>

theorem dump_meets_spec:
  assumes "models s a" "owned a"
  shows "runs (sn_dump_to_file target p) s (\<lambda>r t. keeps_locks (may_leak s a) s t \<and>
    (\<exists>b. models t b \<and> dump_spec target p a (files s) r b (files t)) \<and>
    (\<forall>path. target = Some path \<and> p \<noteq> NULL \<and> files s path = None \<and> io_answers s = [] \<and> in_cache s p \<longrightarrow>
       r \<and> (\<exists>x bs. find_block p (registry a) = Some x \<and> memory a p = Some bs \<and>
         files t = (files s)(path \<mapsto> take (unat (tb_size x)) bs))))"
  using assms by (rule dump_runs)

lemma dump_meets_spec_witness:
  "runs (sn_dump_to_file (Some ''a'') 24576) cached_block (\<lambda>r t. r \<and> files t = [''a'' \<mapsto> replicate 16 0])"
proof (rule runs_mono [OF dump_meets_spec [OF cached_block_models one_block_owned]], elim conjE)
  have mem: "memory one_block_state 24576 = Some (replicate 16 0)" by (simp add: one_block_state_def with_block_def)
  fix r t
  assume *: "\<forall>path. Some ''a'' = Some path \<and> (24576 :: ptr) \<noteq> NULL \<and> files cached_block path = None \<and>
      io_answers cached_block = [] \<and> in_cache cached_block 24576 \<longrightarrow> r \<and> (\<exists>x bs.
        find_block 24576 (registry one_block_state) = Some x \<and> memory one_block_state 24576 = Some bs \<and>
        files t = (files cached_block)(path \<mapsto> take (unat (tb_size x)) bs))"
  show "r \<and> files t = [''a'' \<mapsto> replicate 16 0]"
    using * [THEN spec, of "''a''"] cached_block_fields one_block_find mem by simp
qed

text \<open>C28 Every outcome of \<open>sn_mount_file_to_ram\<close>: its errors, a buffer released again after a
  short read, a tracked block that holds the file, or, when the block cannot be allocated, the
  crash handler with code 20, which reads a dangling pointer if the last entry looked up has
  been freed since; for a non-empty file and a working file system, the block.\<close>

theorem mount_meets_spec:
  assumes "models s a" "owned a" "room s"
  shows "ends (sn_mount_file_to_ram target) s (\<lambda>r u. keeps_locks {} s u \<and>
      (\<exists>b. models u b \<and> mount_spec (cfg_sanitize s) (thread_id s) target a (files s) r b) \<and>
      (r \<noteq> NULL \<longrightarrow> files u = files s) \<and>
      (\<forall>path bs. target = Some path \<and> files s path = Some bs \<and> io_answers s = [] \<and> 0 < length bs \<and>
         length bs < 2 ^ 64 \<longrightarrow> r \<noteq> NULL \<and> blocks u r = Some bs))
    (\<lambda>h. h = Aborted \<or> h = Exited 20 \<or> h = UB \<and> \<not> last_access_live s)"
  using assms by (rule mount_ends)

lemma mount_meets_spec_witness:
  "ends (sn_mount_file_to_ram (Some ''a'')) booted (\<lambda>r u. keeps_locks {} booted u \<and>
      (\<exists>b. models u b \<and> mount_spec True 7 (Some ''a'') (loaded process) (files booted) r b))
    (\<lambda>h. h = Aborted \<or> h = Exited 20 \<or> h = UB \<and> \<not> last_access_live booted)"
  by (rule ends_mono [OF mount_meets_spec [OF booted_models(1) booted_owned booted_models(2), of "Some ''a''"]])
    (use booted_fields in auto)

text \<open>C29 A crash report is complete: on a well-formed state whose \<open>lastAccess\<close> is still there, it
  consists of the heading with the error and the last access, and then the data pointer, the
  size and the thread of every tracked block, in order and nothing else; then the program exits
  with the error code.\<close>

theorem crash_report_names_every_block:
  assumes "models s a" "last_access_live s" "err \<noteq> SN_ERR_CATASTROPHIC" "err \<noteq> SN_ERR_SYS_FAIL"
    and "dump_list_crash opts" "stack_trace opts \<longrightarrow> 5 \<le> length frames"
  shows "\<exists>shown out t. crash_report opts frames err line fname func s =
      Done (report_head opts frames fname line func err (thread_shown s) @ shown @ out, Exited (err_code err)) t \<and>
      named_data out = map tb_data (registry a) \<and> named_sizes out = map tb_size (registry a) \<and>
      named_tids out = map tb_tid (registry a)"
  using assms by (rule crash_report_lists)

lemma crash_report_names_every_block_witness:
  "\<exists>shown out t. crash_report default_options [1, 2, 3, 4, 5] SN_ERR_BAD_ALLOC 107 ''sn_file_work.c'' ''sn_mount_file_to_ram'' one_block =
      Done (report_head default_options [1, 2, 3, 4, 5] ''sn_file_work.c'' 107 ''sn_mount_file_to_ram'' SN_ERR_BAD_ALLOC 7 @ shown @ out,
        Exited 20) t \<and> named_data out = [24576] \<and> named_sizes out = [16] \<and> named_tids out = [7]"
proof -
  have t: "thread_shown one_block = 7" using one_block_fields by (simp add: thread_shown_def thread_id_def)
  show ?thesis
    using crash_report_names_every_block [OF one_block_models one_block_crash, of SN_ERR_BAD_ALLOC default_options "[1, 2, 3, 4, 5]"
      107 "''sn_file_work.c''" "''sn_mount_file_to_ram''"]
    by (simp only: t) (simp add: default_options_def one_block_state_def with_block_def loaded_def)
qed

text \<open>C30 Dump and mount are inverse: the bytes of a cached block that was dumped to a new file are
  the contents of the block a mount of that file hands out in any later state.\<close>

theorem dump_then_mount_restores:
  assumes "models s a" "owned a" "find_block p (registry a) = Some x" "tb_size x \<noteq> 0"
    and "io_answers s = []" "in_cache s p" "files s path = None" "p \<noteq> NULL"
    and "sn_dump_to_file (Some path) p s = Done r t"
    and "models u b" "owned b" "room u" "files u path = files t path" "io_answers u = []"
  shows "ends (sn_mount_file_to_ram (Some path)) u
    (\<lambda>q v. q \<noteq> NULL \<and> blocks v q = Some (take (unat (tb_size x)) (the (memory a p))))
    (\<lambda>h. h = Aborted \<or> h = Exited 20 \<or> h = UB \<and> \<not> last_access_live u)"
  using assms by (rule dump_then_mount)

lemma dump_then_mount_restores_witness:
  "ends (sn_mount_file_to_ram (Some ''a'')) dumped_block
    (\<lambda>q v. q \<noteq> NULL \<and> blocks v q = Some (replicate 16 0))
    (\<lambda>h. h = Aborted \<or> h = Exited 20 \<or> h = UB \<and> \<not> last_access_live dumped_block)"
  using dump_then_mount_restores [OF cached_block_models one_block_owned one_block_find _
      cached_block_fields(3,1) _ _ dumped_block_eq dumped_block_models one_block_owned dumped_block_fields(1) refl
      dumped_block_fields(2)]
    cached_block_fields(4) by (simp add: one_block_state_def with_block_def)



text \<open>C32 \<open>sn_query_tid\<close> answers the recorded thread of a block that is in the cache, and 0 for
  every other block: for a tracked one without an error, as the lookup in the list is done but
  its result is never used.\<close>

theorem thread_id_needs_the_cache:
  assumes "models s a" "owned a"
  shows "answers (sn_query_tid p) s a (\<lambda>r b. b = queried p a \<and>
    (if p \<noteq> NULL \<and> cached s p then \<exists>x. find_block p (registry a) = Some x \<and> r = tb_tid x else r = 0))"
  using assms by (rule query_tid_answers)

lemma thread_id_needs_the_cache_witness:
  "answers (sn_query_tid 24576) cached_block one_block_state (\<lambda>r b. b = queried 24576 one_block_state \<and> r = 7)"
  by (rule answers_mono [OF thread_id_needs_the_cache [OF cached_block_models one_block_owned]])
    (use cached_block_cached one_block_find in auto)

text \<open>C33 \<open>sn_is_tracked_block\<close> does not tell tracked blocks from others: it answers true for every
  pointer but null.\<close>

theorem every_pointer_is_tracked:
  assumes "models s a" "owned a"
  shows "answers (sn_is_tracked_block p) s a
    (\<lambda>r b. r = (p \<noteq> NULL) \<and> b = (if p = NULL then failed SN_ERR_NULL_PTR a else a))"
  using assms by (rule is_tracked_answers)

lemma every_pointer_is_tracked_witness:
  "answers (sn_is_tracked_block 99) booted (loaded process) (\<lambda>r b. r \<and> b = loaded process)"
  using every_pointer_is_tracked [OF booted_models(1) booted_owned, of 99] by simp

text \<open>C34 The pass that fills the cache does to the entries and the slots what the pure function
  \<open>cache_pass\<close> does, nothing else, and keeps every slot pointing at a tracked entry under its
  own key.\<close>

theorem cache_work_is_a_fold:
  assumes "list_ok s l L ns" "ready (l_mutex L) s" "manager_at s m M" "cache_ok (nodes s) ns (m_cache_list M)"
  shows "runs (memman_work m l) s (\<lambda>_ t.
      settled (leaks L ns) s (with_view m M (cache_pass ns (nodes s, m_cache_list M)) s) t) \<and>
    view_ok (nodes s) ns (cache_pass ns (nodes s, m_cache_list M))"
  using work_eq [OF assms] by blast

lemma cache_work_is_a_fold_witness:
  "runs (memman_work (memory_manager one_block) (mem_list one_block)) one_block (\<lambda>_ t.
      settled (leaks tracked_list [28672]) one_block (with_view (memory_manager one_block) tracked_manager
        (cache_pass [28672] (nodes one_block, m_cache_list tracked_manager)) one_block) t) \<and>
    view_ok (nodes one_block) [28672] (cache_pass [28672] (nodes one_block, m_cache_list tracked_manager))"
  by (rule cache_work_is_a_fold [OF one_block_list(1,2) one_block_manager])

text \<open>C35 The cache pass fills slots without counting them; a request for a tracked block when all
  slots are taken but some still count as available ends the program with code 185. The
  destructor, which \<open>exit\<close> runs next in the state the handler left, returns and releases
  everything, although the thread still holds the manager's mutex.\<close>

theorem full_cache_ends_the_program:
  assumes "sn_ok s L M ns" "owned (abstract M ns s)" "p \<noteq> NULL" "find_block p (registry (abstract M ns s)) \<noteq> None"
    and "\<not> m_cache_lock M" "m_use_cache M" "m_available_cache_slots M \<noteq> 0"
      "\<forall>c \<in> set (m_cache_list M). \<not> free_slot c"
  shows "\<exists>t. sn_request_to_fast_cache p s = Halt (Exited 185) t \<and>
    runs library_cleanup t (\<lambda>_ u. unloaded t (abstract M ns s) u)"
  using assms by (rule request_crash_then_unload)

lemma full_cache_ends_the_program_witness:
  "\<exists>t. sn_request_to_fast_cache 24576 full_cache = Halt (Exited 185) t \<and>
    runs library_cleanup t (\<lambda>_ u. unloaded t (abstract full_manager [28672] full_cache) u)"
  by (rule full_cache_ends_the_program [OF full_cache_ok full_cache_owned _ full_cache_block full_manager_fields]) simp

text \<open>C36 On a well-formed list \<open>linked_list_forEach\<close> with a callback that only reads the entry ends,
  visits every entry once and in order and answers null: it is a fold.\<close>

theorem traversal_is_a_fold:
  assumes "\<And>s p e l i g. nodes s p = Some e \<Longrightarrow> p \<noteq> NULL \<Longrightarrow> worker l p i g s = Done (NULL, f g p e) s"
    and "list_ok s l L ns" "ready (l_mutex L) s"
  shows "linked_list_forEach l worker g s =
    Done (NULL, fold (\<lambda>p g. f g p (the (nodes s p))) ns g) (after_walk L ns s)"
  using folder.forEach_folds [OF folder.intro assms(2,3), of worker f g] assms(1) by (simp add: fold_entries_def)

lemma traversal_is_a_fold_witness:
  "linked_list_forEach (mem_list one_block) (\<lambda>l p i ps. ret (NULL, ps @ [p])) [] one_block =
    Done (NULL, [28672]) (after_walk tracked_list [28672] one_block)"
  using traversal_is_a_fold [OF _ one_block_list(1,2), of "\<lambda>l p i ps. ret (NULL, ps @ [p])" "\<lambda>ps p e. ps @ [p]" "[]"]
  by (simp add: ret_def)

text \<open>C37 Whatever its callback answers, \<open>sn_mem_metadata_for_each\<close> answers null: the sentinel it
  compares with is never handed out by the traversal. With a callback that only computes, it
  always returns, with the list, the blocks and the last error as they were.\<close>

theorem metadata_walk_answers_null:
  assumes "models s a" "\<And>md i u. worker md i frame u = Done (f md i) u"
  shows "answers (sn_mem_metadata_for_each worker arg frame) s a (\<lambda>r b. r = NULL \<and> b = a) \<and>
    (\<forall>w r u t. sn_mem_metadata_for_each w arg frame u = Done r t \<longrightarrow> r = NULL)"
  using for_each_answers [of s a worker frame f arg, OF assms] for_each_null by blast

lemma metadata_walk_answers_null_witness:
  "answers (sn_mem_metadata_for_each (\<lambda>md i arg. ret md) 0 64) one_block one_block_state (\<lambda>r b. r = NULL \<and> b = one_block_state)"
  using metadata_walk_answers_null [OF one_block_models, of "\<lambda>md i arg. ret md" 64 "\<lambda>md i. md" 0] by (simp add: ret_def)

text \<open>C38 The table of names: a number is reported as unknown exactly when it is no error code, two
  codes share a name exactly when they share a value, and only \<open>SN_WARN_DUB_FREE\<close> and
  \<open>SN_ERR_DEBUG\<close> do, both named \<open>SN_ERR_DEBUG\<close>.\<close>

theorem error_names_are_unique:
  "(sn_get_error_name i = ''SN_SOFT_FAKE_ERR_UNKNOWN'' \<longleftrightarrow> (\<forall>e. i \<noteq> err_code e)) \<and>
   (sn_get_error_name (err_code e) = sn_get_error_name (err_code f) \<longleftrightarrow>
     e = f \<or> {e, f} = {SN_WARN_DUB_FREE, SN_ERR_DEBUG}) \<and>
   sn_get_error_name (err_code SN_WARN_DUB_FREE) = ''SN_ERR_DEBUG''"
  using name_unknown_iff name_inject err_code_eq name_of_code [of SN_WARN_DUB_FREE] by simp

text \<open>C39 The library deadlocks: removals from the middle do not decrease \<open>len\<close>, so a list can be empty
  and count entries. In every such state a query of one thread returns with the mutex of the list
  taken; a query of any other thread takes the manager's mutex and waits for the list's; and the
  next query of the first thread waits for the manager's. Two blocks released oldest first are
  enough.\<close>

theorem emptied_list_keeps_its_lock:
  assumes "models s a" "registry a = []" "lists s (mem_list s) = Some L" "l_len L \<noteq> 0"
    and "cfg_mutex s" "alloc_mutex s \<noteq> NULL" "l_mutex L \<noteq> NULL" "u \<noteq> 0" "u \<noteq> current s"
  shows "\<exists>t v w. sn_query_size p s = Done 0 t \<and> sn_query_size q (t\<lparr>current := u\<rparr>) = Halt Blocked v \<and>
    sn_query_size r (v\<lparr>current := current s\<rparr>) = Halt Blocked w"
  using assms by (rule emptied_deadlock)

lemma emptied_list_keeps_its_lock_witness:
  "\<exists>t v w. sn_query_size 24576 emptied_list = Done 0 t \<and> sn_query_size 24576 (t\<lparr>current := 8\<rparr>) = Halt Blocked v \<and>
    sn_query_size 24576 (v\<lparr>current := 7\<rparr>) = Halt Blocked w"
proof -
  obtain a L where "models emptied_list a" "registry a = []"
      "lists emptied_list (mem_list emptied_list) = Some L" "l_len L \<noteq> 0" "l_mutex L \<noteq> NULL"
    using emptied_list_models emptied_list_fields(1) by blast
  then show ?thesis using emptied_list_keeps_its_lock [of emptied_list a L 8] emptied_list_fields(2-4) by simp
qed

text \<open>C40 \<open>sn_realloc\<close> leaves the old address of a cached block in the cache: whenever a cached block
  moves, a release of the old address, which should only fail, frees the new block without an
  error but keeps its record, and the release of the new address touches freed memory.\<close>

theorem stale_key_releases_twice:
  assumes "models s a" "owned a" "in_cache s p" "sn_realloc p n s = Done q t" "q \<noteq> NULL" "q \<noteq> p"
  shows "\<exists>u. sn_free p t = Done () u \<and> error_code u = error_code t \<and> blocks t q \<noteq> None \<and> blocks u q = None \<and>
    (\<exists>v. sn_free q u = Halt UB v)"
  using assms by (rule stale_key_released_twice)

lemma stale_key_releases_twice_witness:
  "\<exists>u. sn_free 24576 moved_block = Done () u \<and> blocks u 32768 = None \<and> (\<exists>v. sn_free 32768 u = Halt UB v)"
  using stale_key_releases_twice [OF cached_block_models one_block_owned cached_block_fields(1) moved_block_eq] by auto

end
